(* ===== verification/Rust_Prelude.thy ===== *)
theory Rust_Prelude
  imports
    Complex_Main
    "HOL-Library.Word"
    "HOL-Library.Monad_Syntax"
begin

text \<open>
  What every theory of the development shares: the machine integers of Rust, the arithmetic
  operators with their overflow checks, little-endian byte strings, and generic lemmas on
  option-valued computations and on maps.

  A Rust computation that may panic is a value of type \<open>'a option\<close>: \<open>None\<close> is the panic
  of the thread, \<open>Some x\<close> is a normal return. The \<open>do\<close> notation of
  \<open>HOL-Library.Monad_Syntax\<close> sequences such computations.

  Rust's integer operators behave differently in the two build profiles of the repository (the
  tests run in the \<open>dev\<close> profile, the README runs the binaries with \<open>--release\<close>): with
  overflow checks an overflowing operator panics, without them it wraps around, and a shift by at
  least the width uses the shift amount modulo the width. The profile is an argument of every
  operation of the model that uses such an operator.
\<close>

unbundle bit_operations_syntax

section \<open>Machine integers and build profiles\<close>

type_synonym u8 = "8 word"
type_synonym u16 = "16 word"
type_synonym u32 = "32 word"
type_synonym u64 = "64 word"
type_synonym u128 = "128 word"
type_synonym i32 = "32 word"
type_synonym i64 = "64 word"
type_synonym usize = "64 word"
type_synonym bytes = "u8 list"

text \<open>
  \<open>i32\<close> and \<open>i64\<close> are read with \<open>sint\<close>. \<open>usize\<close> has 64 bits, as on every platform
  the program is built for.
\<close>

datatype profile = Debug | Release

named_theorems checked_simps \<open>the checked integer operators on arguments that do not overflow\<close>
named_theorems rust_defs \<open>definitions of the small operators, for evaluation\<close>

definition checked :: "profile \<Rightarrow> bool \<Rightarrow> 'a \<Rightarrow> 'a option" where
  "checked p overflow v = (if overflow \<and> p = Debug then None else Some v)"

definition add_u :: "profile \<Rightarrow> 'a::len word \<Rightarrow> 'a word \<Rightarrow> 'a word option" where
  "add_u p a b = checked p (2 ^ LENGTH('a) \<le> unat a + unat b) (a + b)"

definition sub_u :: "profile \<Rightarrow> 'a::len word \<Rightarrow> 'a word \<Rightarrow> 'a word option" where
  "sub_u p a b = checked p (unat a < unat b) (a - b)"

definition in_range_s :: "'a::len word itself \<Rightarrow> int \<Rightarrow> bool" where
  "in_range_s T i \<longleftrightarrow> - (2 ^ (LENGTH('a) - 1)) \<le> i \<and> i < 2 ^ (LENGTH('a) - 1)"

definition add_s :: "profile \<Rightarrow> 'a::len word \<Rightarrow> 'a word \<Rightarrow> 'a word option" where
  "add_s p a b = checked p (\<not> in_range_s TYPE('a word) (sint a + sint b)) (a + b)"

definition sub_s :: "profile \<Rightarrow> 'a::len word \<Rightarrow> 'a word \<Rightarrow> 'a word option" where
  "sub_s p a b = checked p (\<not> in_range_s TYPE('a word) (sint a - sint b)) (a - b)"

definition shl_u :: "profile \<Rightarrow> 'a::len word \<Rightarrow> nat \<Rightarrow> 'a word option" where
  "shl_u p a n = checked p (LENGTH('a) \<le> n) (push_bit (n mod LENGTH('a)) a)"

definition shr_u :: "profile \<Rightarrow> 'a::len word \<Rightarrow> nat \<Rightarrow> 'a word option" where
  "shr_u p a n = checked p (LENGTH('a) \<le> n) (drop_bit (n mod LENGTH('a)) a)"

lemmas checked_ops_def [rust_defs] =
  checked_def add_u_def sub_u_def in_range_s_def add_s_def sub_s_def shl_u_def shr_u_def

lemma checked_Release [simp]: "checked Release ovf v = Some v"
  by (simp add: checked_def)

lemma checked_eq_Some [simp]: "checked p ovf v = Some w \<longleftrightarrow> w = v \<and> \<not> (ovf \<and> p = Debug)"
  by (auto simp: checked_def)

lemma ops_Release [simp]:
  "add_u Release a b = Some (a + b)"
  "sub_u Release a b = Some (a - b)"
  "add_s Release a b = Some (a + b)"
  "sub_s Release a b = Some (a - b)"
  "shl_u Release (a :: 'a::len word) n = Some (push_bit (n mod LENGTH('a)) a)"
  "shr_u Release (a :: 'a::len word) n = Some (drop_bit (n mod LENGTH('a)) a)"
  by (simp_all add: checked_ops_def)

lemma add_u_ok [checked_simps]:
  "unat a + unat b < 2 ^ LENGTH('a) \<Longrightarrow> add_u p (a :: 'a::len word) b = Some (a + b)"
  by (simp add: add_u_def checked_def)

lemma sub_u_ok [checked_simps]: "unat b \<le> unat a \<Longrightarrow> sub_u p a b = Some (a - b)"
  by (simp add: sub_u_def checked_def)

lemma shl_u_ok [checked_simps]:
  "n < LENGTH('a) \<Longrightarrow> shl_u p (a :: 'a::len word) n = Some (push_bit n a)"
  by (simp add: shl_u_def checked_def)

lemma shr_u_ok [checked_simps]:
  "n < LENGTH('a) \<Longrightarrow> shr_u p (a :: 'a::len word) n = Some (drop_bit n a)"
  by (simp add: shr_u_def checked_def)

lemma add_u_SomeD: "add_u p a b = Some c \<Longrightarrow> c = a + b"
  by (simp add: add_u_def)

lemma sub_u_SomeD: "sub_u p a b = Some c \<Longrightarrow> c = a - b"
  by (simp add: sub_u_def)

lemma add_s_SomeD: "add_s p a b = Some c \<Longrightarrow> c = a + b"
  by (simp add: add_s_def)

section \<open>Words\<close>

lemma unat_add_no_wrap:
  "unat a + unat b < 2 ^ LENGTH('a) \<Longrightarrow> unat (a + b :: 'a::len word) = unat a + unat b"
  by (simp add: unat_word_ariths)

lemma unat_Suc_below: "t < limit \<Longrightarrow> unat (t + 1 :: 'a::len word) = unat t + 1"
proof -
  assume "t < limit"
  moreover have "unat limit < 2 ^ LENGTH('a)" by (rule unsigned_less)
  ultimately have "unat t + 1 < 2 ^ LENGTH('a)" unfolding word_less_nat_alt by linarith
  then show ?thesis by (simp add: unat_word_ariths)
qed

lemma unat_diff_le: "b \<le> a \<Longrightarrow> unat (a - b :: 'a::len word) = unat a - unat b"
  by (rule unat_sub)

text \<open>Wrapping subtraction of the images of two numbers that are less than a period apart.\<close>

lemma unat_of_nat_diff:
  assumes "m \<le> n" and "n - m < 2 ^ LENGTH('a)"
  shows "unat (of_nat n - of_nat m :: 'a::len word) = n - m"
proof -
  have "(of_nat n - of_nat m :: 'a word) = of_nat (n - m)"
    using assms(1) by (simp add: of_nat_diff)
  with assms(2) show ?thesis by (simp add: unat_of_nat take_bit_nat_eq_self_iff)
qed

lemma unat_exp: "k < LENGTH('a) \<Longrightarrow> unat (2 ^ k :: 'a::len word) = 2 ^ k"
proof -
  assume "k < LENGTH('a)"
  then have "(2 :: nat) ^ k < 2 ^ LENGTH('a)" by simp
  moreover have "(2 ^ k :: 'a word) = of_nat (2 ^ k)" by simp
  ultimately show ?thesis by (simp only: unat_of_nat) (simp add: take_bit_nat_eq_self)
qed

lemma unat_diff_if:
  "unat (a - b :: 'a::len word) =
    (if b \<le> a then unat a - unat b else 2 ^ LENGTH('a) + unat a - unat b)"
  by (auto simp: unat_sub_if' word_le_nat_alt)

lemma nat_diff_swap:
  "(x :: nat) < M \<Longrightarrow> y < M \<Longrightarrow> x \<noteq> y \<Longrightarrow>
    (if y \<le> x then x - y else M + x - y) = M - (if x \<le> y then y - x else M + y - x)"
  by auto

lemma unat_diff_swap:
  assumes "a \<noteq> b"
  shows "unat (a - b :: 'a::len word) = 2 ^ LENGTH('a) - unat (b - a)"
proof -
  have "unat a \<noteq> unat b" using assms unsigned_word_eqI [of a b] by blast
  then show ?thesis
    unfolding unat_diff_if word_le_nat_alt
    by (rule nat_diff_swap [OF unsigned_less unsigned_less])
qed

text \<open>Testing one bit, as the code does it.\<close>

lemma and_exp_eq_0: "(w :: 'a::len word) AND 2 ^ k = 0 \<longleftrightarrow> \<not> bit w k"
proof
  assume "w AND 2 ^ k = 0"
  then have "\<not> bit (w AND push_bit k 1) k" by simp
  then show "\<not> bit w k" by (auto simp: bit_simps dest: bit_imp_le_length simp del: push_bit_of_1)
next
  assume "\<not> bit w k"
  then have "w AND push_bit k 1 = 0"
    by (intro bit_word_eqI) (auto simp: bit_simps simp del: push_bit_of_1)
  then show "w AND 2 ^ k = 0" by simp
qed

lemma drop_bit_and_1: "drop_bit k (w :: 'a::len word) AND 1 = 1 \<longleftrightarrow> bit w k"
  by (simp add: and_one_eq bit_iff_odd_drop_bit mod_2_eq_odd)

section \<open>Little-endian byte strings\<close>

text \<open>
  \<open>to_le_bytes\<close> and \<open>from_le_bytes\<close> of the unsigned integer types; the signed types have
  the same bytes.
\<close>

fun to_le_bytes :: "nat \<Rightarrow> 'a::len word \<Rightarrow> bytes" where
  "to_le_bytes 0 w = []"
| "to_le_bytes (Suc n) w = ucast w # to_le_bytes n (drop_bit 8 w)"

fun from_le_bytes :: "bytes \<Rightarrow> 'a::len word" where
  "from_le_bytes [] = 0"
| "from_le_bytes (b # bs) = ucast b OR push_bit 8 (from_le_bytes bs)"

lemma length_to_le_bytes [simp]: "length (to_le_bytes n w) = n"
  by (induction n arbitrary: w) auto

lemma from_to_le_bytes_take:
  "from_le_bytes (to_le_bytes n (w :: 'a::len word)) = take_bit (8 * n) w"
proof (induction n arbitrary: w)
  case 0
  show ?case by simp
next
  case (Suc n)
  have "(ucast (ucast w :: u8) :: 'a word) OR push_bit 8 (take_bit (8 * n) (drop_bit 8 w))
      = take_bit (8 * Suc n) w"
    by (rule bit_word_eqI) (auto simp: bit_simps)
  with Suc.IH [of "drop_bit 8 w"] show ?case by simp
qed

lemma from_to_le_bytes [simp]:
  assumes "LENGTH('a) \<le> 8 * n"
  shows "from_le_bytes (to_le_bytes n (w :: 'a::len word)) = w"
proof -
  have "take_bit (8 * n) w = w"
    using assms by (simp add: take_bit_word_eq_self)
  then show ?thesis by (simp only: from_to_le_bytes_take)
qed

lemma to_from_le_bytes [simp]:
  "8 * length bs \<le> LENGTH('a) \<Longrightarrow>
    to_le_bytes (length bs) (from_le_bytes bs :: 'a::len word) = bs"
proof (induction bs)
  case Nil
  show ?case by simp
next
  case (Cons b bs)
  let ?r = "from_le_bytes bs :: 'a word"
  have lo: "(ucast (ucast b OR push_bit 8 ?r) :: u8) = b"
    using Cons.prems by (intro bit_word_eqI) (auto simp: bit_simps)
  have r: "?r = take_bit (8 * length bs) ?r"
    using Cons from_to_le_bytes_take [of "length bs" ?r] by simp
  have "drop_bit 8 (ucast b OR push_bit 8 ?r) = take_bit (LENGTH('a) - 8) ?r"
    by (rule bit_word_eqI) (auto simp: bit_simps dest: bit_imp_le_length)
  also have "\<dots> = take_bit (LENGTH('a) - 8) (take_bit (8 * length bs) ?r)"
    by (subst r) (rule refl)
  also have "\<dots> = take_bit (8 * length bs) ?r"
  proof -
    have "min (LENGTH('a) - 8) (8 * length bs) = 8 * length bs"
      using Cons.prems by (intro min.absorb2) auto
    then show ?thesis by simp
  qed
  also have "\<dots> = ?r"
    by (rule r [symmetric])
  finally have hi: "drop_bit 8 (ucast b OR push_bit 8 ?r) = ?r" .
  show ?case
    using Cons lo hi by simp
qed

lemma to_from_le_bytes_length:
  "length bs = n \<Longrightarrow> 8 * n \<le> LENGTH('a) \<Longrightarrow>
    to_le_bytes n (from_le_bytes bs :: 'a::len word) = bs"
  using to_from_le_bytes by blast

lemma to_le_bytes_inject:
  "LENGTH('a) \<le> 8 * n \<Longrightarrow> to_le_bytes n (v :: 'a::len word) = to_le_bytes n w \<longleftrightarrow> v = w"
  by (metis from_to_le_bytes)

section \<open>Lists and slices\<close>

lemma take_append_length [simp]: "length xs = n \<Longrightarrow> take n (xs @ ys) = xs"
  by simp

lemma drop_append_length [simp]: "length xs = n \<Longrightarrow> drop n (xs @ ys) = ys"
  by simp

lemma find_append:
  "find P (xs @ ys) = (case find P xs of None \<Rightarrow> find P ys | Some x \<Rightarrow> Some x)"
  by (induction xs) auto

lemma find_member:
  "x \<in> set xs \<Longrightarrow> P x \<Longrightarrow> \<exists>y \<in> set xs. P y \<and> find P xs = Some y"
  by (induction xs) auto

lemma take_append_take_drop: "take m xs @ take n (drop m xs) = take (m + n) xs"
  by (simp add: take_add)

text \<open>\<open>&data[a..b]\<close>: the slice, or the panic of an index out of range.\<close>

definition slice :: "nat \<Rightarrow> nat \<Rightarrow> 'a list \<Rightarrow> 'a list option" where
  "slice a b xs = (if a \<le> b \<and> b \<le> length xs then Some (take (b - a) (drop a xs)) else None)"

lemma slice_eq_None: "slice a b xs = None \<longleftrightarrow> b < a \<or> length xs < b"
  by (auto simp: slice_def)

lemma slice_length: "slice a b xs = Some ys \<Longrightarrow> length ys = b - a"
  by (auto simp: slice_def split: if_splits)

section \<open>Maps\<close>

text \<open>
  A \<open>HashMap\<close> or \<open>BTreeMap\<close> is a map \<open>'k \<rightharpoonup> 'v\<close>. \<open>retain\<close> keeps the entries
  that satisfy a predicate. A \<open>HashMap\<close> is iterated in an order that the program does not
  determine, so an operation that iterates one takes the order as an argument.
\<close>

definition map_retain :: "('k \<Rightarrow> 'v \<Rightarrow> bool) \<Rightarrow> ('k \<rightharpoonup> 'v) \<Rightarrow> ('k \<rightharpoonup> 'v)" where
  "map_retain P m = (\<lambda>k. case m k of None \<Rightarrow> None | Some v \<Rightarrow> if P k v then Some v else None)"

definition iter_order :: "'k list \<Rightarrow> ('k \<rightharpoonup> 'v) \<Rightarrow> bool" where
  "iter_order ks m \<longleftrightarrow> distinct ks \<and> set ks = dom m"

lemma map_retain_apply [simp]:
  "map_retain P m k = Some v \<longleftrightarrow> m k = Some v \<and> P k v"
  by (auto simp: map_retain_def split: option.splits)

lemma map_retain_None: "map_retain P m k = None \<longleftrightarrow> (\<forall>v. m k = Some v \<longrightarrow> \<not> P k v)"
  by (auto simp: map_retain_def split: option.splits)

lemma map_retain_subset: "dom (map_retain P m) \<subseteq> dom m"
  by (auto simp: map_retain_def split: option.splits)

lemma iter_order_distinct: "iter_order ks m \<Longrightarrow> distinct ks"
  and iter_order_set: "iter_order ks m \<Longrightarrow> set ks = dom m"
  by (simp_all add: iter_order_def)

section \<open>Loops that may panic\<close>

text \<open>A \<open>for\<close> loop over a list with a state; a panic of the body ends it.\<close>

fun for_each :: "('x \<Rightarrow> 's \<Rightarrow> 's option) \<Rightarrow> 'x list \<Rightarrow> 's \<Rightarrow> 's option" where
  "for_each f [] s = Some s"
| "for_each f (x # xs) s = (case f x s of None \<Rightarrow> None | Some s' \<Rightarrow> for_each f xs s')"

lemma for_each_append:
  "for_each f (xs @ ys) s = (case for_each f xs s of None \<Rightarrow> None | Some s' \<Rightarrow> for_each f ys s')"
  by (induction xs arbitrary: s) (auto split: option.splits)

lemma for_each_invariant:
  assumes "\<And>x s s'. x \<in> set xs \<Longrightarrow> P s \<Longrightarrow> f x s = Some s' \<Longrightarrow> P s'"
    and "P s" and "for_each f xs s = Some s'"
  shows "P s'"
  using assms
proof (induction xs arbitrary: s)
  case Nil
  then show ?case by simp
next
  case (Cons x xs)
  from Cons.prems(3) obtain t where t: "f x s = Some t" and rest: "for_each f xs t = Some s'"
    by (auto split: option.splits)
  have "P t" using Cons.prems(1) [OF _ Cons.prems(2) t] by simp
  show ?case
    by (rule Cons.IH [OF _ \<open>P t\<close> rest]) (use Cons.prems(1) in auto)
qed

lemma for_each_total:
  assumes "\<And>x s. x \<in> set xs \<Longrightarrow> P s \<Longrightarrow> \<exists>s'. f x s = Some s' \<and> P s'" and "P s"
  shows "\<exists>s'. for_each f xs s = Some s' \<and> P s'"
  using assms
proof (induction xs arbitrary: s)
  case Nil
  then show ?case by simp
next
  case (Cons x xs)
  obtain t where t: "f x s = Some t" "P t"
    using Cons.prems(1) [OF _ Cons.prems(2), of x] by auto
  have "\<exists>s'. for_each f xs t = Some s' \<and> P s'"
    by (rule Cons.IH [OF _ t(2)]) (use Cons.prems(1) in auto)
  with t show ?case by simp
qed

lemma bind_Some_conv:
  "Option.bind x f = Some y \<longleftrightarrow> (\<exists>a. x = Some a \<and> f a = Some y)"
  by (cases x) auto

end
