(* ===== verification/Packet.thy ===== *)
theory Packet
  imports Rust_Prelude
begin

text \<open>
  The wire format: \<open>crates/protocol/src/packet.rs\<close>. Every header is a \<open>repr(C, packed)\<close>
  struct, so its bytes are its fields in declaration order without padding, each in the byte
  order of the host; both peers of the program are little-endian machines, and the code that
  writes bytes by hand uses \<open>to_le_bytes\<close>. The derived \<open>zerocopy\<close> operations used by the
  program are \<open>as_bytes\<close>, the bytes of a header, and \<open>read_from_prefix\<close>, which
  returns \<open>None\<close> exactly when there are fewer bytes than the header has, and ignores the bytes
  behind it.

  The locale \<open>wire_format\<close> is this contract; it is interpreted for each header.
\<close>

section \<open>Packet types and headers\<close>

datatype packet_type = Reliable | Disconnect | Snapshot | Input

fun packet_type_code :: "packet_type \<Rightarrow> u8" where
  "packet_type_code Reliable = 1"
| "packet_type_code Disconnect = 2"
| "packet_type_code Snapshot = 3"
| "packet_type_code Input = 4"

text \<open>The fields carry a prefix of their struct, because record fields are global names.\<close>

record snapshot_header =
  sh_tick :: u64
  sh_state_hash :: u64
  sh_last_input_tick :: u64

record input_packet =
  ip_tick :: u64
  ip_input_bitmask :: u32

record general_packet_header =
  gh_packet_type :: u8

record reliability_packet_header =
  rh_sequence :: u16
  rh_ack :: u16
  rh_ack_bitfield :: u32

record disconnect_packet =
  dp_header :: general_packet_header
  dp_reason_code :: u32

record data_packet_header =
  dh_uncompressed_size :: u32

record handshake_packet =
  hp_session_key :: bytes

text \<open>\<open>std::mem::size_of\<close> of the packed structs.\<close>

definition snapshot_header_size :: nat where "snapshot_header_size = 24"

definition input_packet_size :: nat where "input_packet_size = 12"

definition general_packet_header_size :: nat where "general_packet_header_size = 1"

definition reliability_packet_header_size :: nat where "reliability_packet_header_size = 8"

definition disconnect_packet_size :: nat where "disconnect_packet_size = 5"

definition data_packet_header_size :: nat where "data_packet_header_size = 4"

definition handshake_packet_size :: nat where "handshake_packet_size = 32"

lemmas size_defs [simp] =
  snapshot_header_size_def input_packet_size_def general_packet_header_size_def
  reliability_packet_header_size_def disconnect_packet_size_def data_packet_header_size_def
  handshake_packet_size_def

section \<open>Serialisation\<close>

definition snapshot_header_as_bytes :: "snapshot_header \<Rightarrow> bytes" where
  "snapshot_header_as_bytes h =
     to_le_bytes 8 (sh_tick h) @ to_le_bytes 8 (sh_state_hash h) @
     to_le_bytes 8 (sh_last_input_tick h)"

definition snapshot_header_read :: "bytes \<Rightarrow> snapshot_header option" where
  "snapshot_header_read bs =
     (if length bs < snapshot_header_size then None
      else Some \<lparr>sh_tick = from_le_bytes (take 8 bs),
                 sh_state_hash = from_le_bytes (take 8 (drop 8 bs)),
                 sh_last_input_tick = from_le_bytes (take 8 (drop 16 bs))\<rparr>)"

definition input_packet_as_bytes :: "input_packet \<Rightarrow> bytes" where
  "input_packet_as_bytes h = to_le_bytes 8 (ip_tick h) @ to_le_bytes 4 (ip_input_bitmask h)"

definition input_packet_read :: "bytes \<Rightarrow> input_packet option" where
  "input_packet_read bs =
     (if length bs < input_packet_size then None
      else Some \<lparr>ip_tick = from_le_bytes (take 8 bs),
                 ip_input_bitmask = from_le_bytes (take 4 (drop 8 bs))\<rparr>)"

definition general_packet_header_as_bytes :: "general_packet_header \<Rightarrow> bytes" where
  "general_packet_header_as_bytes h = [gh_packet_type h]"

definition general_packet_header_read :: "bytes \<Rightarrow> general_packet_header option" where
  "general_packet_header_read bs =
     (case bs of [] \<Rightarrow> None | b # _ \<Rightarrow> Some \<lparr>gh_packet_type = b\<rparr>)"

definition reliability_packet_header_as_bytes :: "reliability_packet_header \<Rightarrow> bytes" where
  "reliability_packet_header_as_bytes h =
     to_le_bytes 2 (rh_sequence h) @ to_le_bytes 2 (rh_ack h) @ to_le_bytes 4 (rh_ack_bitfield h)"

definition reliability_packet_header_read :: "bytes \<Rightarrow> reliability_packet_header option" where
  "reliability_packet_header_read bs =
     (if length bs < reliability_packet_header_size then None
      else Some \<lparr>rh_sequence = from_le_bytes (take 2 bs),
                 rh_ack = from_le_bytes (take 2 (drop 2 bs)),
                 rh_ack_bitfield = from_le_bytes (take 4 (drop 4 bs))\<rparr>)"

definition disconnect_packet_as_bytes :: "disconnect_packet \<Rightarrow> bytes" where
  "disconnect_packet_as_bytes h =
     general_packet_header_as_bytes (dp_header h) @ to_le_bytes 4 (dp_reason_code h)"

definition disconnect_packet_read :: "bytes \<Rightarrow> disconnect_packet option" where
  "disconnect_packet_read bs =
     (if length bs < disconnect_packet_size then None
      else case general_packet_header_read bs of
             None \<Rightarrow> None
           | Some g \<Rightarrow> Some \<lparr>dp_header = g, dp_reason_code = from_le_bytes (take 4 (drop 1 bs))\<rparr>)"

definition data_packet_header_as_bytes :: "data_packet_header \<Rightarrow> bytes" where
  "data_packet_header_as_bytes h = to_le_bytes 4 (dh_uncompressed_size h)"

definition data_packet_header_read :: "bytes \<Rightarrow> data_packet_header option" where
  "data_packet_header_read bs =
     (if length bs < data_packet_header_size then None
      else Some \<lparr>dh_uncompressed_size = from_le_bytes (take 4 bs)\<rparr>)"

definition handshake_packet_as_bytes :: "handshake_packet \<Rightarrow> bytes" where
  "handshake_packet_as_bytes h = hp_session_key h"

definition handshake_packet_read :: "bytes \<Rightarrow> handshake_packet option" where
  "handshake_packet_read bs =
     (if length bs < handshake_packet_size then None
      else Some \<lparr>hp_session_key = take 32 bs\<rparr>)"

text \<open>The type \<open>[u8; 32]\<close> of the session key fixes its length.\<close>

definition handshake_packet_valid :: "handshake_packet \<Rightarrow> bool" where
  "handshake_packet_valid h \<longleftrightarrow> length (hp_session_key h) = 32"

section \<open>The contract of a fixed-size header\<close>

locale wire_format =
  fixes hsize :: nat
    and as_bytes :: "'h \<Rightarrow> bytes"
    and read_from_prefix :: "bytes \<Rightarrow> 'h option"
    and valid :: "'h \<Rightarrow> bool"
  assumes length_as_bytes: "valid h \<Longrightarrow> length (as_bytes h) = hsize"
    and read_None_iff: "read_from_prefix bs = None \<longleftrightarrow> length bs < hsize"
    and read_as_bytes: "valid h \<Longrightarrow> read_from_prefix (as_bytes h @ rest) = Some h"
    and as_bytes_read: "read_from_prefix bs = Some h \<Longrightarrow> as_bytes h = take hsize bs"
    and read_valid: "read_from_prefix bs = Some h \<Longrightarrow> valid h"
begin

lemma read_total: "hsize \<le> length bs \<Longrightarrow> \<exists>h. read_from_prefix bs = Some h"
  using read_None_iff [of bs] by (cases "read_from_prefix bs") auto

lemma read_size: "read_from_prefix bs = Some h \<Longrightarrow> hsize \<le> length bs"
  using read_None_iff [of bs] by (cases "length bs < hsize") auto

lemma read_exact: "valid h \<Longrightarrow> read_from_prefix (as_bytes h) = Some h"
  using read_as_bytes [of h "[]"] by simp

lemma read_iff:
  "read_from_prefix bs = Some h \<longleftrightarrow> valid h \<and> (\<exists>rest. bs = as_bytes h @ rest)"
proof
  assume r: "read_from_prefix bs = Some h"
  then have "bs = as_bytes h @ drop hsize bs"
    using as_bytes_read [OF r] by simp
  with r show "valid h \<and> (\<exists>rest. bs = as_bytes h @ rest)"
    using read_valid by blast
next
  assume "valid h \<and> (\<exists>rest. bs = as_bytes h @ rest)"
  then show "read_from_prefix bs = Some h"
    using read_as_bytes by blast
qed

lemma as_bytes_inject: "valid g \<Longrightarrow> valid h \<Longrightarrow> as_bytes g = as_bytes h \<longleftrightarrow> g = h"
  by (metis read_exact option.inject)

lemma read_mono: "read_from_prefix bs = Some h \<Longrightarrow> read_from_prefix (bs @ rest) = Some h"
  by (auto simp: read_iff)

lemma read_take: "hsize \<le> n \<Longrightarrow> read_from_prefix (take n bs) = read_from_prefix bs"
proof (cases "read_from_prefix (take n bs)")
  case None
  moreover assume "hsize \<le> n"
  ultimately show ?thesis
    using read_None_iff [of "take n bs"] read_None_iff [of bs] by auto
next
  case (Some h)
  then have "read_from_prefix (take n bs @ drop n bs) = Some h"
    by (rule read_mono)
  with Some show ?thesis by simp
qed

lemma read_agree: "take hsize bs = take hsize cs \<Longrightarrow> read_from_prefix bs = read_from_prefix cs"
  using read_take [of hsize bs] read_take [of hsize cs] by simp

end

text \<open>The fields of a struct, read one after the other, are the prefix of the input.\<close>

lemma fields_8_8_8:
  "24 \<le> length bs \<Longrightarrow>
    to_le_bytes 8 (from_le_bytes (take 8 bs) :: u64) @
    to_le_bytes 8 (from_le_bytes (take 8 (drop 8 bs)) :: u64) @
    to_le_bytes 8 (from_le_bytes (take 8 (drop 16 bs)) :: u64) = take 24 bs"
  using take_append_take_drop [of 8 bs 8] take_append_take_drop [of 16 bs 8]
  by (simp add: to_from_le_bytes_length flip: append_assoc)

lemma fields_8_4:
  "12 \<le> length bs \<Longrightarrow>
    to_le_bytes 8 (from_le_bytes (take 8 bs) :: u64) @
    to_le_bytes 4 (from_le_bytes (take 4 (drop 8 bs)) :: u32) = take 12 bs"
  using take_append_take_drop [of 8 bs 4] by (simp add: to_from_le_bytes_length)

lemma fields_2_2_4:
  "8 \<le> length bs \<Longrightarrow>
    to_le_bytes 2 (from_le_bytes (take 2 bs) :: u16) @
    to_le_bytes 2 (from_le_bytes (take 2 (drop 2 bs)) :: u16) @
    to_le_bytes 4 (from_le_bytes (take 4 (drop 4 bs)) :: u32) = take 8 bs"
  using take_append_take_drop [of 2 bs 2] take_append_take_drop [of 4 bs 4]
  by (simp add: to_from_le_bytes_length flip: append_assoc)

interpretation snapshot_wire: wire_format snapshot_header_size snapshot_header_as_bytes
  snapshot_header_read "\<lambda>_. True"
  by unfold_locales
    (auto simp: snapshot_header_as_bytes_def snapshot_header_read_def fields_8_8_8
      split: if_splits)

interpretation input_wire: wire_format input_packet_size input_packet_as_bytes
  input_packet_read "\<lambda>_. True"
  by unfold_locales
    (auto simp: input_packet_as_bytes_def input_packet_read_def fields_8_4 split: if_splits)

interpretation general_wire: wire_format general_packet_header_size
  general_packet_header_as_bytes general_packet_header_read "\<lambda>_. True"
  by unfold_locales
    (auto simp: general_packet_header_as_bytes_def general_packet_header_read_def
      split: list.splits)

interpretation reliability_wire: wire_format reliability_packet_header_size
  reliability_packet_header_as_bytes reliability_packet_header_read "\<lambda>_. True"
  by unfold_locales
    (auto simp: reliability_packet_header_as_bytes_def reliability_packet_header_read_def
      fields_2_2_4 split: if_splits)

interpretation disconnect_wire: wire_format disconnect_packet_size disconnect_packet_as_bytes
  disconnect_packet_read "\<lambda>_. True"
  by unfold_locales
    (auto simp: disconnect_packet_as_bytes_def disconnect_packet_read_def
      general_packet_header_as_bytes_def general_packet_header_read_def to_from_le_bytes_length
      split: if_splits list.splits)

interpretation data_wire: wire_format data_packet_header_size data_packet_header_as_bytes
  data_packet_header_read "\<lambda>_. True"
  by unfold_locales
    (auto simp: data_packet_header_as_bytes_def data_packet_header_read_def
      to_from_le_bytes_length split: if_splits)

interpretation handshake_wire: wire_format handshake_packet_size handshake_packet_as_bytes
  handshake_packet_read handshake_packet_valid
  by unfold_locales
    (auto simp: handshake_packet_as_bytes_def handshake_packet_read_def
      handshake_packet_valid_def split: if_splits)

section \<open>Properties\<close>

text \<open>
  C33: each of the seven headers read back from its own bytes, whatever follows them, is the header, and
  reading any of them fails exactly when there are fewer bytes than the header has.
\<close>

theorem headers_roundtrip:
  assumes "length (hp_session_key hp) = 32"
  shows "snapshot_header_read (snapshot_header_as_bytes sh @ rest) = Some sh \<and>
   input_packet_read (input_packet_as_bytes inp @ rest) = Some inp \<and>
   general_packet_header_read (general_packet_header_as_bytes gh @ rest) = Some gh \<and>
   reliability_packet_header_read (reliability_packet_header_as_bytes rh @ rest) = Some rh \<and>
   disconnect_packet_read (disconnect_packet_as_bytes dp @ rest) = Some dp \<and>
   data_packet_header_read (data_packet_header_as_bytes dh @ rest) = Some dh \<and>
   handshake_packet_read (handshake_packet_as_bytes hp @ rest) = Some hp \<and>
   (snapshot_header_read bs = None \<longleftrightarrow> length bs < 24) \<and>
   (input_packet_read bs = None \<longleftrightarrow> length bs < 12) \<and>
   (general_packet_header_read bs = None \<longleftrightarrow> length bs < 1) \<and>
   (reliability_packet_header_read bs = None \<longleftrightarrow> length bs < 8) \<and>
   (disconnect_packet_read bs = None \<longleftrightarrow> length bs < 5) \<and>
   (data_packet_header_read bs = None \<longleftrightarrow> length bs < 4) \<and>
   (handshake_packet_read bs = None \<longleftrightarrow> length bs < 32)"
  using assms
  by (intro conjI snapshot_wire.read_as_bytes input_wire.read_as_bytes general_wire.read_as_bytes
      reliability_wire.read_as_bytes disconnect_wire.read_as_bytes data_wire.read_as_bytes
      handshake_wire.read_as_bytes
      snapshot_wire.read_None_iff [unfolded size_defs] input_wire.read_None_iff [unfolded size_defs]
      general_wire.read_None_iff [unfolded size_defs] reliability_wire.read_None_iff [unfolded size_defs]
      disconnect_wire.read_None_iff [unfolded size_defs] data_wire.read_None_iff [unfolded size_defs]
      handshake_wire.read_None_iff [unfolded size_defs])
    (simp_all add: handshake_packet_valid_def)

theorem headers_roundtrip_witness:
  "handshake_packet_read (replicate 32 7 @ [1, 2]) = Some \<lparr>hp_session_key = replicate 32 7\<rparr> \<and>
    handshake_packet_read (replicate 31 7) = None \<and>
    input_packet_read (input_packet_as_bytes \<lparr>ip_tick = 9, ip_input_bitmask = 1\<rparr> @ [1, 2]) =
      Some \<lparr>ip_tick = 9, ip_input_bitmask = 1\<rparr> \<and>
    input_packet_read (replicate 11 0) = None \<and> data_packet_header_read [0, 0, 0] = None"
  using headers_roundtrip [of "\<lparr>hp_session_key = replicate 32 7\<rparr>" _ "[1, 2]"
      "\<lparr>ip_tick = 9, ip_input_bitmask = 1\<rparr>" _ _ _ _ "replicate 31 7"]
    headers_roundtrip [of "\<lparr>hp_session_key = replicate 32 7\<rparr>" _ _ _ _ _ _ _ "replicate 11 0"]
    headers_roundtrip [of "\<lparr>hp_session_key = replicate 32 7\<rparr>" _ _ _ _ _ _ _ "[0, 0, 0]"]
  by (simp add: handshake_packet_as_bytes_def)

end
