(* ===== verification/Float32.thy ===== *)
theory Float32
  imports Rust_Prelude
begin

text \<open>
  Rust's \<open>f32\<close>: IEEE 754 binary32 with rounding to nearest, ties to even, gradual underflow
  and infinities. A finite value is kept as the rational number it denotes, and each arithmetic
  operation rounds the exact result. The two zeros are one value: no operation of the program
  tells them apart (it never divides by a zero, and the only \<open>to_bits\<close> is of sums of positive
  numbers). The lemmas of the first two sections are what the round-trip estimator needs: rounding
  is monotone, keeps the representable numbers and at most doubles a number.
\<close>

section \<open>Rounding a rational number\<close>

text \<open>Rounding to the nearest integer, ties to even.\<close>

definition rne :: "rat \<Rightarrow> int" where
  "rne x = (let f = \<lfloor>x\<rfloor>; d = x - of_int f in
     if d < 1 / 2 then f else if 1 / 2 < d then f + 1 else if even f then f else f + 1)"

text \<open>
  A number \<open>s \<ge> 0\<close>, in units of the smallest positive value \<open>2 ^ -149\<close>, is rounded to a
  multiple of \<open>2 ^ k\<close>, with the least \<open>k\<close> for which the quotient fits in 24 bits.
\<close>

function bit_length :: "int \<Rightarrow> nat" where
  "bit_length i = (if i \<le> 0 then 0 else Suc (bit_length (i div 2)))"
  by pat_completeness auto
termination
  by (relation "measure nat") auto

definition ulp_exp :: "rat \<Rightarrow> nat" where
  "ulp_exp s = bit_length \<lfloor>s\<rfloor> - 24"

definition round_units :: "rat \<Rightarrow> rat" where
  "round_units s = (let k = ulp_exp s in of_int (rne (s / 2 ^ k)) * 2 ^ k)"

definition units :: rat where "units = 2 ^ 149"

definition rnd :: "rat \<Rightarrow> rat" where
  "rnd q = sgn q * (round_units (\<bar>q\<bar> * units) / units)"

lemma units_pos [simp]: "0 < units" "units \<noteq> 0" "0 \<le> units" "\<not> units \<le> 0"
  by (simp_all add: units_def)

declare bit_length.simps [simp del]

lemma bit_length_upper: "i < 2 ^ bit_length i"
proof (induction i rule: bit_length.induct)
  case (1 i)
  show ?case
  proof (cases "i \<le> 0")
    case True
    then show ?thesis by (simp add: bit_length.simps [of i])
  next
    case False
    with 1 have "i div 2 < 2 ^ bit_length (i div 2)" by simp
    then have "i < 2 * 2 ^ bit_length (i div 2)" by linarith
    with False show ?thesis by (simp add: bit_length.simps [of i])
  qed
qed

lemma bit_length_lower: "0 < i \<Longrightarrow> 2 ^ (bit_length i - 1) \<le> i"
proof (induction i rule: bit_length.induct)
  case (1 i)
  show ?case
  proof (cases "i = 1")
    case True
    then show ?thesis by (simp add: bit_length.simps)
  next
    case False
    with 1 have "2 ^ (bit_length (i div 2) - 1) \<le> i div 2" by simp
    moreover have "0 < bit_length (i div 2)"
      using False \<open>0 < i\<close> by (simp add: bit_length.simps [of "i div 2"])
    then have "(2 :: int) ^ bit_length (i div 2) = 2 * 2 ^ (bit_length (i div 2) - 1)"
      by (cases "bit_length (i div 2)") auto
    ultimately show ?thesis
      using \<open>0 < i\<close> by (simp add: bit_length.simps [of i])
  qed
qed

lemma bit_length_mono: "i \<le> j \<Longrightarrow> bit_length i \<le> bit_length j"
proof (induction i arbitrary: j rule: bit_length.induct)
  case (1 i)
  then have "i div 2 \<le> j div 2" by (intro zdiv_mono1) auto
  with 1 show ?case
    by (simp add: bit_length.simps [of i] bit_length.simps [of j])
qed

lemma rne_of_int [simp]: "rne (of_int i) = i"
  by (simp add: rne_def)

lemma rne_cases:
  obtains (down) "rne x = \<lfloor>x\<rfloor>" "x - of_int \<lfloor>x\<rfloor> \<le> 1 / 2"
    | (up) "rne x = \<lfloor>x\<rfloor> + 1" "1 / 2 \<le> x - of_int \<lfloor>x\<rfloor>"
proof -
  let ?d = "x - of_int \<lfloor>x\<rfloor>"
  consider "?d < 1 / 2" | "1 / 2 < ?d" | "?d = 1 / 2 \<and> even \<lfloor>x\<rfloor>" | "?d = 1 / 2 \<and> odd \<lfloor>x\<rfloor>"
    by linarith
  then show thesis
    by cases (auto simp: rne_def Let_def intro: down up)
qed

lemma rne_mono: "x \<le> y \<Longrightarrow> rne x \<le> rne y"
proof -
  assume le: "x \<le> y"
  then have "\<lfloor>x\<rfloor> \<le> \<lfloor>y\<rfloor>" by (rule floor_mono)
  moreover have "rne x \<le> \<lfloor>x\<rfloor> + 1" "\<lfloor>y\<rfloor> \<le> rne y"
    by (auto simp: rne_def Let_def)
  moreover have "\<lfloor>x\<rfloor> = \<lfloor>y\<rfloor> \<Longrightarrow> rne x \<le> rne y"
    using le by (auto simp: rne_def Let_def)
  ultimately show ?thesis by linarith
qed

lemma rne_nonneg: "0 \<le> x \<Longrightarrow> 0 \<le> rne x"
  using rne_mono [of 0 x] rne_of_int [of 0] by simp

lemma rne_le_double:
  assumes "0 \<le> x"
  shows "of_int (rne x) \<le> 2 * x"
proof -
  have f: "(0 :: rat) \<le> of_int \<lfloor>x\<rfloor>" "of_int \<lfloor>x\<rfloor> \<le> x"
    using assms by simp_all
  show ?thesis
  proof (cases x rule: rne_cases)
    case down
    then have "of_int (rne x) = (of_int \<lfloor>x\<rfloor> :: rat)" by simp
    with f assms show ?thesis by linarith
  next
    case up
    then have "of_int (rne x) = (of_int \<lfloor>x\<rfloor> + 1 :: rat)" by simp
    with f up(2) show ?thesis by linarith
  qed
qed

lemma ulp_exp_upper: "s < 2 ^ (24 + ulp_exp s)"
proof -
  have "\<lfloor>s\<rfloor> < 2 ^ bit_length \<lfloor>s\<rfloor>"
    by (rule bit_length_upper)
  also have "(2 :: int) ^ bit_length \<lfloor>s\<rfloor> \<le> 2 ^ (24 + ulp_exp s)"
    by (rule power_increasing) (auto simp: ulp_exp_def)
  finally show ?thesis by (simp add: floor_less_iff)
qed

lemma ulp_exp_lower:
  assumes "0 < ulp_exp s"
  shows "2 ^ (23 + ulp_exp s) \<le> s"
proof -
  have bl: "bit_length \<lfloor>s\<rfloor> = 24 + ulp_exp s"
    using assms by (auto simp: ulp_exp_def)
  then have "0 < \<lfloor>s\<rfloor>" by (rule contrapos_pp) (simp add: bit_length.simps)
  then have "2 ^ (23 + ulp_exp s) \<le> \<lfloor>s\<rfloor>"
    using bit_length_lower [of "\<lfloor>s\<rfloor>"] bl by simp
  then show ?thesis by (simp add: le_floor_iff)
qed

lemma ulp_exp_mono: "s \<le> t \<Longrightarrow> ulp_exp s \<le> ulp_exp t"
  unfolding ulp_exp_def
  by (intro diff_le_mono bit_length_mono floor_mono)

lemma ulp_exp_le: "0 \<le> s \<Longrightarrow> s < 2 ^ (24 + j) \<Longrightarrow> ulp_exp s \<le> j"
proof (rule ccontr)
  assume "s < 2 ^ (24 + j)" "\<not> ulp_exp s \<le> j"
  then have "(2 :: rat) ^ (24 + j) \<le> 2 ^ (23 + ulp_exp s)"
    by (intro power_increasing) auto
  with ulp_exp_lower [of s] \<open>s < 2 ^ (24 + j)\<close> \<open>\<not> ulp_exp s \<le> j\<close> show False by simp
qed

lemma round_units_nonneg: "0 \<le> s \<Longrightarrow> 0 \<le> round_units s"
  by (simp add: round_units_def Let_def rne_nonneg)

lemma round_units_le_double: "0 \<le> s \<Longrightarrow> round_units s \<le> 2 * s"
proof -
  assume "0 \<le> s"
  then have "of_int (rne (s / 2 ^ ulp_exp s)) \<le> 2 * (s / 2 ^ ulp_exp s)"
    by (intro rne_le_double) simp
  then show ?thesis
    by (simp add: round_units_def Let_def field_simps)
qed

lemma round_units_exact:
  assumes "m < 2 ^ 24"
  shows "round_units (of_nat m * 2 ^ j) = of_nat m * 2 ^ j"
proof -
  let ?s = "of_nat m * 2 ^ j :: rat"
  have "(of_nat m :: rat) < 2 ^ 24" using assms by (metis of_nat_less_iff of_nat_numeral of_nat_power)
  then have "?s < 2 ^ (24 + j)" by (simp add: power_add)
  then have "ulp_exp ?s \<le> j" by (intro ulp_exp_le) auto
  then obtain d where "j = ulp_exp ?s + d" using le_Suc_ex by blast
  then have "?s = of_int (int m * 2 ^ d) * 2 ^ ulp_exp ?s"
    by (metis (no_types, opaque_lifting) mult.assoc mult.commute of_int_mult of_int_numeral
        of_int_of_nat_eq of_int_power power_add)
  then have "?s / 2 ^ ulp_exp ?s = of_int (int m * 2 ^ d)"
    by (metis nonzero_eq_divide_eq power_not_zero zero_neq_numeral)
  then have "rne (?s / 2 ^ ulp_exp ?s) = int m * 2 ^ d"
    by (simp only: rne_of_int)
  with \<open>?s = _\<close> show ?thesis
    unfolding round_units_def Let_def by metis
qed

lemma round_units_power [simp]: "round_units (2 ^ j) = 2 ^ j"
  using round_units_exact [of 1 j] by simp

lemma round_units_upper: "0 \<le> s \<Longrightarrow> round_units s \<le> 2 ^ (24 + ulp_exp s)"
proof -
  assume "0 \<le> s"
  then have "s / 2 ^ ulp_exp s \<le> of_int (2 ^ 24)"
    using ulp_exp_upper [of s] by (simp add: power_add field_simps)
  then have "rne (s / 2 ^ ulp_exp s) \<le> 2 ^ 24"
    by (metis rne_mono rne_of_int)
  then have "of_int (rne (s / 2 ^ ulp_exp s)) \<le> (2 ^ 24 :: rat)"
    by (metis of_int_le_iff of_int_numeral of_int_power)
  then show ?thesis
    by (simp add: round_units_def Let_def power_add)
qed

lemma round_units_lower: "0 < ulp_exp s \<Longrightarrow> 2 ^ (23 + ulp_exp s) \<le> round_units s"
proof -
  assume "0 < ulp_exp s"
  then have "of_int (2 ^ 23) \<le> s / 2 ^ ulp_exp s"
    using ulp_exp_lower [of s] by (simp add: power_add field_simps)
  then have "2 ^ 23 \<le> rne (s / 2 ^ ulp_exp s)"
    by (metis rne_mono rne_of_int)
  then have "(2 ^ 23 :: rat) \<le> of_int (rne (s / 2 ^ ulp_exp s))"
    by (metis of_int_le_iff of_int_numeral of_int_power)
  then show ?thesis
    by (simp add: round_units_def Let_def power_add)
qed

lemma round_units_mono:
  assumes "0 \<le> s" "s \<le> t"
  shows "round_units s \<le> round_units t"
proof (cases "ulp_exp s = ulp_exp t")
  case True
  have "rne (s / 2 ^ ulp_exp t) \<le> rne (t / 2 ^ ulp_exp t)"
    using assms by (intro rne_mono divide_right_mono) auto
  with True show ?thesis
    by (simp add: round_units_def Let_def)
next
  case False
  with ulp_exp_mono [OF assms(2)] have lt: "ulp_exp s < ulp_exp t" by simp
  have "round_units s \<le> 2 ^ (24 + ulp_exp s)"
    using assms(1) by (rule round_units_upper)
  also have "(2 :: rat) ^ (24 + ulp_exp s) \<le> 2 ^ (23 + ulp_exp t)"
    using lt by (intro power_increasing) auto
  also have "\<dots> \<le> round_units t"
    using lt by (intro round_units_lower) simp
  finally show ?thesis .
qed

text \<open>A rounded number has at most 24 significant bits, so rounding it again changes nothing.\<close>

lemma round_units_idem:
  assumes "0 \<le> s"
  shows "round_units (round_units s) = round_units s"
proof -
  let ?k = "ulp_exp s" and ?m = "rne (s / 2 ^ ulp_exp s)"
  have m0: "0 \<le> ?m" using assms by (simp add: rne_nonneg)
  have "of_int ?m * 2 ^ ?k \<le> (2 ^ 24 * 2 ^ ?k :: rat)"
    using round_units_upper [OF assms] by (simp add: round_units_def Let_def power_add)
  then have "of_int ?m \<le> (2 ^ 24 :: rat)" by simp
  then have le: "?m \<le> 2 ^ 24"
    by (metis of_int_le_iff of_int_numeral of_int_power)
  have r: "round_units s = of_nat (nat ?m) * 2 ^ ?k"
    using m0 by (simp add: round_units_def Let_def)
  show ?thesis
  proof (cases "?m = 2 ^ 24")
    case True
    then have "round_units s = 2 ^ (24 + ?k)"
      by (simp add: r power_add)
    then show ?thesis by simp
  next
    case False
    with le m0 have "nat ?m < 2 ^ 24" by (simp add: nat_less_iff)
    then show ?thesis unfolding r by (rule round_units_exact)
  qed
qed

section \<open>Rounding with a sign\<close>

lemma rnd_nonneg_eq: "0 \<le> q \<Longrightarrow> rnd q = round_units (q * units) / units"
  by (cases "q = 0") (simp_all add: rnd_def sgn_rat_def round_units_def Let_def rne_of_int [of 0, simplified])

lemma rnd_uminus [simp]: "rnd (- q) = - rnd q"
  by (simp add: rnd_def sgn_minus)

lemma rnd_0 [simp]: "rnd 0 = 0"
  by (simp add: rnd_def)

lemma rnd_nonneg: "0 \<le> q \<Longrightarrow> 0 \<le> rnd q"
  by (simp add: rnd_nonneg_eq round_units_nonneg)

lemma rnd_le_double: "0 \<le> q \<Longrightarrow> rnd q \<le> 2 * q"
  using round_units_le_double [of "q * units"] by (simp add: rnd_nonneg_eq field_simps)

lemma rnd_mono_nonneg: "0 \<le> p \<Longrightarrow> p \<le> q \<Longrightarrow> rnd p \<le> rnd q"
  by (simp add: rnd_nonneg_eq divide_right_mono round_units_mono)

lemma rnd_mono: "p \<le> q \<Longrightarrow> rnd p \<le> rnd q"
proof -
  assume le: "p \<le> q"
  consider "0 \<le> p" | "p < 0" "0 \<le> q" | "q < 0" by linarith
  then show ?thesis
  proof cases
    case 1
    then show ?thesis using le by (rule rnd_mono_nonneg)
  next
    case 2
    then have "0 \<le> rnd (- p)" "0 \<le> rnd q" by (simp_all add: rnd_nonneg del: rnd_uminus)
    then show ?thesis by simp
  next
    case 3
    with le have "rnd (- q) \<le> rnd (- p)" by (intro rnd_mono_nonneg) auto
    then show ?thesis by simp
  qed
qed

lemma rnd_idem [simp]: "rnd (rnd q) = rnd q"
proof -
  have pos: "rnd (rnd p) = rnd p" if "0 \<le> p" for p
    using that by (simp add: rnd_nonneg_eq round_units_nonneg round_units_idem)
  show ?thesis
  proof (cases "0 \<le> q")
    case True
    then show ?thesis by (rule pos)
  next
    case False
    with pos [of "- q"] show ?thesis by simp
  qed
qed

text \<open>Representable numbers: \<open>m * 2 ^ j\<close> units with a significand of 24 bits.\<close>

lemma rnd_exact:
  assumes "q * units = of_nat m * 2 ^ j" and "m < 2 ^ 24"
  shows "rnd q = q"
proof -
  have "0 \<le> q * units" unfolding assms(1) by simp
  then have "0 \<le> q" by (simp add: zero_le_mult_iff)
  then have "rnd q = (of_nat m * 2 ^ j) / units"
    by (simp add: rnd_nonneg_eq assms(1) round_units_exact [OF assms(2)])
  also have "\<dots> = q"
    by (simp flip: assms(1))
  finally show ?thesis .
qed

lemma rnd_nat: "n < 2 ^ 24 \<Longrightarrow> rnd (of_nat n) = of_nat n"
  by (rule rnd_exact [of _ n 149]) (auto simp: units_def)

lemma rnd_numeral: "numeral n < (2 :: nat) ^ 24 \<Longrightarrow> rnd (numeral n) = numeral n"
  using rnd_nat [of "numeral n"] by simp

lemma rnd_dyadic: "n < 2 ^ 24 \<Longrightarrow> k \<le> 149 \<Longrightarrow> rnd (of_nat n / 2 ^ k) = of_nat n / 2 ^ k"
  by (rule rnd_exact [of _ n "149 - k"]) (auto simp: units_def power_diff)

lemma rnd_power [simp]: "rnd (2 ^ k) = 2 ^ k"
  by (rule rnd_exact [of _ 1 "k + 149"]) (auto simp: power_add units_def)

section \<open>The type \<open>f32\<close> and its operations\<close>

text \<open>\<open>Inf True\<close> is minus infinity.\<close>

datatype f32 = NaN | Inf bool | Fin rat

definition f32_max_exp :: rat where "f32_max_exp = 2 ^ 128"

definition f32_round :: "rat \<Rightarrow> f32" where
  "f32_round q =
     (if f32_max_exp \<le> \<bar>rnd q\<bar> then Inf (q < 0) else Fin (rnd q))"

fun f32_neg :: "f32 \<Rightarrow> f32" where
  "f32_neg NaN = NaN"
| "f32_neg (Inf s) = Inf (\<not> s)"
| "f32_neg (Fin q) = Fin (- q)"

fun f32_add :: "f32 \<Rightarrow> f32 \<Rightarrow> f32" where
  "f32_add NaN y = NaN"
| "f32_add x NaN = NaN"
| "f32_add (Inf s) (Inf t) = (if s = t then Inf s else NaN)"
| "f32_add (Inf s) y = Inf s"
| "f32_add x (Inf t) = Inf t"
| "f32_add (Fin p) (Fin q) = f32_round (p + q)"

fun f32_mul :: "f32 \<Rightarrow> f32 \<Rightarrow> f32" where
  "f32_mul NaN y = NaN"
| "f32_mul x NaN = NaN"
| "f32_mul (Inf s) (Inf t) = Inf (s \<noteq> t)"
| "f32_mul (Inf s) (Fin q) = (if q = 0 then NaN else Inf (s \<noteq> (q < 0)))"
| "f32_mul (Fin p) (Inf t) = (if p = 0 then NaN else Inf ((p < 0) \<noteq> t))"
| "f32_mul (Fin p) (Fin q) = f32_round (p * q)"

fun f32_div :: "f32 \<Rightarrow> f32 \<Rightarrow> f32" where
  "f32_div NaN y = NaN"
| "f32_div x NaN = NaN"
| "f32_div (Inf s) (Inf t) = NaN"
| "f32_div (Inf s) (Fin q) = Inf (s \<noteq> (q < 0))"
| "f32_div (Fin p) (Inf t) = Fin 0"
| "f32_div (Fin p) (Fin q) =
     (if q = 0 then (if p = 0 then NaN else Inf (p < 0)) else f32_round (p / q))"

fun f32_le :: "f32 \<Rightarrow> f32 \<Rightarrow> bool" where
  "f32_le NaN y = False"
| "f32_le x NaN = False"
| "f32_le (Inf s) (Inf t) = (s \<or> \<not> t)"
| "f32_le (Inf s) (Fin q) = s"
| "f32_le (Fin p) (Inf t) = (\<not> t)"
| "f32_le (Fin p) (Fin q) = (p \<le> q)"

fun f32_less :: "f32 \<Rightarrow> f32 \<Rightarrow> bool" where
  "f32_less NaN y = False"
| "f32_less x NaN = False"
| "f32_less (Inf s) (Inf t) = (s \<and> \<not> t)"
| "f32_less (Inf s) (Fin q) = s"
| "f32_less (Fin p) (Inf t) = (\<not> t)"
| "f32_less (Fin p) (Fin q) = (p < q)"

fun f32_abs :: "f32 \<Rightarrow> f32" where
  "f32_abs NaN = NaN"
| "f32_abs (Inf s) = Inf False"
| "f32_abs (Fin q) = Fin \<bar>q\<bar>"

text \<open>The operators of the source, through the library's type classes.\<close>

instantiation f32 :: "{zero, one, plus, minus, uminus, times, divide, abs, ord}"
begin

definition zero_f32 :: f32 where "0 = Fin 0"

definition one_f32 :: f32 where "1 = Fin 1"

definition plus_f32 :: "f32 \<Rightarrow> f32 \<Rightarrow> f32" where "x + y = f32_add x y"

definition uminus_f32 :: "f32 \<Rightarrow> f32" where "- x = f32_neg x"

definition minus_f32 :: "f32 \<Rightarrow> f32 \<Rightarrow> f32" where "x - y = f32_add x (f32_neg y)"

definition times_f32 :: "f32 \<Rightarrow> f32 \<Rightarrow> f32" where "x * y = f32_mul x y"

definition divide_f32 :: "f32 \<Rightarrow> f32 \<Rightarrow> f32" where "x div y = f32_div x y"

definition abs_f32 :: "f32 \<Rightarrow> f32" where "\<bar>x\<bar> = f32_abs x"

definition less_eq_f32 :: "f32 \<Rightarrow> f32 \<Rightarrow> bool" where "x \<le> y \<longleftrightarrow> f32_le x y"

definition less_f32 :: "f32 \<Rightarrow> f32 \<Rightarrow> bool" where "x < y \<longleftrightarrow> f32_less x y"

instance ..

end

lemmas f32_ops [rust_defs] =
  zero_f32_def one_f32_def plus_f32_def uminus_f32_def minus_f32_def times_f32_def divide_f32_def
  abs_f32_def less_eq_f32_def less_f32_def

text \<open>Literals, and the conversions written \<open>as f32\<close>.\<close>

definition f32_lit :: "rat \<Rightarrow> f32" where
  "f32_lit q = f32_round q"

definition f32_of_int :: "int \<Rightarrow> f32" where
  "f32_of_int i = f32_round (of_int i)"

text \<open>\<open>f32::min\<close>, \<open>f32::clamp\<close> and \<open>f32::round\<close> (half away from zero).\<close>

definition f32_min :: "f32 \<Rightarrow> f32 \<Rightarrow> f32" where
  "f32_min x y = (if x = NaN then y else if y = NaN then x else if x < y then x else y)"

definition f32_clamp :: "f32 \<Rightarrow> f32 \<Rightarrow> f32 \<Rightarrow> f32" where
  "f32_clamp x lo hi =
     (let y = (if x < lo then lo else x) in if hi < y then hi else y)"

definition round_half_away :: "rat \<Rightarrow> int" where
  "round_half_away q = (if q < 0 then - \<lfloor>- q + 1 / 2\<rfloor> else \<lfloor>q + 1 / 2\<rfloor>)"

fun f32_round_int :: "f32 \<Rightarrow> f32" where
  "f32_round_int NaN = NaN"
| "f32_round_int (Inf s) = Inf s"
| "f32_round_int (Fin q) = Fin (of_int (round_half_away q))"

text \<open>The casts \<open>as i32\<close>, \<open>as u64\<close> and \<open>as u128\<close> truncate and saturate.\<close>

definition trunc_rat :: "rat \<Rightarrow> int" where
  "trunc_rat q = (if q < 0 then - \<lfloor>- q\<rfloor> else \<lfloor>q\<rfloor>)"

fun f32_cast :: "int \<Rightarrow> int \<Rightarrow> f32 \<Rightarrow> int" where
  "f32_cast lo hi NaN = 0"
| "f32_cast lo hi (Inf s) = (if s then lo else hi)"
| "f32_cast lo hi (Fin q) = max lo (min hi (trunc_rat q))"

definition f32_to_i32 :: "f32 \<Rightarrow> i32" where
  "f32_to_i32 x = word_of_int (f32_cast (- (2 ^ 31)) (2 ^ 31 - 1) x)"

definition f32_to_u64 :: "f32 \<Rightarrow> u64" where
  "f32_to_u64 x = word_of_int (f32_cast 0 (2 ^ 64 - 1) x)"

definition f32_to_u128 :: "f32 \<Rightarrow> u128" where
  "f32_to_u128 x = word_of_int (f32_cast 0 (2 ^ 128 - 1) x)"

section \<open>Time\<close>

text \<open>
  An \<open>Instant\<close> is a number of nanoseconds on the monotonic clock, a \<open>Duration\<close> is a
  number of nanoseconds that is not negative. \<open>Instant::duration_since\<close> is zero when the
  argument is the later one. \<open>as_secs_f32\<close> converts the seconds and the nanoseconds apart, as
  the standard library does.
\<close>

type_synonym instant = int
type_synonym duration = int

definition duration_since :: "instant \<Rightarrow> instant \<Rightarrow> duration" where
  "duration_since now earlier = max 0 (now - earlier)"

definition as_secs_f32 :: "duration \<Rightarrow> f32" where
  "as_secs_f32 d =
     f32_of_int (d div 10 ^ 9) + f32_of_int (d mod 10 ^ 9) div f32_of_int (10 ^ 9)"

definition elapsed_ms_f32 :: "instant \<Rightarrow> instant \<Rightarrow> f32" where
  "elapsed_ms_f32 now earlier = as_secs_f32 (duration_since now earlier) * f32_lit 1000"

section \<open>Bounds\<close>

text \<open>
  The values of the estimator are finite, not negative and far below the largest \<open>f32\<close>.
\<close>

fun f32_within :: "rat \<Rightarrow> rat \<Rightarrow> f32 \<Rightarrow> bool" where
  "f32_within a b (Fin q) = (a \<le> q \<and> q \<le> b \<and> rnd q = q)"
| "f32_within a b _ = False"

lemma f32_withinE:
  assumes "f32_within a b x"
  obtains q where "x = Fin q" "a \<le> q" "q \<le> b" "rnd q = q"
  using assms by (cases x) auto

lemma f32_within_mono: "f32_within a b x \<Longrightarrow> a' \<le> a \<Longrightarrow> b \<le> b' \<Longrightarrow> f32_within a' b' x"
  by (cases x) auto

lemma f32_round_within:
  assumes "a \<le> q" "q \<le> b" "rnd a = a" "rnd b = b" "\<bar>a\<bar> < f32_max_exp" "\<bar>b\<bar> < f32_max_exp"
  shows "f32_within a b (f32_round q)" and "f32_round q = Fin (rnd q)"
proof -
  have "a \<le> rnd q" "rnd q \<le> b"
    using rnd_mono [OF assms(1)] rnd_mono [OF assms(2)] assms(3,4) by simp_all
  then show "f32_round q = Fin (rnd q)" "f32_within a b (f32_round q)"
    using assms(5,6) by (auto simp: f32_round_def)
qed

lemma f32_clamp_within:
  assumes "f32_within lo hi x" "a \<le> b" "rnd a = a" "rnd b = b"
  shows "f32_within a b (f32_clamp x (Fin a) (Fin b))"
  using assms by (auto simp: f32_clamp_def f32_ops elim!: f32_withinE)

text \<open>One step of an exponential average stays between zero and a power of two.\<close>

lemma f32_small [simp]: "n < 128 \<Longrightarrow> (2 :: rat) ^ n < f32_max_exp"
  unfolding f32_max_exp_def by (rule power_strict_increasing) auto

lemma f32_max_exp_pos [simp]: "0 < f32_max_exp"
  by (simp add: f32_max_exp_def)

lemma f32_round_from:
  assumes "0 \<le> a" "a \<le> q" "q \<le> 2 ^ n" "n < 128" "rnd a = a"
  shows "f32_within a (2 ^ n) (f32_round q)"
proof (rule f32_round_within(1))
  show "\<bar>(2 :: rat) ^ n\<bar> < f32_max_exp" using assms(4) by simp
  then show "\<bar>a\<bar> < f32_max_exp" using assms(1-3) by simp
qed (use assms in auto)

lemma f32_round_within0:
  "0 \<le> q \<Longrightarrow> q \<le> 2 ^ n \<Longrightarrow> n < 128 \<Longrightarrow> f32_within 0 (2 ^ n) (f32_round q)"
  by (rule f32_round_from) simp_all

lemma f32_round_within_pow:
  "\<bar>q\<bar> \<le> 2 ^ n \<Longrightarrow> n < 128 \<Longrightarrow> f32_round q = Fin (rnd q) \<and> \<bar>rnd q\<bar> \<le> 2 ^ n"
  using f32_round_within [of "- (2 ^ n)" q "2 ^ n"] f32_small [of n] rnd_mono [of "- (2 ^ n)" q]
    rnd_mono [of q "2 ^ n"]
  by (simp add: abs_le_iff)

lemma f32_diff_within:
  assumes "f32_within 0 (2 ^ n) x" "f32_within 0 (2 ^ n) y" "n < 128"
  shows "f32_within 0 (2 ^ n) \<bar>x - y\<bar>"
proof -
  obtain p q where p: "x = Fin p" "0 \<le> p" "p \<le> 2 ^ n" and q: "y = Fin q" "0 \<le> q" "q \<le> 2 ^ n"
    using assms by (auto elim!: f32_withinE)
  then have "\<bar>p - q\<bar> \<le> 2 ^ n" by linarith
  have "rnd \<bar>r\<bar> = \<bar>r\<bar>" if "rnd r = r" for r
    using that by (cases "0 \<le> r") auto
  with f32_round_within_pow [OF \<open>\<bar>p - q\<bar> \<le> 2 ^ n\<close> assms(3)] p q show ?thesis
    by (simp add: f32_ops)
qed

lemma ema_bounds:
  assumes x: "0 \<le> x" "x \<le> B" "rnd x = x" and y: "0 \<le> y" "y \<le> B" and B: "rnd B = B"
    and a: "0 \<le> a" "a \<le> 1 / 4"
  shows "0 \<le> x + rnd (a * rnd (y - x))" and "x + rnd (a * rnd (y - x)) \<le> B"
proof -
  let ?d = "rnd (y - x)" and ?e = "rnd (a * rnd (y - x))"
  have lo: "- x \<le> ?d" using rnd_mono [of "- x" "y - x"] x y by simp
  have up: "?d \<le> 2 * (B - x)"
  proof (cases "x \<le> y")
    case True
    then have "?d \<le> 2 * (y - x)" by (intro rnd_le_double) simp
    with y show ?thesis by simp
  next
    case False
    then have "?d \<le> 0" using rnd_mono [of "y - x" 0] by simp
    moreover have "0 \<le> 2 * (B - x)" using x by simp
    ultimately show ?thesis by linarith
  qed
  have "- x \<le> ?e \<and> ?e \<le> B - x"
  proof (cases "0 \<le> ?d")
    case True
    then have ad: "0 \<le> a * ?d" "a * ?d \<le> 1 / 4 * ?d"
      using a by (simp, intro mult_right_mono)
    have "?e \<le> 2 * (a * ?d)" using ad(1) by (rule rnd_le_double)
    moreover have "0 \<le> ?e" using ad(1) by (rule rnd_nonneg)
    ultimately show ?thesis using ad up x(1) by (auto simp: field_simps)
  next
    case False
    then have d0: "?d \<le> 0" by simp
    then have ad: "0 \<le> a * - ?d" "a * - ?d \<le> 1 / 4 * - ?d"
      using a by (simp add: mult_nonneg_nonpos, intro mult_right_mono) auto
    have "rnd (a * - ?d) \<le> 2 * (a * - ?d)" using ad(1) by (rule rnd_le_double)
    then have "- ?e \<le> 2 * (a * - ?d)" by simp
    moreover have "0 \<le> - ?e" using rnd_nonneg [OF ad(1)] by simp
    ultimately show ?thesis using ad lo x by (auto simp: field_simps)
  qed
  then show "0 \<le> x + ?e" "x + ?e \<le> B" by linarith+
qed

lemma f32_ema_within:
  assumes x: "f32_within 0 (2 ^ n) x" and y: "f32_within 0 (2 ^ n) y"
    and a: "0 \<le> a" "a \<le> 1 / 4" and n: "n < 128"
  shows "f32_within 0 (2 ^ n) (x + Fin a * (y - x))"
proof -
  obtain p where p: "x = Fin p" "0 \<le> p" "p \<le> 2 ^ n" "rnd p = p" using x by (rule f32_withinE)
  obtain q where q: "y = Fin q" "0 \<le> q" "q \<le> 2 ^ n" "rnd q = q" using y by (rule f32_withinE)
  have d: "f32_round (q - p) = Fin (rnd (q - p))" "\<bar>rnd (q - p)\<bar> \<le> 2 ^ n"
    using f32_round_within_pow [of "q - p" n] p q n by auto
  have "\<bar>a * rnd (q - p)\<bar> \<le> 1 * 2 ^ n"
    unfolding abs_mult using d a by (intro mult_mono) auto
  then have e: "f32_round (a * rnd (q - p)) = Fin (rnd (a * rnd (q - p)))"
    using f32_round_within_pow [of "a * rnd (q - p)" n] n by simp
  have "f32_within 0 (2 ^ n) (f32_round (p + rnd (a * rnd (q - p))))"
    using ema_bounds [OF p(2-4) q(2,3) rnd_power a] n by (intro f32_round_within0)
  then show ?thesis
    using p q d e by (simp add: f32_ops)
qed

lemma f32_of_int_within:
  "0 \<le> i \<Longrightarrow> i \<le> 2 ^ n \<Longrightarrow> n < 128 \<Longrightarrow> f32_within 0 (2 ^ n) (f32_of_int i)"
proof -
  assume i: "0 \<le> i" "i \<le> 2 ^ n" "n < 128"
  have "(of_int i :: rat) \<le> of_int (2 ^ n)" using i(2) by (simp only: of_int_le_iff)
  with i show ?thesis
    unfolding f32_of_int_def by (intro f32_round_within0) simp_all
qed

lemma f32_add_within:
  "f32_within 0 (2 ^ m) x \<Longrightarrow> f32_within 0 (2 ^ m) y \<Longrightarrow> m < 127 \<Longrightarrow>
    f32_within 0 (2 ^ Suc m) (x + y)"
  by (auto simp: f32_ops elim!: f32_withinE intro!: f32_round_within0 simp del: power_Suc)
    (simp_all add: add_mono)

text \<open>A measured time in milliseconds: the seconds of a \<open>Duration\<close> fit in 64 bits.\<close>

lemma rnd_1e9: "rnd (10 ^ 9) = 10 ^ 9"
  by (rule rnd_exact [of _ 1953125 "149 + 9"]) (auto simp: units_def)

lemma as_secs_from:
  assumes "0 \<le> d" "d < 2 ^ 64 * 10 ^ 9"
    and a: "0 \<le> a" "a \<le> 2 ^ 64" "rnd a = a" "a \<le> of_int (d div 10 ^ 9)"
  shows "f32_within a (2 ^ 65) (as_secs_f32 d)"
proof -
  have "(of_int (d div 10 ^ 9) :: rat) \<le> of_int (2 ^ 64)"
    using assms(1,2) unfolding of_int_le_iff by auto
  then have "f32_within a (2 ^ 64) (f32_of_int (d div 10 ^ 9))"
    using a unfolding f32_of_int_def by (intro f32_round_from) auto
  then obtain s where s: "f32_of_int (d div 10 ^ 9) = Fin s" "a \<le> s" "s \<le> 2 ^ 64"
    by (auto elim!: f32_withinE)
  have "0 \<le> d mod 10 ^ 9" "d mod 10 ^ 9 < 10 ^ 9" by simp_all
  then have "d mod 10 ^ 9 \<le> 2 ^ 30" by simp
  then have "f32_within 0 (2 ^ 30) (f32_of_int (d mod 10 ^ 9))"
    by (intro f32_of_int_within) auto
  then obtain q where q: "f32_of_int (d mod 10 ^ 9) = Fin q" "0 \<le> q" "q \<le> 2 ^ 30"
    by (auto elim!: f32_withinE)
  have g: "f32_of_int (10 ^ 9) = Fin (10 ^ 9)"
    using f32_round_within(2) [of "10 ^ 9" "10 ^ 9" "10 ^ 9"] rnd_1e9
    by (simp add: f32_of_int_def f32_max_exp_def)
  have "f32_within 0 (2 ^ 64) (f32_round (q / 10 ^ 9))"
  proof (rule f32_round_within0)
    have "q / 10 ^ 9 \<le> q" using q by (simp add: field_simps)
    with q(3) show "q / 10 ^ 9 \<le> 2 ^ 64" by simp
  qed (use q in auto)
  then obtain r where r: "f32_of_int (d mod 10 ^ 9) div f32_of_int (10 ^ 9) = Fin r" "0 \<le> r" "r \<le> 2 ^ 64"
    unfolding q(1) g by (auto simp: f32_ops elim!: f32_withinE)
  have "f32_within a (2 ^ 65) (f32_round (s + r))"
    using s(2,3) r(2,3) a(1,3) by (intro f32_round_from) auto
  moreover have "as_secs_f32 d = f32_round (s + r)"
    unfolding as_secs_f32_def s(1) r(1) by (simp add: f32_ops)
  ultimately show ?thesis by (simp only:)
qed

lemma f32_lit_exact: "rnd q = q \<Longrightarrow> \<bar>q\<bar> < f32_max_exp \<Longrightarrow> f32_lit q = Fin q"
  by (simp add: f32_lit_def f32_round_def)

lemma elapsed_from:
  assumes "0 \<le> earlier" "now < 2 ^ 64 * 10 ^ 9"
    and a: "0 \<le> a" "a \<le> 2 ^ 64" "rnd a = a" "rnd (a * 1000) = a * 1000"
      "a \<le> of_int (duration_since now earlier div 10 ^ 9)"
  shows "f32_within (a * 1000) (2 ^ 75) (elapsed_ms_f32 now earlier)"
proof -
  have "f32_within a (2 ^ 65) (as_secs_f32 (duration_since now earlier))"
    using assms by (intro as_secs_from) (auto simp: duration_since_def)
  then obtain q where q: "as_secs_f32 (duration_since now earlier) = Fin q" "a \<le> q" "q \<le> 2 ^ 65"
    by (auto elim!: f32_withinE)
  have l: "f32_lit 1000 = Fin 1000"
    by (intro f32_lit_exact) (auto simp: rnd_numeral f32_max_exp_def)
  have "f32_within (a * 1000) (2 ^ 75) (f32_round (q * 1000))"
    using q(2,3) a(1,4) by (intro f32_round_from) auto
  then show ?thesis by (simp add: elapsed_ms_f32_def q(1) l f32_ops)
qed

lemma elapsed_within:
  assumes "0 \<le> earlier" "now < 2 ^ 64 * 10 ^ 9"
  shows "f32_within 0 (2 ^ 75) (elapsed_ms_f32 now earlier)"
proof -
  have "0 \<le> duration_since now earlier div 10 ^ 9" by (simp add: duration_since_def)
  then have "(0 :: rat) \<le> of_int (duration_since now earlier div 10 ^ 9)" by (simp only: of_int_0_le_iff)
  with elapsed_from [OF assms, of 0] show ?thesis by simp
qed

text \<open>Two measured seconds are at least 2000 measured milliseconds.\<close>

lemma elapsed_two_seconds:
  assumes "0 \<le> earlier" "now < 2 ^ 64 * 10 ^ 9" "earlier + 2 * 10 ^ 9 \<le> now"
  shows "f32_lit 2000 \<le> elapsed_ms_f32 now earlier"
proof -
  have "2 \<le> duration_since now earlier div 10 ^ 9" using assms(3) by (simp add: duration_since_def)
  then have "(of_int 2 :: rat) \<le> of_int (duration_since now earlier div 10 ^ 9)"
    unfolding of_int_le_iff .
  then have "f32_within 2000 (2 ^ 75) (elapsed_ms_f32 now earlier)"
    using elapsed_from [OF assms(1,2), of 2] by (simp add: rnd_numeral)
  moreover have "f32_lit 2000 = Fin 2000"
    by (intro f32_lit_exact) (auto simp: rnd_numeral f32_max_exp_def)
  ultimately show ?thesis by (auto simp: f32_ops elim!: f32_withinE)
qed

end
