(* ===== verification/Replay_Window.thy ===== *)
theory Replay_Window
  imports Rust_Prelude
begin

text \<open>
  The contract of a sliding duplicate filter, which two components of the program promise: the
  receive window of a reliable connection (\<open>Protocol\<close>) and the anti-replay window of a
  connection (\<open>Anti_Replay\<close>). The abstract filter keeps the highest number it has accepted and
  the set of all the numbers it has accepted, without any bound; it accepts a number that is higher
  than the highest, or that is at most \<open>width - 1\<close> below it and was not accepted before. The
  concrete filters keep a machine integer and a bit field.
\<close>

definition window_accepts :: "nat \<Rightarrow> nat \<Rightarrow> nat set \<Rightarrow> nat \<Rightarrow> bool" where
  "window_accepts width t G n \<longleftrightarrow> t < n \<or> (t - n < width \<and> n \<notin> G)"

definition window_top :: "nat \<Rightarrow> nat \<Rightarrow> nat set \<Rightarrow> nat \<Rightarrow> nat" where
  "window_top width t G n = (if window_accepts width t G n then max t n else t)"

definition window_seen :: "nat \<Rightarrow> nat \<Rightarrow> nat set \<Rightarrow> nat \<Rightarrow> nat set" where
  "window_seen width t G n = (if window_accepts width t G n then insert n G else G)"

text \<open>
  Runs: the numbers accepted from a list of arrivals, by the abstract filter and by a concrete one,
  and the side condition \<open>ok\<close> on every arrival of a run.
\<close>

fun window_spec_run :: "nat \<Rightarrow> nat \<Rightarrow> nat set \<Rightarrow> nat list \<Rightarrow> nat list" where
  "window_spec_run width t G [] = []"
| "window_spec_run width t G (n # ns) =
     (let rest = window_spec_run width (window_top width t G n) (window_seen width t G n) ns
      in if window_accepts width t G n then n # rest else rest)"

fun window_run :: "(nat \<Rightarrow> 'w \<Rightarrow> ('w \<times> bool) option) \<Rightarrow> nat list \<Rightarrow> 'w \<Rightarrow> nat list option" where
  "window_run step [] w = Some []"
| "window_run step (n # ns) w =
     (case step n w of
        None \<Rightarrow> None
      | Some (w', a) \<Rightarrow>
          (case window_run step ns w' of
             None \<Rightarrow> None
           | Some ms \<Rightarrow> Some (if a then n # ms else ms)))"

fun window_run_ok :: "(nat \<Rightarrow> nat \<Rightarrow> bool) \<Rightarrow> nat \<Rightarrow> nat \<Rightarrow> nat set \<Rightarrow> nat list \<Rightarrow> bool" where
  "window_run_ok ok width t G [] = True"
| "window_run_ok ok width t G (n # ns) =
     (ok t n \<and>
      window_run_ok ok width (window_top width t G n) (window_seen width t G n) ns)"

lemma window_seen_bound:
  "G \<subseteq> {..t} \<Longrightarrow> window_seen width t G n \<subseteq> {..window_top width t G n}"
  by (auto simp: window_seen_def window_top_def)

lemma window_accepts_fresh: "G \<subseteq> {..t} \<Longrightarrow> window_accepts width t G n \<Longrightarrow> n \<notin> G"
  using subsetD [of G "{..t}" n] unfolding window_accepts_def by auto

lemma window_spec_run_fresh:
  "G \<subseteq> {..t} \<Longrightarrow> distinct (window_spec_run width t G ns) \<and> set (window_spec_run width t G ns) \<inter> G = {}"
proof (induction ns arbitrary: t G)
  case Nil
  then show ?case by simp
next
  case (Cons n ns)
  show ?case
  proof (cases "window_accepts width t G n")
    case True
    have "n \<notin> G" using Cons.prems True by (rule window_accepts_fresh)
    moreover have "insert n G \<subseteq> {..max t n}" using Cons.prems by auto
    ultimately show ?thesis
      using Cons.IH [of "insert n G" "max t n"] True
      by (auto simp: window_top_def window_seen_def Let_def)
  next
    case False
    with Cons.IH [OF Cons.prems] show ?thesis
      by (simp add: window_top_def window_seen_def)
  qed
qed

lemma window_spec_run_increasing:
  "sorted_wrt (<) (t # ns) \<Longrightarrow> window_spec_run width t G ns = ns"
proof (induction ns arbitrary: t G)
  case Nil
  then show ?case by simp
next
  case (Cons n ns)
  then have "window_accepts width t G n" and "max t n = n"
    by (auto simp: window_accepts_def)
  with Cons.IH [of n] Cons.prems show ?case
    by (simp add: window_top_def Let_def)
qed

section \<open>The contract\<close>

locale window_filter =
  fixes rel :: "nat \<Rightarrow> nat set \<Rightarrow> 'w \<Rightarrow> bool"
    and step :: "nat \<Rightarrow> 'w \<Rightarrow> ('w \<times> bool) option"
    and ok :: "nat \<Rightarrow> nat \<Rightarrow> bool"
    and width :: nat
  assumes rel_bound: "rel t G w \<Longrightarrow> G \<subseteq> {..t}"
    and step_accepts: "rel t G w \<Longrightarrow> ok t n \<Longrightarrow>
      \<exists>w'. step n w = Some (w', window_accepts width t G n) \<and>
        rel (window_top width t G n) (window_seen width t G n) w'"
begin

lemma run_refines:
  "rel t G w \<Longrightarrow> window_run_ok ok width t G ns \<Longrightarrow>
    window_run step ns w = Some (window_spec_run width t G ns)"
proof (induction ns arbitrary: t G w)
  case Nil
  then show ?case by simp
next
  case (Cons n ns)
  then obtain w' where "step n w = Some (w', window_accepts width t G n)"
    and "rel (window_top width t G n) (window_seen width t G n) w'"
    using step_accepts [of t G w n] by auto
  with Cons.IH [of _ _ w'] Cons.prems(2) show ?case
    by (simp add: Let_def)
qed

lemma run_accepts_once:
  assumes "rel t G w" and "window_run_ok ok width t G ns"
  shows "\<exists>ms. window_run step ns w = Some ms \<and> distinct ms \<and> set ms \<inter> G = {}"
  using run_refines [OF assms] window_spec_run_fresh [OF rel_bound [OF assms(1)]] by simp

lemma run_in_order:
  assumes "rel t G w" and "window_run_ok ok width t G ns" and "sorted_wrt (<) (t # ns)"
  shows "window_run step ns w = Some ns"
  using run_refines [OF assms(1,2)] window_spec_run_increasing [OF assms(3)] by simp

end

end
