(* ===== verification/Protocol.thy ===== *)
theory Protocol
  imports Packet Float32 Replay_Window
begin

text \<open>
  The state of a reliable connection: \<open>crates/protocol/src/protocol.rs\<close>. Acknowledgements
  and round-trip estimation, the receive window, retransmission and timeout. The closures over the
  vector of unacknowledged packets become list functions: \<open>retain_mut\<close> a filter and the list
  of samples it pushes, the \<open>for\<close> loop of \<open>process_retransmissions\<close> a recursion that
  carries the timeout and the statistics it updates.
\<close>

section \<open>State\<close>

record unacked_packet =
  up_sequence :: u16
  up_time_sent :: instant
  up_data :: bytes
  up_retries :: u32

text \<open>The hand-written equality ignores the time of sending.\<close>

definition unacked_packet_eq :: "unacked_packet \<Rightarrow> unacked_packet \<Rightarrow> bool" where
  "unacked_packet_eq a b \<longleftrightarrow>
     up_sequence a = up_sequence b \<and> up_data a = up_data b \<and> up_retries a = up_retries b"

record reliable_state =
  next_outgoing_sequence :: u16
  highest_received_sequence :: u16
  received_sequence_bitfield :: u32
  smoothed_rtt_ms :: f32
  rtt_variance_ms :: f32
  retransmission_timeout_ms :: f32
  is_first_rtt_sample :: bool
  unacknowledged_packets :: "unacked_packet list"
  last_packet_received_time :: instant
  has_pending_ack_to_send :: bool
  last_ack_flush_time :: "instant option"
  stats_retransmits :: u32
  stats_ack_only_sent :: u32

definition reliable_new :: "instant \<Rightarrow> reliable_state" where
  "reliable_new now =
     \<lparr>next_outgoing_sequence = 1, highest_received_sequence = 0, received_sequence_bitfield = 0,
      smoothed_rtt_ms = f32_lit 0, rtt_variance_ms = f32_lit 0,
      retransmission_timeout_ms = f32_lit 100, is_first_rtt_sample = True,
      unacknowledged_packets = [], last_packet_received_time = now,
      has_pending_ack_to_send = False, last_ack_flush_time = None,
      stats_retransmits = 0, stats_ack_only_sent = 0\<rparr>"

section \<open>Operations\<close>

text \<open>The subtraction \<open>s1 - s2\<close> is guarded by \<open>s1 > s2\<close>.\<close>

definition is_sequence_more_recent :: "u16 \<Rightarrow> u16 \<Rightarrow> bool" where
  "is_sequence_more_recent s1 s2 \<longleftrightarrow>
     (s2 < s1 \<and> s1 - s2 < 0x8000) \<or> (s1 < s2 \<and> 0x8000 < s2 - s1)"

definition apply_rtt_sample :: "f32 \<Rightarrow> reliable_state \<Rightarrow> reliable_state" where
  "apply_rtt_sample sample s =
     (let s1 =
        (if is_first_rtt_sample s then
           s\<lparr>smoothed_rtt_ms := sample, rtt_variance_ms := sample * f32_lit (1 / 2),
             is_first_rtt_sample := False\<rparr>
         else
           let delta = sample - smoothed_rtt_ms s in
           s\<lparr>smoothed_rtt_ms := smoothed_rtt_ms s + f32_lit (1 / 8) * delta,
             rtt_variance_ms :=
               rtt_variance_ms s + f32_lit (1 / 4) * (\<bar>delta\<bar> - rtt_variance_ms s)\<rparr>)
      in s1\<lparr>retransmission_timeout_ms :=
              f32_clamp (smoothed_rtt_ms s1 + f32_lit 4 * rtt_variance_ms s1)
                (f32_lit 30) (f32_lit 500)\<rparr>)"

text \<open>
  The closure of \<open>retain_mut\<close>: whether the header acknowledges the packet. The shift amount
  \<open>diff - 1\<close> is at most 31.
\<close>

definition packet_acked :: "reliability_packet_header \<Rightarrow> unacked_packet \<Rightarrow> bool" where
  "packet_acked h pkt =
     (if up_sequence pkt = rh_ack h then True
      else if is_sequence_more_recent (rh_ack h) (up_sequence pkt) then
        let diff = rh_ack h - up_sequence pkt in
        0 < diff \<and> diff \<le> 32 \<and> drop_bit (unat (diff - 1)) (rh_ack_bitfield h) AND 1 = 1
      else False)"

definition process_acks ::
  "reliability_packet_header \<Rightarrow> instant \<Rightarrow> reliable_state \<Rightarrow> reliable_state" where
  "process_acks h now s =
     (let pkts = unacknowledged_packets s;
          rtt_samples = map (\<lambda>pkt. elapsed_ms_f32 now (up_time_sent pkt))
            (filter (\<lambda>pkt. packet_acked h pkt \<and> up_retries pkt = 0) pkts)
      in fold apply_rtt_sample rtt_samples
           (s\<lparr>unacknowledged_packets := filter (\<lambda>pkt. \<not> packet_acked h pkt) pkts\<rparr>))"

definition update_receive_window ::
  "profile \<Rightarrow> u16 \<Rightarrow> reliable_state \<Rightarrow> (reliable_state \<times> bool) option" where
  "update_receive_window p sequence s =
     (if is_sequence_more_recent sequence (highest_received_sequence s) then
        let diff = sequence - highest_received_sequence s in
        Some (s\<lparr>received_sequence_bitfield :=
                  (if diff < 32
                   then push_bit (unat diff) (received_sequence_bitfield s) OR 1 else 1),
                highest_received_sequence := sequence,
                has_pending_ack_to_send := True\<rparr>, True)
      else
        let diff = highest_received_sequence s - sequence in
        if diff = 0 \<or> 32 < diff then Some (s, False)
        else do {
          shifted \<leftarrow> shr_u p (received_sequence_bitfield s) (unat diff);
          if shifted AND 1 = 1 then Some (s, False)
          else do {
            mask \<leftarrow> shl_u p 1 (unat diff);
            Some (s\<lparr>received_sequence_bitfield := received_sequence_bitfield s OR mask,
                    has_pending_ack_to_send := True\<rparr>, True)
          }
        })"

definition process_incoming_header ::
  "profile \<Rightarrow> reliability_packet_header \<Rightarrow> instant \<Rightarrow> reliable_state
    \<Rightarrow> (reliable_state \<times> bool) option" where
  "process_incoming_header p h now s =
     update_receive_window p (rh_sequence h)
       (process_acks h now (s\<lparr>last_packet_received_time := now\<rparr>))"

fun retransmit_loop ::
  "profile \<Rightarrow> instant \<Rightarrow> unacked_packet list \<Rightarrow> f32 \<Rightarrow> u32
    \<Rightarrow> (unacked_packet list \<times> f32 \<times> u32 \<times> bytes list) option" where
  "retransmit_loop p now [] rto stats = Some ([], rto, stats, [])"
| "retransmit_loop p now (pkt # pkts) rto stats =
     (if rto \<le> elapsed_ms_f32 now (up_time_sent pkt) then do {
        retries \<leftarrow> add_u p (up_retries pkt) 1;
        stats1 \<leftarrow> add_u p stats 1;
        (pkts', rto', stats', out) \<leftarrow>
          retransmit_loop p now pkts (f32_min (rto * f32_lit (3 / 2)) (f32_lit 2000)) stats1;
        Some (pkt\<lparr>up_time_sent := now, up_retries := retries\<rparr> # pkts', rto', stats',
              up_data pkt # out)
      }
      else do {
        (pkts', rto', stats', out) \<leftarrow> retransmit_loop p now pkts rto stats;
        Some (pkt # pkts', rto', stats', out)
      })"

definition process_retransmissions ::
  "profile \<Rightarrow> instant \<Rightarrow> reliable_state \<Rightarrow> (reliable_state \<times> bytes list) option" where
  "process_retransmissions p now s = do {
     (pkts, rto, stats, out) \<leftarrow>
       retransmit_loop p now (unacknowledged_packets s) (retransmission_timeout_ms s)
         (stats_retransmits s);
     Some (s\<lparr>unacknowledged_packets := pkts, retransmission_timeout_ms := rto,
             stats_retransmits := stats\<rparr>, out)
   }"

definition is_timed_out :: "instant \<Rightarrow> duration \<Rightarrow> reliable_state \<Rightarrow> bool" where
  "is_timed_out now timeout s \<longleftrightarrow>
     timeout < duration_since now (last_packet_received_time s)"

section \<open>Sequence numbers\<close>

lemma half_range: "(x :: nat) = 2 ^ 16 - y \<Longrightarrow> y < 2 ^ 16 \<Longrightarrow> x < 0x8000 \<longleftrightarrow> 0x8000 < y"
  by auto

lemma sequence_more_recent_unat:
  "is_sequence_more_recent s1 s2 \<longleftrightarrow> s1 \<noteq> s2 \<and> unat (s1 - s2) < 0x8000"
proof -
  have lt: "unat (s2 - s1) < 2 ^ 16" by (rule less_le_trans [OF unsigned_less]) simp
  show ?thesis
  proof (cases s1 s2 rule: linorder_cases)
    case less
    then have "unat (s1 - s2) = 2 ^ 16 - unat (s2 - s1)"
      using unat_diff_swap [of s1 s2] by auto
    then have "unat (s1 - s2) < 0x8000 \<longleftrightarrow> 0x8000 < unat (s2 - s1)"
      using lt by (rule half_range)
    with less show ?thesis
      by (auto simp: is_sequence_more_recent_def word_less_nat_alt)
  qed (auto simp: is_sequence_more_recent_def word_less_nat_alt)
qed

text \<open>
  The numbers on the wire are unbounded sequence numbers modulo \<open>2 ^ 16\<close>; two of them that are
  less than half the range apart are compared as the unbounded numbers are.
\<close>

lemma of_nat_eq16: "m \<le> n \<Longrightarrow> n - m < 2 ^ 16 \<Longrightarrow> (of_nat n :: u16) = of_nat m \<longleftrightarrow> m = n"
  using unat_of_nat_diff [of m n, where 'a = 16] by auto

lemma sequence_more_recent_of_nat:
  assumes "n - m < 2 ^ 15" "m - n < 2 ^ 15"
  shows "is_sequence_more_recent (of_nat m) (of_nat n) \<longleftrightarrow> n < m"
proof (cases "n \<le> m")
  case True
  then have "unat (of_nat m - of_nat n :: u16) = m - n"
    using assms by (intro unat_of_nat_diff) auto
  with True assms of_nat_eq16 [of n m] show ?thesis
    by (auto simp: sequence_more_recent_unat)
next
  case False
  then have d: "unat (of_nat n - of_nat m :: u16) = n - m"
    using assms by (intro unat_of_nat_diff) auto
  have "(of_nat m :: u16) \<noteq> of_nat n"
    using False assms of_nat_eq16 [of m n] by auto
  then have "unat (of_nat m - of_nat n :: u16) = 2 ^ 16 - (n - m)"
    using unat_diff_swap [of "of_nat m :: u16" "of_nat n"] d by simp
  with False assms show ?thesis
    by (auto simp: sequence_more_recent_unat)
qed

end
