(* ===== verification/Rx_Window.thy ===== *)
theory Rx_Window
  imports Protocol
begin

text \<open>
  The receive window of a reliable connection is a duplicate filter. Sequence numbers on the wire
  are the unbounded numbers \<open>1, 2, 3, \<dots>\<close> modulo \<open>2 ^ 16\<close>. The state keeps the highest
  received one and 32 bits, bit \<open>i\<close> for the number \<open>i\<close> below the highest. As long as an
  arriving number is less than half the range away from the highest, \<open>update_receive_window\<close>
  refines the abstract filter of \<open>Replay_Window\<close> of width 32. With overflow checks, the number
  exactly 32 below the highest is excluded: there the shift of the source overflows.
\<close>

definition rx_rel :: "nat \<Rightarrow> nat set \<Rightarrow> reliable_state \<Rightarrow> bool" where
  "rx_rel t G s \<longleftrightarrow>
     highest_received_sequence s = of_nat t \<and> G \<subseteq> {..t} \<and> t \<in> G \<and>
     (\<forall>i<32. bit (received_sequence_bitfield s) i \<longleftrightarrow> i < t \<and> t - i \<in> G)"

definition rx_step :: "profile \<Rightarrow> nat \<Rightarrow> reliable_state \<Rightarrow> (reliable_state \<times> bool) option" where
  "rx_step p n s = update_receive_window p (of_nat n) s"

definition rx_range :: "profile \<Rightarrow> nat \<Rightarrow> nat \<Rightarrow> bool" where
  "rx_range p t n \<longleftrightarrow> 0 < n \<and> n - t < 2 ^ 15 \<and> t - n < 2 ^ 15 \<and> (p = Debug \<longrightarrow> t - n \<noteq> 32)"

text \<open>Nothing was received: the number 0, which no sender uses, counts as received.\<close>

lemma rx_rel_new: "rx_rel 0 {0} (reliable_new now)"
  by (simp add: rx_rel_def reliable_new_def)

lemma rx_newer:
  assumes rel: "rx_rel t G s" and n: "t < n" "n - t < 2 ^ 15"
  shows "\<exists>s'. rx_step p n s = Some (s', True) \<and> rx_rel n (insert n G) s'"
proof -
  let ?bf = "received_sequence_bitfield s"
  define bf' where "bf' = (if n - t < 32 then push_bit (n - t) ?bf OR 1 else 1)"
  have hi: "highest_received_sequence s = of_nat t" and G: "G \<subseteq> {..t}"
    and bits: "\<forall>i<32. bit ?bf i \<longleftrightarrow> i < t \<and> t - i \<in> G"
    using rel by (simp_all add: rx_rel_def)
  have d: "unat (of_nat n - of_nat t :: u16) = n - t"
    using n by (intro unat_of_nat_diff) auto
  have "is_sequence_more_recent (of_nat n) (highest_received_sequence s)"
    using n by (simp add: hi sequence_more_recent_of_nat)
  then have step: "rx_step p n s =
      Some (s\<lparr>received_sequence_bitfield := bf', highest_received_sequence := of_nat n,
              has_pending_ack_to_send := True\<rparr>, True)"
    by (simp add: rx_step_def update_receive_window_def hi Let_def word_less_nat_alt d bf'_def)
  have "bit bf' i \<longleftrightarrow> i < n \<and> n - i \<in> insert n G" if i: "i < 32" for i
  proof (cases "n - t \<le> i")
    case True
    then have "n - i = t - (i - (n - t))" "n - i \<noteq> n" "bit bf' i \<longleftrightarrow> bit ?bf (i - (n - t))"
      using n i by (auto simp: bf'_def bit_simps)
    moreover have "i - (n - t) < t \<longleftrightarrow> i < n" using True n by auto
    moreover have "bit ?bf (i - (n - t)) \<longleftrightarrow> i - (n - t) < t \<and> t - (i - (n - t)) \<in> G"
      using bits i by simp
    ultimately show ?thesis by simp
  next
    case False
    then have "n - i \<in> insert n G \<longleftrightarrow> i = 0" using G n by auto
    moreover have "bit bf' i \<longleftrightarrow> i = 0" using False by (auto simp: bf'_def bit_simps)
    ultimately show ?thesis using n by auto
  qed
  then show ?thesis
    using G n by (auto simp: step rx_rel_def)
qed

lemma rx_older:
  assumes rel: "rx_rel t G s" and n: "0 < n" "n \<le> t" "t - n < 2 ^ 15"
    and p: "p = Debug \<longrightarrow> t - n \<noteq> 32"
  shows "\<exists>s'. rx_step p n s = Some (s', t - n < 32 \<and> n \<notin> G) \<and>
    rx_rel t (if t - n < 32 \<and> n \<notin> G then insert n G else G) s'"
proof -
  let ?bf = "received_sequence_bitfield s"
  have hi: "highest_received_sequence s = of_nat t" and G: "G \<subseteq> {..t}" and tG: "t \<in> G"
    and bits: "\<forall>i<32. bit ?bf i \<longleftrightarrow> i < t \<and> t - i \<in> G"
    using rel by (simp_all add: rx_rel_def)
  have d: "unat (of_nat t - of_nat n :: u16) = t - n"
    using n by (intro unat_of_nat_diff) auto
  have old: "\<not> is_sequence_more_recent (of_nat n) (highest_received_sequence s)"
    using n by (simp add: hi sequence_more_recent_of_nat)
  have d0: "(of_nat t :: u16) = of_nat n \<longleftrightarrow> t = n"
    using of_nat_eq16 [of n t] n by auto
  consider "t = n" | "t - n = 32" | "32 < t - n" | "0 < t - n" "t - n < 32" "n \<in> G"
    | "0 < t - n" "t - n < 32" "n \<notin> G"
    using n(2) by atomize_elim auto
  then show ?thesis
  proof cases
    case 1
    then show ?thesis using rel tG
      by (simp add: rx_step_def update_receive_window_def hi sequence_more_recent_of_nat)
  next
    case 2
    then have "p = Release" "bit ?bf 0" "t \<noteq> n" using p bits tG by (cases p; auto)+
    then show ?thesis using 2 rel old
      by (simp add: rx_step_def update_receive_window_def hi Let_def word_less_nat_alt d d0
          drop_bit_and_1 [of 0, simplified])
  next
    case 3
    then show ?thesis using rel old
      by (simp add: rx_step_def update_receive_window_def hi Let_def word_less_nat_alt d d0)
  next
    case 4
    then have "bit ?bf (t - n)" using bits n by auto
    then show ?thesis using 4 rel old
      by (simp add: rx_step_def update_receive_window_def hi Let_def word_less_nat_alt d d0
          checked_simps drop_bit_and_1)
  next
    case 5
    let ?m = "?bf OR push_bit (t - n) 1"
    have "\<not> bit ?bf (t - n)" using bits n 5 by auto
    then have step: "rx_step p n s =
        Some (s\<lparr>received_sequence_bitfield := ?m, has_pending_ack_to_send := True\<rparr>, True)"
      using 5 old
      by (simp add: rx_step_def update_receive_window_def hi Let_def word_less_nat_alt d d0
          checked_simps drop_bit_and_1)
    have "bit ?m i \<longleftrightarrow> i < t \<and> t - i \<in> insert n G" if "i < 32" for i
      using bits that n 5 by (auto simp: bit_simps)
    then show ?thesis
      using 5 n G tG hi by (auto simp: step rx_rel_def simp del: push_bit_of_1)
  qed
qed

interpretation rx: window_filter rx_rel "rx_step p" "rx_range p" 32 for p
proof
  fix t G s n
  assume rel: "rx_rel t G s"
  then show "G \<subseteq> {..t}" by (simp add: rx_rel_def)
  assume ok: "rx_range p t n"
  show "\<exists>s'. rx_step p n s = Some (s', window_accepts 32 t G n) \<and>
      rx_rel (window_top 32 t G n) (window_seen 32 t G n) s'"
  proof (cases "t < n")
    case True
    with rx_newer [OF rel, of n p] ok show ?thesis
      by (simp add: rx_range_def window_top_def window_seen_def window_accepts_def max_def)
  next
    case False
    with rx_older [OF rel, of n p] ok show ?thesis
      by (auto simp: rx_range_def window_top_def window_seen_def window_accepts_def max_def)
  qed
qed

section \<open>Properties\<close>

text \<open>
  C20: the receive window of a new reliable connection refines the unbounded duplicate filter of width
  32: for every arrival sequence in which each number is less than half the range away from the
  highest one (and, with overflow checks, not exactly 32 below it), it accepts the same numbers, none
  of them twice.
\<close>

theorem receive_window_refines:
  assumes "window_run_ok (rx_range p) 32 0 {0} ns"
  shows "\<exists>ms. window_run (rx_step p) ns (reliable_new now) = Some ms \<and>
    ms = window_spec_run 32 0 {0} ns \<and> distinct ms"
  using rx.run_refines [OF rx_rel_new assms] rx.run_accepts_once [OF rx_rel_new assms] by auto

theorem receive_window_refines_witness:
  "\<exists>ms. window_run (rx_step Debug) [1, 3, 2, 3, 40, 7] (reliable_new 0) = Some ms \<and>
    ms = [1, 3, 2, 40] \<and> distinct ms"
  using receive_window_refines [of Debug "[1, 3, 2, 3, 40, 7]" 0]
  by (simp add: rx_range_def window_top_def window_seen_def window_accepts_def Let_def)

end
