(* ===== verification/Reliability.thy ===== *)
theory Reliability
  imports Rx_Window
begin

text \<open>
  The sending side of a reliable connection: the round-trip estimator stays within its bounds, a
  retransmission run resends what is due and loses nothing, and a header releases the packets that
  its acknowledgement fields name.
\<close>

section \<open>The estimator\<close>

text \<open>Measured times and averages are below \<open>2 ^ 75\<close> milliseconds; the clock has 64-bit seconds.\<close>

definition clock_ok :: "instant \<Rightarrow> bool" where
  "clock_ok now \<longleftrightarrow> 0 \<le> now \<and> now < 2 ^ 64 * 10 ^ 9"

definition ms_ok :: "f32 \<Rightarrow> bool" where
  "ms_ok x \<longleftrightarrow> f32_within 0 (2 ^ 75) x"

definition rtt_ok :: "reliable_state \<Rightarrow> bool" where
  "rtt_ok s \<longleftrightarrow>
     ms_ok (smoothed_rtt_ms s) \<and> ms_ok (rtt_variance_ms s) \<and>
     f32_within 30 2000 (retransmission_timeout_ms s)"

definition sent_ok :: "reliable_state \<Rightarrow> bool" where
  "sent_ok s \<longleftrightarrow> (\<forall>pkt \<in> set (unacknowledged_packets s). 0 \<le> up_time_sent pkt)"

lemma f32_literals [simp]:
  "f32_lit 0 = Fin 0" "f32_lit 4 = Fin 4" "f32_lit 30 = Fin 30" "f32_lit 100 = Fin 100"
  "f32_lit 500 = Fin 500" "f32_lit 1000 = Fin 1000" "f32_lit 2000 = Fin 2000"
  "f32_lit (1 / 2) = Fin (1 / 2)" "f32_lit (1 / 4) = Fin (1 / 4)" "f32_lit (1 / 8) = Fin (1 / 8)"
  "f32_lit (3 / 2) = Fin (3 / 2)"
  using rnd_dyadic [of 1 1] rnd_dyadic [of 1 2] rnd_dyadic [of 1 3] rnd_dyadic [of 3 1]
  by (simp_all add: f32_lit_exact rnd_numeral f32_max_exp_def)

lemma rtt_ok_new: "rtt_ok (reliable_new now)" and sent_ok_new: "sent_ok (reliable_new now)"
  by (simp_all add: rtt_ok_def sent_ok_def ms_ok_def reliable_new_def rnd_numeral)

lemma elapsed_ms_ok: "0 \<le> earlier \<Longrightarrow> clock_ok now \<Longrightarrow> ms_ok (elapsed_ms_f32 now earlier)"
  unfolding ms_ok_def clock_ok_def by (intro elapsed_within) auto

lemma rto_clamped:
  assumes "f32_within 0 (2 ^ 75) a" "f32_within 0 (2 ^ 75) b"
  shows "f32_within 30 500 (f32_clamp (a + f32_lit 4 * b) (f32_lit 30) (f32_lit 500))"
proof -
  obtain p q where p: "a = Fin p" "0 \<le> p" "p \<le> 2 ^ 75" and q: "b = Fin q" "0 \<le> q" "q \<le> 2 ^ 75"
    using assms by (auto elim!: f32_withinE)
  have "4 * q \<le> 2 ^ 77" using q(3) by simp
  then have "f32_within 0 (2 ^ 77) (f32_round (4 * q))"
    using q(2) by (intro f32_round_within0) auto
  then have "f32_within 0 (2 ^ 77) (f32_lit 4 * b)" by (simp add: f32_ops q(1))
  moreover have "f32_within 0 (2 ^ 77) a"
    using assms(1) by (rule f32_within_mono) auto
  ultimately have "f32_within 0 (2 ^ Suc 77) (a + f32_lit 4 * b)"
    by (intro f32_add_within) auto
  then show ?thesis
    unfolding f32_literals by (rule f32_clamp_within) (auto simp: rnd_numeral)
qed

lemma apply_rtt_sample_ok:
  assumes ok: "rtt_ok s" and sample_ok: "ms_ok x"
  shows "rtt_ok (apply_rtt_sample x s)"
    and "f32_within 30 500 (retransmission_timeout_ms (apply_rtt_sample x s))"
proof -
  have sample: "f32_within 0 (2 ^ 75) x" using sample_ok by (simp only: ms_ok_def)
  have srtt: "f32_within 0 (2 ^ 75) (smoothed_rtt_ms s)"
    and var: "f32_within 0 (2 ^ 75) (rtt_variance_ms s)"
    using ok by (simp_all only: rtt_ok_def ms_ok_def)
  obtain q where q: "x = Fin q" "0 \<le> q" "q \<le> 2 ^ 75" using sample by (rule f32_withinE)
  have half: "f32_within 0 (2 ^ 75) (x * f32_lit (1 / 2))"
    using q f32_round_within0 [of "q * (1 / 2)" 75] by (simp add: f32_ops)
  have s: "f32_within 0 (2 ^ 75) (smoothed_rtt_ms (apply_rtt_sample x s))"
    using sample f32_ema_within [OF srtt sample, of "1 / 8"]
    by (simp add: apply_rtt_sample_def Let_def)
  have "f32_within 0 (2 ^ 75) \<bar>x - smoothed_rtt_ms s\<bar>"
    by (intro f32_diff_within sample srtt) simp
  then have v: "f32_within 0 (2 ^ 75) (rtt_variance_ms (apply_rtt_sample x s))"
    using half f32_ema_within [OF var, of "\<bar>x - smoothed_rtt_ms s\<bar>" "1 / 4"]
    by (simp add: apply_rtt_sample_def Let_def)
  have "retransmission_timeout_ms (apply_rtt_sample x s) =
      f32_clamp (smoothed_rtt_ms (apply_rtt_sample x s)
        + f32_lit 4 * rtt_variance_ms (apply_rtt_sample x s)) (f32_lit 30) (f32_lit 500)"
    by (simp add: apply_rtt_sample_def Let_def)
  with rto_clamped [OF s v]
  show r: "f32_within 30 500 (retransmission_timeout_ms (apply_rtt_sample x s))" by simp
  show "rtt_ok (apply_rtt_sample x s)"
    using s v f32_within_mono [OF r, of 30 2000] by (simp add: rtt_ok_def ms_ok_def)
qed

lemma apply_rtt_samples_ok:
  "rtt_ok s \<Longrightarrow> \<forall>x \<in> set xs. ms_ok x \<Longrightarrow> rtt_ok (fold apply_rtt_sample xs s)"
  by (induction xs arbitrary: s) (auto intro: apply_rtt_sample_ok(1))

text \<open>The estimator writes its own fields only.\<close>

lemma apply_rtt_samples_frame [simp]:
  "unacknowledged_packets (fold apply_rtt_sample xs s) = unacknowledged_packets s"
  "highest_received_sequence (fold apply_rtt_sample xs s) = highest_received_sequence s"
  "received_sequence_bitfield (fold apply_rtt_sample xs s) = received_sequence_bitfield s"
  "next_outgoing_sequence (fold apply_rtt_sample xs s) = next_outgoing_sequence s"
  "last_packet_received_time (fold apply_rtt_sample xs s) = last_packet_received_time s"
  "stats_retransmits (fold apply_rtt_sample xs s) = stats_retransmits s"
  by (induction xs arbitrary: s; simp add: apply_rtt_sample_def Let_def)+

lemma process_acks_frame [simp]:
  "highest_received_sequence (process_acks h now s) = highest_received_sequence s"
  "received_sequence_bitfield (process_acks h now s) = received_sequence_bitfield s"
  "next_outgoing_sequence (process_acks h now s) = next_outgoing_sequence s"
  "last_packet_received_time (process_acks h now s) = last_packet_received_time s"
  "stats_retransmits (process_acks h now s) = stats_retransmits s"
  by (simp_all add: process_acks_def Let_def)

lemma process_acks_unacked [simp]:
  "unacknowledged_packets (process_acks h now s) =
    filter (\<lambda>pkt. \<not> packet_acked h pkt) (unacknowledged_packets s)"
  by (simp add: process_acks_def Let_def)

lemma process_acks_ok:
  assumes "rtt_ok s" "sent_ok s" "clock_ok now"
  shows "rtt_ok (process_acks h now s)" "sent_ok (process_acks h now s)"
proof -
  show "rtt_ok (process_acks h now s)"
    unfolding process_acks_def Let_def
    using assms
    by (intro apply_rtt_samples_ok)
      (auto simp: rtt_ok_def sent_ok_def intro!: elapsed_ms_ok)
  show "sent_ok (process_acks h now s)"
    using assms(2) by (auto simp: sent_ok_def)
qed

lemma update_receive_window_frame:
  assumes "update_receive_window p q s = Some (s', b)"
  shows "unacknowledged_packets s' = unacknowledged_packets s"
    and "rtt_ok s' = rtt_ok s" and "sent_ok s' = sent_ok s"
    and "next_outgoing_sequence s' = next_outgoing_sequence s"
    and "last_packet_received_time s' = last_packet_received_time s"
    and "retransmission_timeout_ms s' = retransmission_timeout_ms s"
    and "stats_retransmits s' = stats_retransmits s"
  using assms
  by (auto simp: update_receive_window_def rtt_ok_def sent_ok_def Let_def bind_Some_conv
      split: if_splits)

lemma process_incoming_header_frame:
  assumes "process_incoming_header p h now s = Some (s', accepted)"
  shows "unacknowledged_packets s' =
      filter (\<lambda>pkt. \<not> packet_acked h pkt) (unacknowledged_packets s) \<and>
    next_outgoing_sequence s' = next_outgoing_sequence s \<and> last_packet_received_time s' = now"
  using update_receive_window_frame [of p "rh_sequence h"
      "process_acks h now (s\<lparr>last_packet_received_time := now\<rparr>)" s' accepted] assms
  by (auto simp: process_incoming_header_def)

lemma process_incoming_header_ok:
  assumes "rtt_ok s" "sent_ok s" "clock_ok now"
    and "process_incoming_header p h now s = Some (s', b)"
  shows "rtt_ok s'" "sent_ok s'"
proof -
  let ?s = "s\<lparr>last_packet_received_time := now\<rparr>"
  have "rtt_ok ?s" "sent_ok ?s" using assms(1,2) by (simp_all add: rtt_ok_def sent_ok_def)
  then show "rtt_ok s'" "sent_ok s'"
    using process_acks_ok [of ?s now h] assms(3,4)
      update_receive_window_frame(2,3) [of p "rh_sequence h" "process_acks h now ?s" s' b]
    by (simp_all add: process_incoming_header_def)
qed

section \<open>Retransmission\<close>

lemma rto_backoff:
  assumes "f32_within 30 2000 rto"
  shows "f32_within 30 2000 (f32_min (rto * f32_lit (3 / 2)) (f32_lit 2000))"
    and "rto \<le> f32_min (rto * f32_lit (3 / 2)) (f32_lit 2000)"
proof -
  obtain q where q: "rto = Fin q" "30 \<le> q" "q \<le> 2000" "rnd q = q"
    using assms by (rule f32_withinE)
  have r: "q \<le> rnd (q * (3 / 2))" "rnd (q * (3 / 2)) \<le> 4096"
    using rnd_mono [of q "q * (3 / 2)"] rnd_mono [of "q * (3 / 2)" 4096] q
    by (simp_all add: rnd_numeral)
  then have "f32_round (q * (3 / 2)) = Fin (rnd (q * (3 / 2)))"
    using q by (simp add: f32_round_def f32_max_exp_def)
  then have m: "f32_min (rto * f32_lit (3 / 2)) (f32_lit 2000) =
      Fin (min (rnd (q * (3 / 2))) 2000)"
    by (auto simp: f32_min_def f32_ops q(1) min_def)
  show "f32_within 30 2000 (f32_min (rto * f32_lit (3 / 2)) (f32_lit 2000))"
    unfolding m using q r by (auto simp: rnd_numeral min_def)
  show "rto \<le> f32_min (rto * f32_lit (3 / 2)) (f32_lit 2000)"
    unfolding m using q r by (simp add: f32_ops)
qed

text \<open>What a run of the loop does, with the list of the packets that were due.\<close>

definition retransmitted ::
  "instant \<Rightarrow> bool list \<Rightarrow> unacked_packet list \<Rightarrow> unacked_packet list" where
  "retransmitted now due pkts =
     map2 (\<lambda>d pkt. if d then pkt\<lparr>up_time_sent := now, up_retries := up_retries pkt + 1\<rparr> else pkt)
       due pkts"

definition resent_data :: "bool list \<Rightarrow> unacked_packet list \<Rightarrow> bytes list" where
  "resent_data due pkts = map (up_data \<circ> snd) (filter fst (zip due pkts))"

lemma f32_le_trans: "(x :: f32) \<le> y \<Longrightarrow> y \<le> z \<Longrightarrow> x \<le> z"
  by (cases x; cases y; cases z) (auto simp: f32_ops)

lemma retransmit_loop_ConsE:
  assumes "retransmit_loop p now (pkt # pkts) rto stats = Some (pkts', rto', stats', out)"
  defines "d \<equiv> rto \<le> elapsed_ms_f32 now (up_time_sent pkt)"
  obtains qs o' where
    "retransmit_loop p now pkts
       (if d then f32_min (rto * f32_lit (3 / 2)) (f32_lit 2000) else rto)
       (if d then stats + 1 else stats) = Some (qs, rto', stats', o')"
    "pkts' = (if d then pkt\<lparr>up_time_sent := now, up_retries := up_retries pkt + 1\<rparr> else pkt) # qs"
    "out = (if d then up_data pkt # o' else o')"
  using assms
  by (cases d) (auto simp: bind_Some_conv simp del: f32_literals dest!: add_u_SomeD)

text \<open>
  The timeout after a resend. Within a pass every resend backs it off, so that a packet is measured
  against the timeout backed off once for each packet resent before it.
\<close>

definition backoff :: "f32 \<Rightarrow> f32" where
  "backoff rto = f32_min (rto * f32_lit (3 / 2)) (f32_lit 2000)"

lemma backoff_iterate:
  assumes "f32_within 30 2000 rto"
  shows "f32_within 30 2000 ((backoff ^^ n) rto) \<and> rto \<le> (backoff ^^ n) rto"
proof (induction n)
  case 0
  show ?case using assms by (auto simp: f32_ops elim!: f32_withinE)
next
  case (Suc n)
  with rto_backoff [of "(backoff ^^ n) rto", folded backoff_def] f32_le_trans show ?case by auto
qed

definition due_exactly :: "instant \<Rightarrow> f32 \<Rightarrow> unacked_packet list \<Rightarrow> bool list \<Rightarrow> bool" where
  "due_exactly now rto pkts due \<longleftrightarrow> length due = length pkts \<and>
     (\<forall>i < length pkts. due ! i \<longleftrightarrow>
        (backoff ^^ length (filter id (take i due))) rto \<le> elapsed_ms_f32 now (up_time_sent (pkts ! i)))"

lemma due_exactly_Cons:
  assumes "d \<longleftrightarrow> rto \<le> elapsed_ms_f32 now (up_time_sent pkt)"
    and "due_exactly now (if d then backoff rto else rto) pkts due"
  shows "due_exactly now rto (pkt # pkts) (d # due)"
  unfolding due_exactly_def
proof (intro conjI allI impI)
  fix i
  assume "i < length (pkt # pkts)"
  then show "(d # due) ! i \<longleftrightarrow> (backoff ^^ length (filter id (take i (d # due)))) rto
      \<le> elapsed_ms_f32 now (up_time_sent ((pkt # pkts) ! i))"
    using assms by (cases i) (auto simp: due_exactly_def funpow_Suc_right simp del: funpow.simps)
qed (use assms(2) in \<open>simp add: due_exactly_def\<close>)

lemma due_exactly_bounds:
  assumes "due_exactly now rto pkts due" "f32_within 30 2000 rto" "i < length pkts"
  shows "due ! i \<Longrightarrow> rto \<le> elapsed_ms_f32 now (up_time_sent (pkts ! i))"
    and "f32_lit 2000 \<le> elapsed_ms_f32 now (up_time_sent (pkts ! i)) \<Longrightarrow> due ! i"
proof -
  let ?k = "length (filter id (take i due))"
  note it = backoff_iterate [OF assms(2), of ?k]
  have exact: "due ! i \<longleftrightarrow> (backoff ^^ ?k) rto \<le> elapsed_ms_f32 now (up_time_sent (pkts ! i))"
    using assms(1,3) by (simp add: due_exactly_def)
  show "rto \<le> elapsed_ms_f32 now (up_time_sent (pkts ! i))" if "due ! i"
    using that exact it f32_le_trans by blast
  have "(backoff ^^ ?k) rto \<le> f32_lit 2000" using it by (auto simp: f32_ops elim!: f32_withinE)
  then show "due ! i" if "f32_lit 2000 \<le> elapsed_ms_f32 now (up_time_sent (pkts ! i))"
    using that exact f32_le_trans by blast
qed

lemma retransmit_loop_spec:
  assumes "retransmit_loop p now pkts rto stats = Some (pkts', rto', stats', out)"
  shows "\<exists>due. due_exactly now rto pkts due \<and> pkts' = retransmitted now due pkts \<and>
    out = resent_data due pkts \<and> rto' = (backoff ^^ length out) rto \<and>
    stats' = stats + of_nat (length out)"
  using assms
proof (induction pkts arbitrary: rto stats pkts' rto' stats' out)
  case Nil
  then show ?case by (simp add: retransmitted_def resent_data_def due_exactly_def)
next
  case (Cons pkt pkts)
  let ?d = "rto \<le> elapsed_ms_f32 now (up_time_sent pkt)"
  obtain qs o' where rec: "retransmit_loop p now pkts (if ?d then backoff rto else rto)
      (if ?d then stats + 1 else stats) = Some (qs, rto', stats', o')"
    and pkts': "pkts' = (if ?d then pkt\<lparr>up_time_sent := now, up_retries := up_retries pkt + 1\<rparr>
      else pkt) # qs"
    and out: "out = (if ?d then up_data pkt # o' else o')"
    unfolding backoff_def by (rule retransmit_loop_ConsE [OF Cons.prems(1)])
  from Cons.IH [OF rec] obtain due where due:
    "due_exactly now (if ?d then backoff rto else rto) pkts due" "qs = retransmitted now due pkts"
    "o' = resent_data due pkts" "rto' = (backoff ^^ length o') (if ?d then backoff rto else rto)"
    "stats' = (if ?d then stats + 1 else stats) + of_nat (length o')"
    by blast
  have "due_exactly now rto (pkt # pkts) (?d # due)" by (rule due_exactly_Cons [OF refl due(1)])
  moreover have "pkts' = retransmitted now (?d # due) (pkt # pkts)"
    unfolding pkts' due(2) retransmitted_def by simp
  moreover have "out = resent_data (?d # due) (pkt # pkts)"
    unfolding out due(3) resent_data_def by simp
  moreover have "rto' = (backoff ^^ length out) rto"
    unfolding out due(4) by (simp add: funpow_Suc_right del: funpow.simps)
  moreover have "stats' = stats + of_nat (length out)" unfolding out due(5) by simp
  ultimately show ?case by blast
qed

lemma process_retransmissions_spec:
  assumes "process_retransmissions p now s = Some (s', out)"
  shows "\<exists>due. due_exactly now (retransmission_timeout_ms s) (unacknowledged_packets s) due \<and>
    unacknowledged_packets s' = retransmitted now due (unacknowledged_packets s) \<and>
    out = resent_data due (unacknowledged_packets s) \<and>
    retransmission_timeout_ms s' = (backoff ^^ length out) (retransmission_timeout_ms s) \<and>
    stats_retransmits s' = stats_retransmits s + of_nat (length out)"
proof -
  obtain rto stats where loop: "retransmit_loop p now (unacknowledged_packets s)
      (retransmission_timeout_ms s) (stats_retransmits s) =
      Some (unacknowledged_packets s', rto, stats, out)"
    and "rto = retransmission_timeout_ms s'" "stats = stats_retransmits s'"
    using assms by (auto simp: process_retransmissions_def bind_Some_conv)
  with retransmit_loop_spec [OF loop] show ?thesis by (simp only:)
qed

lemma process_retransmissions_ok:
  assumes "process_retransmissions p now s = Some (s', out)" "rtt_ok s"
  shows "rtt_ok s'"
proof -
  have "f32_within 30 2000 (retransmission_timeout_ms s')"
    using process_retransmissions_spec [OF assms(1)] backoff_iterate assms(2) by (auto simp: rtt_ok_def)
  with assms show ?thesis by (auto simp: process_retransmissions_def rtt_ok_def bind_Some_conv)
qed

lemma retransmit_loop_total: "\<exists>r. retransmit_loop Release now pkts rto stats = Some r"
proof (induction pkts arbitrary: rto stats)
  case Nil
  then show ?case by simp
next
  case (Cons pkt pkts)
  let ?due = "rto \<le> elapsed_ms_f32 now (up_time_sent pkt)"
  from Cons.IH [of "if ?due then f32_min (rto * f32_lit (3 / 2)) (f32_lit 2000) else rto"
      "if ?due then stats + 1 else stats"]
  show ?case by (cases ?due) (auto simp del: f32_literals)
qed

lemma process_retransmissions_total: "\<exists>r. process_retransmissions Release now s = Some r"
  using retransmit_loop_total [of now "unacknowledged_packets s" "retransmission_timeout_ms s"
      "stats_retransmits s"]
  by (auto simp: process_retransmissions_def split: prod.splits)

lemma retransmitted_keys:
  "length due = length pkts \<Longrightarrow>
    map up_sequence (retransmitted now due pkts) = map up_sequence pkts \<and>
    map up_data (retransmitted now due pkts) = map up_data pkts"
  by (induction due pkts rule: list_induct2) (auto simp: retransmitted_def)

lemma retransmitted_times:
  "length due = length pkts \<Longrightarrow> 0 \<le> now \<Longrightarrow> \<forall>pkt \<in> set pkts. 0 \<le> up_time_sent pkt \<Longrightarrow>
    \<forall>pkt \<in> set (retransmitted now due pkts). 0 \<le> up_time_sent pkt"
  by (induction due pkts rule: list_induct2) (auto simp: retransmitted_def)

section \<open>Acknowledgements\<close>

lemma packet_acked_of_nat:
  assumes "rh_ack h = of_nat a" "up_sequence pkt = of_nat n" "a - n < 2 ^ 15" "n - a < 2 ^ 15"
  shows "packet_acked h pkt \<longleftrightarrow>
    n = a \<or> (n < a \<and> a - n \<le> 32 \<and> bit (rh_ack_bitfield h) (a - n - 1))"
proof (cases "n < a")
  case True
  then have d: "unat (of_nat a - of_nat n :: u16) = a - n"
    using assms by (intro unat_of_nat_diff) auto
  have ne: "(of_nat n :: u16) \<noteq> of_nat a" using True assms of_nat_eq16 [of n a] by auto
  have "unat (of_nat a - of_nat n - 1 :: u16) = a - n - 1"
    using True d ne unat_sub [of 1 "of_nat a - of_nat n :: u16"]
    by (simp add: word_le_nat_alt)
  with True d ne assms sequence_more_recent_of_nat [of n a] show ?thesis
    by (simp add: packet_acked_def Let_def drop_bit_and_1 word_less_nat_alt word_le_nat_alt)
next
  case False
  with assms sequence_more_recent_of_nat [of n a] of_nat_eq16 [of a n] show ?thesis
    by (auto simp: packet_acked_def)
qed

section \<open>Properties\<close>

text \<open>
  C23: the acknowledgement fields that a receiver sends describe, for a sender, the successors of its
  packets: a packet up to 32 below the acknowledged number is released exactly when the number after
  it was received, whether or not the packet itself was.
\<close>

theorem acks_describe_successor:
  assumes rel: "rx_rel t G r" and pkt: "up_sequence pkt = of_nat n" "n < t" "t - n \<le> 32"
  shows "packet_acked \<lparr>rh_sequence = q, rh_ack = highest_received_sequence r,
      rh_ack_bitfield = received_sequence_bitfield r\<rparr> pkt \<longleftrightarrow> Suc n \<in> G"
proof -
  have hi: "highest_received_sequence r = of_nat t"
    and bits: "\<forall>i<32. bit (received_sequence_bitfield r) i \<longleftrightarrow> i < t \<and> t - i \<in> G"
    using rel by (simp_all add: rx_rel_def)
  have "bit (received_sequence_bitfield r) (t - n - 1) \<longleftrightarrow> t - (t - n - 1) \<in> G"
    using bits pkt by auto
  moreover have "t - (t - n - 1) = Suc n" using pkt by simp
  ultimately show ?thesis
    using packet_acked_of_nat [of "\<lparr>rh_sequence = q, rh_ack = highest_received_sequence r,
        rh_ack_bitfield = received_sequence_bitfield r\<rparr>" t pkt n] pkt
    by (simp add: hi)
qed

theorem acks_describe_successor_witness:
  "\<exists>r. rx_rel 3 {0, 1, 3} r \<and>
    packet_acked \<lparr>rh_sequence = 0, rh_ack = highest_received_sequence r,
        rh_ack_bitfield = received_sequence_bitfield r\<rparr>
      \<lparr>up_sequence = 2, up_time_sent = 0, up_data = [], up_retries = 0\<rparr> \<and>
    \<not> packet_acked \<lparr>rh_sequence = 0, rh_ack = highest_received_sequence r,
        rh_ack_bitfield = received_sequence_bitfield r\<rparr>
      \<lparr>up_sequence = 1, up_time_sent = 0, up_data = [], up_retries = 0\<rparr>"
proof -
  obtain s1 where "rx_rel 1 (insert 1 {0}) s1"
    using rx_newer [OF rx_rel_new, of 1 Release] by auto
  then obtain r where r: "rx_rel 3 (insert 3 (insert 1 {0})) r"
    using rx_newer [of 1 "insert 1 {0}" s1 3 Release] by auto
  then have "rx_rel 3 {0, 1, 3} r" by (simp add: insert_commute)
  then show ?thesis
    using acks_describe_successor [of 3 "{0, 1, 3}" r
        "\<lparr>up_sequence = 2, up_time_sent = 0, up_data = [], up_retries = 0\<rparr>" 2 0]
      acks_describe_successor [of 3 "{0, 1, 3}" r
        "\<lparr>up_sequence = 1, up_time_sent = 0, up_data = [], up_retries = 0\<rparr>" 1 0]
    by auto
qed

text \<open>
  Processing an incoming header releases exactly the acknowledged packets, in place, and leaves
  the numbering of outgoing packets alone.
\<close>

theorem incoming_header_releases:
  assumes "process_incoming_header p h now s = Some (s', accepted)"
  shows "unacknowledged_packets s' =
      filter (\<lambda>pkt. \<not> packet_acked h pkt) (unacknowledged_packets s) \<and>
    next_outgoing_sequence s' = next_outgoing_sequence s \<and>
    last_packet_received_time s' = now \<and>
    (rtt_ok s \<and> sent_ok s \<and> clock_ok now \<longrightarrow> rtt_ok s' \<and> sent_ok s')"
  using process_incoming_header_frame [OF assms] process_incoming_header_ok [OF _ _ _ assms] by blast

theorem incoming_header_releases_witness:
  "\<exists>s' a. process_incoming_header Release \<lparr>rh_sequence = 1, rh_ack = 1, rh_ack_bitfield = 0\<rparr> 5
      ((reliable_new 0)\<lparr>unacknowledged_packets :=
        [\<lparr>up_sequence = 1, up_time_sent = 0, up_data = [7], up_retries = 1\<rparr>,
         \<lparr>up_sequence = 2, up_time_sent = 0, up_data = [8], up_retries = 1\<rparr>]\<rparr>) = Some (s', a) \<and>
    map up_data (unacknowledged_packets s') = [[8]] \<and> last_packet_received_time s' = 5"
proof -
  let ?h = "\<lparr>rh_sequence = 1, rh_ack = 1, rh_ack_bitfield = 0\<rparr>"
  let ?s = "(reliable_new 0)\<lparr>unacknowledged_packets :=
        [\<lparr>up_sequence = 1, up_time_sent = 0, up_data = [7], up_retries = 1\<rparr>,
         \<lparr>up_sequence = 2, up_time_sent = 0, up_data = [8], up_retries = 1\<rparr>]\<rparr>"
  have "is_sequence_more_recent 1 0" by (simp add: is_sequence_more_recent_def)
  then obtain s' a where s': "process_incoming_header Release ?h 5 ?s = Some (s', a)"
    by (simp add: process_incoming_header_def update_receive_window_def reliable_new_def Let_def)
  show ?thesis
    using incoming_header_releases [OF s'] s'
    by (simp add: packet_acked_def is_sequence_more_recent_def Let_def reliable_new_def)
qed

text \<open>
  The retransmission timeout after a round-trip sample is a finite number between 30 and 500
  milliseconds, whatever the estimate was before, and the estimate stays finite.
\<close>

theorem rto_after_sample:
  assumes "rtt_ok s" "0 \<le> sent" "clock_ok now"
  shows "f32_within 30 500
      (retransmission_timeout_ms (apply_rtt_sample (elapsed_ms_f32 now sent) s)) \<and>
    rtt_ok (apply_rtt_sample (elapsed_ms_f32 now sent) s)"
  using apply_rtt_sample_ok [OF assms(1) elapsed_ms_ok [OF assms(2,3)]] by simp

theorem rto_after_sample_witness:
  "f32_within 30 500
      (retransmission_timeout_ms (apply_rtt_sample (elapsed_ms_f32 (7 * 10 ^ 9) 1) (reliable_new 0))) \<and>
    rtt_ok (apply_rtt_sample (elapsed_ms_f32 (7 * 10 ^ 9) 1) (reliable_new 0))"
  using rto_after_sample [OF rtt_ok_new, of 1 "7 * 10 ^ 9" 0] by (simp add: clock_ok_def)

text \<open>
  C22: a retransmission pass resends, in order, the data of exactly the packets whose timeout has elapsed
  since they were sent, where the timeout of the connection is multiplied by 1.5, up to two seconds,
  by every packet resent before in the same pass; it restarts the clocks and counts the retries of
  these packets, touches no other packet, and leaves the timeout as the resends have backed it off,
  between 30 milliseconds and 2 seconds. Without overflow checks it always returns.
\<close>

theorem retransmission_pass:
  assumes "rtt_ok s" "process_retransmissions p now s = Some (s', out)"
  shows "(\<exists>due. length due = length (unacknowledged_packets s) \<and>
      (\<forall>i < length due. due ! i \<longleftrightarrow>
        (backoff ^^ length (filter id (take i due))) (retransmission_timeout_ms s)
          \<le> elapsed_ms_f32 now (up_time_sent (unacknowledged_packets s ! i))) \<and>
      unacknowledged_packets s' = retransmitted now due (unacknowledged_packets s) \<and>
      out = resent_data due (unacknowledged_packets s)) \<and>
    retransmission_timeout_ms s' = (backoff ^^ length out) (retransmission_timeout_ms s) \<and>
    f32_within 30 2000 (retransmission_timeout_ms s') \<and>
    stats_retransmits s' = stats_retransmits s + of_nat (length out) \<and>
    (\<exists>r. process_retransmissions Release now s = Some r)"
proof -
  have "f32_within 30 2000 (retransmission_timeout_ms s')"
    using process_retransmissions_ok [OF assms(2,1)] by (simp add: rtt_ok_def)
  with process_retransmissions_spec [OF assms(2)] process_retransmissions_total show ?thesis
    by (auto simp: due_exactly_def)
qed

theorem retransmission_pass_witness:
  "\<exists>s'. process_retransmissions Debug (2 * 10 ^ 9)
      ((reliable_new 0)\<lparr>unacknowledged_packets :=
        [\<lparr>up_sequence = 1, up_time_sent = 0, up_data = [7], up_retries = 0\<rparr>]\<rparr>) = Some (s', [[7]]) \<and>
    f32_within 30 2000 (retransmission_timeout_ms s')"
proof -
  let ?s = "(reliable_new 0)\<lparr>unacknowledged_packets :=
        [\<lparr>up_sequence = 1, up_time_sent = 0, up_data = [7], up_retries = 0\<rparr>]\<rparr>"
  have "elapsed_ms_f32 (2 * 10 ^ 9) 0 = f32_lit 2000"
    using rnd_1e9
    by (simp add: elapsed_ms_f32_def as_secs_f32_def duration_since_def f32_of_int_def f32_ops
        f32_round_def rnd_numeral f32_max_exp_def)
  then obtain s' where s': "process_retransmissions Debug (2 * 10 ^ 9) ?s = Some (s', [[7]])"
    by (simp add: process_retransmissions_def reliable_new_def f32_ops checked_simps)
  moreover have "rtt_ok ?s" using rtt_ok_new [of 0] by (simp add: rtt_ok_def)
  ultimately show ?thesis using retransmission_pass [OF _ s'] by blast
qed

text \<open>
  C36: a sequence number exactly 32 below the highest received one makes the receive window panic
  where overflow is checked: the shift amount is the width of the bit field.
\<close>

theorem receive_window_panics_at_32:
  assumes "32 < n" "n < 2 ^ 15" "highest_received_sequence s = of_nat n"
  shows "process_incoming_header Debug
    \<lparr>rh_sequence = of_nat (n - 32), rh_ack = a, rh_ack_bitfield = b\<rparr> now s = None"
proof -
  have "unat (of_nat n - of_nat (n - 32) :: u16) = 32"
    using assms by (subst unat_of_nat_diff) auto
  moreover have "\<not> is_sequence_more_recent (of_nat (n - 32)) (of_nat n)"
    using assms by (subst sequence_more_recent_of_nat) auto
  moreover have "(of_nat n :: u16) - of_nat (n - 32) \<noteq> 0"
    using \<open>unat (of_nat n - of_nat (n - 32) :: u16) = 32\<close> by auto
  ultimately show ?thesis
    using assms(3)
    by (auto simp: process_incoming_header_def update_receive_window_def Let_def
        word_less_nat_alt shr_u_def checked_def)
qed

theorem receive_window_panics_at_32_witness:
  "process_incoming_header Debug \<lparr>rh_sequence = of_nat (40 - 32), rh_ack = 0, rh_ack_bitfield = 0\<rparr> 5
    ((reliable_new 0)\<lparr>highest_received_sequence := of_nat 40\<rparr>) = None"
  using receive_window_panics_at_32
    [of 40 "(reliable_new 0)\<lparr>highest_received_sequence := of_nat 40\<rparr>" 0 0 5] by simp

end
