(* ===== verification/Anti_Replay.thy ===== *)
theory Anti_Replay
  imports Replay_Window
begin

text \<open>
  The anti-replay window over 64-bit nonces: \<open>AntiReplayWindow\<close> of
  \<open>crates/connection/src/connection.rs\<close>. Used as \<open>check\<close> followed by \<open>record\<close>, it is the
  duplicate filter of \<open>Replay_Window\<close> with 64 numbers.
\<close>

record anti_replay_window =
  highest_nonce :: u64
  nonce_window :: u64

definition anti_replay_new :: anti_replay_window where
  "anti_replay_new = \<lparr>highest_nonce = 0, nonce_window = 0\<rparr>"

text \<open>The shifts and subtractions are guarded, so they do not overflow.\<close>

definition anti_replay_check :: "anti_replay_window \<Rightarrow> u64 \<Rightarrow> bool" where
  "anti_replay_check w nonce =
     (if highest_nonce w < nonce then True
      else let diff = highest_nonce w - nonce in
        if 64 \<le> diff then False
        else nonce_window w AND push_bit (unat diff) 1 = 0)"

definition anti_replay_record :: "anti_replay_window \<Rightarrow> u64 \<Rightarrow> anti_replay_window" where
  "anti_replay_record w nonce =
     (if highest_nonce w < nonce then
        let diff = nonce - highest_nonce w in
        w\<lparr>nonce_window := (if 64 \<le> diff then 1 else push_bit (unat diff) (nonce_window w) OR 1),
          highest_nonce := nonce\<rparr>
      else
        let diff = highest_nonce w - nonce in
        if diff < 64 then w\<lparr>nonce_window := nonce_window w OR push_bit (unat diff) 1\<rparr> else w)"

text \<open>A packet with the nonce \<open>n\<close> arrives: it is recorded when the check passes.\<close>

definition anti_replay_step ::
  "nat \<Rightarrow> anti_replay_window \<Rightarrow> (anti_replay_window \<times> bool) option" where
  "anti_replay_step n w =
     (if anti_replay_check w (of_nat n) then Some (anti_replay_record w (of_nat n), True)
      else Some (w, False))"

definition anti_replay_rel :: "nat \<Rightarrow> nat set \<Rightarrow> anti_replay_window \<Rightarrow> bool" where
  "anti_replay_rel t G w \<longleftrightarrow>
     t < 2 ^ 64 \<and> highest_nonce w = of_nat t \<and> G \<subseteq> {..t} \<and>
     (\<forall>i<64. bit (nonce_window w) i \<longleftrightarrow> i \<le> t \<and> t - i \<in> G)"

definition anti_replay_range :: "nat \<Rightarrow> nat \<Rightarrow> bool" where
  "anti_replay_range t n \<longleftrightarrow> n < 2 ^ 64"

lemma anti_replay_rel_new: "anti_replay_rel 0 {} anti_replay_new"
  by (simp add: anti_replay_rel_def anti_replay_new_def)

lemma word_of_nat_less64: "m < 2 ^ 64 \<Longrightarrow> n < 2 ^ 64 \<Longrightarrow> (of_nat m :: u64) < of_nat n \<longleftrightarrow> m < n"
  by (simp add: word_of_nat_less_iff take_bit_nat_eq_self)

lemma unat_diff64: "m \<le> n \<Longrightarrow> n < 2 ^ 64 \<Longrightarrow> unat (of_nat n - of_nat m :: u64) = n - m"
  by (rule unat_of_nat_diff) auto

lemma anti_replay_check_iff:
  assumes "anti_replay_rel t G w" and "n < 2 ^ 64"
  shows "anti_replay_check w (of_nat n) \<longleftrightarrow> window_accepts 64 t G n"
proof (cases "t < n")
  case True
  then show ?thesis
    using assms by (simp add: anti_replay_check_def anti_replay_rel_def word_of_nat_less64
        window_accepts_def)
next
  case False
  then have d: "unat (of_nat t - of_nat n :: u64) = t - n"
    using assms by (intro unat_diff64) (auto simp: anti_replay_rel_def)
  with False assms show ?thesis
    by (simp add: anti_replay_check_def anti_replay_rel_def word_of_nat_less64 Let_def
        window_accepts_def word_le_nat_alt and_exp_eq_0)
qed

lemma anti_replay_record_rel:
  assumes rel: "anti_replay_rel t G w" and n: "n < 2 ^ 64" and acc: "window_accepts 64 t G n"
  shows "anti_replay_rel (max t n) (insert n G) (anti_replay_record w (of_nat n))"
proof (cases "t < n")
  case True
  then have d: "unat (of_nat n - of_nat t :: u64) = n - t"
    using n by (intro unat_diff64) auto
  have bits: "\<forall>i<64. bit (nonce_window w) i \<longleftrightarrow> i \<le> t \<and> t - i \<in> G" and G: "G \<subseteq> {..t}"
    using rel by (simp_all add: anti_replay_rel_def)
  have w': "anti_replay_record w (of_nat n) = w\<lparr>nonce_window :=
      (if 64 \<le> n - t then 1 else push_bit (n - t) (nonce_window w) OR 1), highest_nonce := of_nat n\<rparr>"
    using rel True n d
    by (simp add: anti_replay_record_def anti_replay_rel_def word_of_nat_less64 Let_def
        word_le_nat_alt)
  have "bit (if 64 \<le> n - t then 1 else push_bit (n - t) (nonce_window w) OR 1) i \<longleftrightarrow>
      i \<le> n \<and> n - i \<in> insert n G" if "i < 64" for i
    using bits G True that by (auto simp: bit_simps)
  then show ?thesis
    using True n G by (auto simp: anti_replay_rel_def w')
next
  case False
  then have d: "unat (of_nat t - of_nat n :: u64) = t - n"
    using rel by (intro unat_diff64) (auto simp: anti_replay_rel_def)
  have tn: "t - n < 64" "n \<notin> G" using acc False by (auto simp: window_accepts_def)
  have w': "anti_replay_record w (of_nat n) =
      w\<lparr>nonce_window := nonce_window w OR push_bit (t - n) 1\<rparr>"
    using rel False n d tn
    by (simp add: anti_replay_record_def anti_replay_rel_def word_of_nat_less64 Let_def
        word_less_nat_alt [of "_ - _"] del: push_bit_of_1)
  have "bit (nonce_window w OR push_bit (t - n) 1) i \<longleftrightarrow> i \<le> t \<and> t - i \<in> insert n G"
    if "i < 64" for i
    using rel that tn False by (auto simp: anti_replay_rel_def bit_simps)
  then show ?thesis
    using False rel tn by (auto simp: anti_replay_rel_def w' simp del: push_bit_of_1)
qed

interpretation anti_replay: window_filter anti_replay_rel anti_replay_step anti_replay_range 64
proof
  fix t G w n
  assume rel: "anti_replay_rel t G w"
  then show "G \<subseteq> {..t}" by (simp add: anti_replay_rel_def)
  assume "anti_replay_range t n"
  then show "\<exists>w'. anti_replay_step n w = Some (w', window_accepts 64 t G n) \<and>
      anti_replay_rel (window_top 64 t G n) (window_seen 64 t G n) w'"
    using rel anti_replay_record_rel [OF rel, of n] anti_replay_check_iff [OF rel, of n]
    by (simp add: anti_replay_step_def anti_replay_range_def window_top_def window_seen_def)
qed

lemma anti_replay_run_ok: "\<forall>n \<in> set ns. n < 2 ^ 64 \<Longrightarrow> window_run_ok anti_replay_range 64 t G ns"
  by (induction ns arbitrary: t G) (auto simp: anti_replay_range_def)

section \<open>Properties\<close>

text \<open>
  C21: a fresh anti-replay window accepts the nonces of any arrival sequence as the unbounded filter
  of width 64 does; in particular it never accepts a nonce twice, and nothing panics.
\<close>

theorem anti_replay_at_most_once:
  assumes "\<forall>n \<in> set ns. n < 2 ^ 64"
  shows "\<exists>ms. window_run anti_replay_step ns anti_replay_new = Some ms \<and>
    ms = window_spec_run 64 0 {} ns \<and> distinct ms"
proof -
  have ok: "window_run_ok anti_replay_range 64 0 {} ns" using assms by (rule anti_replay_run_ok)
  show ?thesis
    using anti_replay.run_refines [OF anti_replay_rel_new ok]
      anti_replay.run_accepts_once [OF anti_replay_rel_new ok] by auto
qed

theorem anti_replay_at_most_once_witness:
  "\<exists>ms. window_run anti_replay_step [5, 3, 5, 3, 200, 100] anti_replay_new = Some ms \<and>
    ms = [5, 3, 200] \<and> distinct ms"
  using anti_replay_at_most_once [of "[5, 3, 5, 3, 200, 100]"]
  by (simp add: window_top_def window_seen_def window_accepts_def Let_def)

end
