(* ===== verification/Rift_Core.thy ===== *)
theory Rift_Core
  imports Float32
begin

text \<open>
  \<open>crates/core/src/core.rs\<close> and \<open>crates/core/src/fixed_vec3.rs\<close>: the error type, which every
  fallible operation of the program returns on the left of a sum, and the fixed-point vectors of the
  simulation with their conversions from and to \<open>f32\<close>.
\<close>

section \<open>Errors\<close>

datatype rift_error =
    NetworkError string
  | CompressionError
  | CompressionFailed
  | DecompressionError
  | DecompressionFailed
  | EncryptionError
  | EncryptionFailed
  | DecryptionError
  | DecryptionFailed
  | CapacityExceeded
  | ThreadPanic

type_synonym conn_id = u64
type_synonym tick = u64

section \<open>Fixed-point vectors\<close>

record fixed_vec3 =
  vx :: i32
  vy :: i32
  vz :: i32

definition vec_scale :: int where "vec_scale = 1000"

definition to_fixed :: "f32 \<Rightarrow> i32" where
  "to_fixed f = f32_to_i32 (f32_round_int (f * f32_of_int vec_scale))"

definition fixed_vec3_new :: "f32 \<Rightarrow> f32 \<Rightarrow> f32 \<Rightarrow> fixed_vec3" where
  "fixed_vec3_new x y z = \<lparr>vx = to_fixed x, vy = to_fixed y, vz = to_fixed z\<rparr>"

definition from_fixed :: "i32 \<Rightarrow> f32" where
  "from_fixed i = f32_of_int (sint i) div f32_of_int vec_scale"

definition fixed_vec3_to_f32 :: "fixed_vec3 \<Rightarrow> f32 \<times> f32 \<times> f32" where
  "fixed_vec3_to_f32 v = (from_fixed (vx v), from_fixed (vy v), from_fixed (vz v))"

section \<open>The conversions are inverse on a range\<close>

text \<open>The relative error of rounding a normal number is at most \<open>2 ^ -24\<close>.\<close>

lemma round_units_error: "\<bar>round_units s - s\<bar> \<le> 2 ^ ulp_exp s / 2"
proof -
  let ?x = "s / 2 ^ ulp_exp s"
  have "\<bar>of_int (rne ?x) - ?x\<bar> \<le> 1 / 2"
    by (cases ?x rule: rne_cases) (use floor_correct [of ?x] in \<open>auto simp: abs_le_iff\<close>)
  then have "\<bar>of_int (rne ?x) - ?x\<bar> * 2 ^ ulp_exp s \<le> 1 / 2 * 2 ^ ulp_exp s"
    by (rule mult_right_mono) simp
  moreover have "\<bar>of_int (rne ?x) - ?x\<bar> * 2 ^ ulp_exp s = \<bar>round_units s - s\<bar>"
    by (simp add: round_units_def Let_def abs_mult_pos' algebra_simps flip: abs_mult_pos)
  ultimately show ?thesis by simp
qed

lemma round_units_rel_error:
  assumes "2 ^ 23 \<le> s"
  shows "\<bar>round_units s - s\<bar> \<le> s / 2 ^ 24"
proof -
  have "2 ^ ulp_exp s * 2 ^ 23 \<le> s"
    using assms ulp_exp_lower [of s]
    by (cases "ulp_exp s = 0") (simp_all add: power_add mult.commute)
  then have "2 ^ ulp_exp s / 2 \<le> s / 2 ^ 24" by simp
  with round_units_error [of s] show ?thesis by linarith
qed

lemma rnd_rel_error:
  assumes "1 / 1000 \<le> q"
  shows "\<bar>rnd q - q\<bar> \<le> q / 2 ^ 24"
proof -
  have "2 ^ 23 \<le> q * units"
    using mult_right_mono [OF assms, of units] by (simp add: units_def)
  then have "\<bar>round_units (q * units) - q * units\<bar> \<le> q * units / 2 ^ 24"
    by (rule round_units_rel_error)
  moreover have "rnd q - q = (round_units (q * units) - q * units) / units"
    using assms by (simp add: rnd_nonneg_eq diff_divide_distrib)
  ultimately show ?thesis
    by (simp add: abs_divide divide_le_eq mult.commute mult.left_commute)
qed

lemma scaled_roundtrip_error:
  assumes "1 \<le> n" "n < 2 ^ 22"
  shows "\<bar>rnd (rnd (of_nat n / 1000) * 1000) - of_nat n\<bar> < 1 / 2"
proof -
  let ?q = "of_nat n / 1000 :: rat"
  let ?r = "rnd ?q * 1000"
  have n: "(1 :: rat) \<le> of_nat n" "(of_nat n :: rat) \<le> 2 ^ 22 - 1"
    using assms of_nat_le_iff [of n "2 ^ 22 - 1", where 'a = rat] by simp_all
  have "\<bar>rnd ?q - ?q\<bar> \<le> ?q / 2 ^ 24"
    using n by (intro rnd_rel_error) simp
  then have e1: "\<bar>?r - of_nat n\<bar> \<le> of_nat n / 2 ^ 24"
    unfolding abs_le_iff by linarith
  then have "of_nat n - ?r \<le> of_nat n / 2 ^ 24" unfolding abs_le_iff by linarith
  moreover have "(of_nat n :: rat) / 2 ^ 24 \<le> of_nat n / 2" by simp
  ultimately have "1 / 1000 \<le> ?r" using n(1) by linarith
  then have "\<bar>rnd ?r - ?r\<bar> \<le> ?r / 2 ^ 24" by (rule rnd_rel_error)
  then have "\<bar>rnd ?r - of_nat n\<bar> \<le> ?r / 2 ^ 24 + of_nat n / 2 ^ 24"
    using e1 by linarith
  moreover have "?r / 2 ^ 24 \<le> (of_nat n + of_nat n / 2 ^ 24) / 2 ^ 24"
  proof (rule divide_right_mono)
    show "?r \<le> of_nat n + of_nat n / 2 ^ 24" using e1 unfolding abs_le_iff by linarith
  qed simp
  moreover have "(of_nat n + of_nat n / 2 ^ 24) / 2 ^ 24 + of_nat n / 2 ^ 24 < (1 / 2 :: rat)"
    using n(2) by simp
  ultimately show ?thesis by linarith
qed

lemma round_half_away_near: "\<bar>q - of_int i\<bar> < 1 / 2 \<Longrightarrow> round_half_away q = i"
proof -
  assume "\<bar>q - of_int i\<bar> < 1 / 2"
  then have lo: "of_int i - 1 / 2 < q" and hi: "q < of_int i + 1 / 2"
    unfolding abs_less_iff by linarith+
  show ?thesis
  proof (cases "q < 0")
    case True
    have "\<lfloor>- q + 1 / 2\<rfloor> = - i" by (rule floor_unique) (use lo hi in simp_all)
    with True show ?thesis by (simp add: round_half_away_def)
  next
    case False
    have "\<lfloor>q + 1 / 2\<rfloor> = i" by (rule floor_unique) (use lo hi in simp_all)
    with False show ?thesis by (simp add: round_half_away_def)
  qed
qed

lemma scaled_roundtrip_signed:
  assumes "\<bar>i\<bar> < 2 ^ 22"
  shows "\<bar>rnd (rnd (of_int i / 1000) * 1000) - of_int i\<bar> < 1 / 2"
proof -
  have pos: "\<bar>rnd (rnd (of_int j / 1000) * 1000) - of_int j\<bar> < 1 / 2" if "0 < j" "j < 2 ^ 22" for j
    using scaled_roundtrip_error [of "nat j"] that by (simp add: nat_less_iff)
  consider "i = 0" | "0 < i" | "i < 0" by linarith
  then show ?thesis
  proof cases
    case 3
    with pos [of "- i"] assms show ?thesis by (simp add: abs_minus_commute)
  qed (use pos [of i] assms in simp_all)
qed

lemma rnd_int: "\<bar>i\<bar> < 2 ^ 24 \<Longrightarrow> rnd (of_int i) = of_int i"
proof -
  assume "\<bar>i\<bar> < 2 ^ 24"
  then have "rnd (of_nat (nat \<bar>i\<bar>)) = of_nat (nat \<bar>i\<bar>)" by (intro rnd_nat) simp
  then have "rnd (of_int \<bar>i\<bar>) = of_int \<bar>i\<bar>" by simp
  then show ?thesis by (cases "0 \<le> i") simp_all
qed

lemma of_int_small: "\<bar>i\<bar> < 2 ^ 22 \<Longrightarrow> \<bar>of_int i\<bar> \<le> (2 ^ 22 :: rat)"
proof -
  assume "\<bar>i\<bar> < 2 ^ 22"
  then have "\<bar>i\<bar> \<le> 2 ^ 22" by simp
  then have "(of_int \<bar>i\<bar> :: rat) \<le> of_int (2 ^ 22)" by (simp only: of_int_le_iff)
  then show ?thesis by simp
qed

lemma f32_scale: "f32_of_int vec_scale = Fin 1000"
  by (simp add: f32_of_int_def vec_scale_def f32_round_def rnd_numeral f32_max_exp_def)

lemma scale_down:
  assumes "\<bar>n\<bar> < 2 ^ 22"
  shows "f32_of_int n div f32_of_int vec_scale = Fin (rnd (of_int n / 1000))"
proof -
  have le: "\<bar>of_int n\<bar> \<le> (2 ^ 22 :: rat)" using assms by (rule of_int_small)
  have n: "f32_of_int n = Fin (of_int n)"
    using f32_round_within_pow [OF le] rnd_int [of n] assms by (simp add: f32_of_int_def)
  have "\<bar>of_int n / 1000\<bar> \<le> (2 ^ 22 :: rat)" using le by (simp add: abs_le_iff)
  then show ?thesis
    using f32_round_within_pow [of "of_int n / 1000" 22]
    by (simp add: n f32_scale f32_ops)
qed

lemma scale_roundtrip:
  assumes "\<bar>n\<bar> < 2 ^ 22"
  shows "to_fixed (f32_of_int n div f32_of_int vec_scale) = word_of_int n"
proof -
  let ?q = "rnd (of_int n / 1000)"
  have near: "\<bar>rnd (?q * 1000) - of_int n\<bar> < 1 / 2"
    using assms by (rule scaled_roundtrip_signed)
  then have int: "round_half_away (rnd (?q * 1000)) = n" by (rule round_half_away_near)
  have "\<bar>rnd (?q * 1000)\<bar> \<le> \<bar>of_int n\<bar> + 1 / 2"
    using near abs_triangle_ineq3 [of "rnd (?q * 1000)" "of_int n"] by linarith
  also have "\<dots> \<le> 2 ^ 22 + 1 / 2" using of_int_small [OF assms] by simp
  also have "\<dots> < f32_max_exp" by (simp add: f32_max_exp_def)
  finally have "f32_round (?q * 1000) = Fin (rnd (?q * 1000))"
    by (simp add: f32_round_def)
  then have "to_fixed (f32_of_int n div f32_of_int vec_scale) =
      word_of_int (max (- (2 ^ 31)) (min (2 ^ 31 - 1) n))"
    using scale_down [OF assms]
    by (simp add: to_fixed_def f32_scale f32_ops f32_to_i32_def int trunc_rat_def)
  also have "max (- (2 ^ 31)) (min (2 ^ 31 - 1) n) = n"
    using assms by (auto simp: max_def min_def)
  finally show ?thesis .
qed

lemma to_fixed_from_fixed: "\<bar>sint i\<bar> < 2 ^ 22 \<Longrightarrow> to_fixed (from_fixed i) = i"
  using scale_roundtrip [of "sint i"] by (simp add: from_fixed_def)

section \<open>Properties\<close>

text \<open>
  A vector whose coordinates are below \<open>2 ^ 22\<close> in size survives the conversion to floating point
  and back, although \<open>to_f32\<close> divides by a scale that \<open>f32\<close> cannot represent exactly.
\<close>

theorem fixed_vec3_roundtrip:
  assumes "\<bar>sint (vx v)\<bar> < 2 ^ 22" "\<bar>sint (vy v)\<bar> < 2 ^ 22" "\<bar>sint (vz v)\<bar> < 2 ^ 22"
  shows "(case fixed_vec3_to_f32 v of (x, y, z) \<Rightarrow> fixed_vec3_new x y z) = v"
  using assms by (simp add: fixed_vec3_to_f32_def fixed_vec3_new_def to_fixed_from_fixed)

theorem fixed_vec3_roundtrip_witness:
  "(case fixed_vec3_to_f32 \<lparr>vx = 1234567, vy = - 10, vz = 0\<rparr> of (x, y, z) \<Rightarrow> fixed_vec3_new x y z) =
    \<lparr>vx = 1234567, vy = - 10, vz = 0\<rparr>"
  by (rule fixed_vec3_roundtrip) simp_all

end
