(* ===== verification/Codec.thy ===== *)
theory Codec
  imports Rift_Core
begin

text \<open>
  Compression, encryption and the pipelines that combine them:
  \<open>crates/compression/src/compressor.rs\<close>, \<open>crates/encryption/src/encryptor.rs\<close>,
  \<open>crates/connection/src/pipeline.rs\<close> and the trait and the null pipeline of
  \<open>crates/connection/src/connection.rs\<close>. The crates \<open>lz4_flex\<close> and \<open>ring\<close> are third-party
  code: their four functions are the record \<open>libs\<close>, an argument of every operation that calls
  them, and \<open>libs_ok\<close> is the behaviour they document. The locale \<open>network_pipeline\<close> is the
  contract of the trait \<open>NetworkPipeline\<close>.
\<close>

section \<open>The libraries\<close>

text \<open>
  \<open>compress_prepend_size\<close> and \<open>decompress_size_prepended\<close> of \<open>lz4_flex\<close>;
  \<open>seal_in_place_append_tag\<close> and \<open>open_in_place\<close> of \<open>ring\<close>'s ChaCha20-Poly1305 on a key,
  a nonce, the additional data and the buffer.
\<close>

record libs =
  lz4_compress :: "bytes \<Rightarrow> bytes"
  lz4_decompress :: "bytes \<Rightarrow> bytes option"
  aead_seal :: "bytes \<Rightarrow> bytes \<Rightarrow> bytes \<Rightarrow> bytes \<Rightarrow> bytes option"
  aead_open :: "bytes \<Rightarrow> bytes \<Rightarrow> bytes \<Rightarrow> bytes \<Rightarrow> bytes option"

text \<open>
  Documented behaviour: decompression inverts compression on inputs whose size fits the 32-bit
  prefix, the compressed size is bounded; sealing succeeds on messages below the limit of the
  cipher and appends a tag of 16 bytes, and opening accepts exactly what sealing produced.
\<close>

definition libs_ok :: "libs \<Rightarrow> bool" where
  "libs_ok L \<longleftrightarrow>
     (\<forall>d. length d < 2 ^ 32 \<longrightarrow> lz4_decompress L (lz4_compress L d) = Some d) \<and>
     (\<forall>d. length d < 2 ^ 32 \<longrightarrow> length (lz4_compress L d) \<le> 2 * length d + 64) \<and>
     (\<forall>k n a m. length k = 32 \<and> length n = 12 \<and> length m < 2 ^ 36 \<longrightarrow>
        (\<exists>c. aead_seal L k n a m = Some c)) \<and>
     (\<forall>k n a m c. aead_seal L k n a m = Some c \<longrightarrow> length c = length m + 16) \<and>
     (\<forall>k n a m c. aead_open L k n a c = Some m \<longleftrightarrow> aead_seal L k n a m = Some c)"

section \<open>Compression\<close>

definition compress :: "libs \<Rightarrow> bytes \<Rightarrow> rift_error + bytes" where
  "compress L data = Inr (lz4_compress L data)"

definition decompress :: "libs \<Rightarrow> bytes \<Rightarrow> rift_error + bytes" where
  "decompress L data =
     (case lz4_decompress L data of None \<Rightarrow> Inl CompressionError | Some d \<Rightarrow> Inr d)"

section \<open>Encryption\<close>

record cipher =
  cipher_key :: bytes

text \<open>\<open>expect\<close> panics when the key has another length.\<close>

definition cipher_new :: "bytes \<Rightarrow> cipher option" where
  "cipher_new key_bytes = (if length key_bytes = 32 then Some \<lparr>cipher_key = key_bytes\<rparr> else None)"

text \<open>The buffer is replaced in place; on an error the caller does not look at it.\<close>

definition encrypt :: "libs \<Rightarrow> cipher \<Rightarrow> bytes \<Rightarrow> bytes \<Rightarrow> bytes \<Rightarrow> rift_error + bytes" where
  "encrypt L c nonce_bytes aad buffer =
     (case aead_seal L (cipher_key c) nonce_bytes aad buffer of
        None \<Rightarrow> Inl EncryptionError
      | Some sealed \<Rightarrow> Inr sealed)"

definition decrypt :: "libs \<Rightarrow> cipher \<Rightarrow> bytes \<Rightarrow> bytes \<Rightarrow> bytes \<Rightarrow> rift_error + bytes" where
  "decrypt L c nonce_bytes aad buffer =
     (case aead_open L (cipher_key c) nonce_bytes aad buffer of
        None \<Rightarrow> Inl EncryptionError
      | Some plain \<Rightarrow> Inr plain)"

definition derive_nonce :: "u64 \<Rightarrow> u32 \<Rightarrow> bytes" where
  "derive_nonce tick session_id = to_le_bytes 8 tick @ to_le_bytes 4 session_id"

section \<open>Pipelines\<close>

definition null_process :: "bytes \<Rightarrow> u64 \<Rightarrow> rift_error + bytes" where
  "null_process data nonce = Inr data"

definition null_inverse_process :: "bytes \<Rightarrow> u64 \<Rightarrow> rift_error + bytes" where
  "null_inverse_process data nonce = Inr data"

record secure_pipeline =
  sp_cipher :: cipher

definition secure_pipeline_new :: "bytes \<Rightarrow> secure_pipeline option" where
  "secure_pipeline_new key = do { c \<leftarrow> cipher_new key; Some \<lparr>sp_cipher = c\<rparr> }"

text \<open>The nonce of the cipher: the 64-bit nonce and four zero bytes.\<close>

definition nonce_bytes_of :: "u64 \<Rightarrow> bytes" where
  "nonce_bytes_of nonce = to_le_bytes 8 nonce @ replicate 4 0"

definition secure_process ::
  "libs \<Rightarrow> secure_pipeline \<Rightarrow> bytes \<Rightarrow> u64 \<Rightarrow> rift_error + bytes" where
  "secure_process L sp plaintext nonce =
     (case compress L plaintext of
        Inl _ \<Rightarrow> Inl CompressionError
      | Inr payload \<Rightarrow>
          (case encrypt L (sp_cipher sp) (nonce_bytes_of nonce) [] payload of
             Inl _ \<Rightarrow> Inl EncryptionError
           | Inr sealed \<Rightarrow> Inr sealed))"

definition secure_inverse_process ::
  "libs \<Rightarrow> secure_pipeline \<Rightarrow> bytes \<Rightarrow> u64 \<Rightarrow> rift_error + bytes" where
  "secure_inverse_process L sp ciphertext nonce =
     (case decrypt L (sp_cipher sp) (nonce_bytes_of nonce) [] ciphertext of
        Inl _ \<Rightarrow> Inl EncryptionError
      | Inr decrypted \<Rightarrow>
          (case decompress L decrypted of
             Inl _ \<Rightarrow> Inl CompressionError
           | Inr plain \<Rightarrow> Inr plain))"

text \<open>\<open>Box<dyn NetworkPipeline>\<close>: the implementors of the trait, and the dynamic dispatch.\<close>

datatype pipeline = NullPipeline | SecurePipeline secure_pipeline

fun pipeline_process :: "libs \<Rightarrow> pipeline \<Rightarrow> bytes \<Rightarrow> u64 \<Rightarrow> rift_error + bytes" where
  "pipeline_process L NullPipeline data nonce = null_process data nonce"
| "pipeline_process L (SecurePipeline sp) data nonce = secure_process L sp data nonce"

fun pipeline_inverse_process :: "libs \<Rightarrow> pipeline \<Rightarrow> bytes \<Rightarrow> u64 \<Rightarrow> rift_error + bytes" where
  "pipeline_inverse_process L NullPipeline data nonce = null_inverse_process data nonce"
| "pipeline_inverse_process L (SecurePipeline sp) data nonce = secure_inverse_process L sp data nonce"

section \<open>The contract of a pipeline\<close>

locale network_pipeline =
  fixes process :: "bytes \<Rightarrow> u64 \<Rightarrow> rift_error + bytes"
    and inverse_process :: "bytes \<Rightarrow> u64 \<Rightarrow> rift_error + bytes"
    and max_len :: nat
  assumes process_total: "length d < max_len \<Longrightarrow> \<exists>c. process d n = Inr c"
    and inverse_process_process:
      "length d < max_len \<Longrightarrow> process d n = Inr c \<Longrightarrow> inverse_process c n = Inr d"
begin

lemma roundtrip:
  "length d < max_len \<Longrightarrow> \<exists>c. process d n = Inr c \<and> inverse_process c n = Inr d"
  using process_total inverse_process_process by blast

lemma process_inject:
  "length d < max_len \<Longrightarrow> length e < max_len \<Longrightarrow>
    process d n = process e n \<longleftrightarrow> d = e"
  by (metis roundtrip sum.inject(2))

text \<open>A batch that is processed packet by packet is recovered packet by packet.\<close>

lemma roundtrip_batch:
  "\<forall>(d, n) \<in> set ps. length d < max_len \<Longrightarrow>
    \<exists>cs. map (\<lambda>(d, n). process d n) ps = map Inr cs \<and>
      map2 (\<lambda>c (d, n). inverse_process c n) cs ps = map (Inr \<circ> fst) ps"
proof (induction ps)
  case Nil
  then show ?case by simp
next
  case (Cons x ps)
  obtain d n where x: "x = (d, n)" by (cases x)
  from Cons.prems x obtain c where "process d n = Inr c" "inverse_process c n = Inr d"
    using roundtrip [of d n] by auto
  moreover from Cons obtain cs where "map (\<lambda>(d, n). process d n) ps = map Inr cs"
    "map2 (\<lambda>c (d, n). inverse_process c n) cs ps = map (Inr \<circ> fst) ps" by auto
  ultimately show ?case
    by (intro exI [of _ "c # cs"]) (simp add: x)
qed

end

interpretation null_pl: network_pipeline null_process null_inverse_process max_len for max_len
  by unfold_locales (auto simp: null_process_def null_inverse_process_def)

definition pipeline_ok :: "pipeline \<Rightarrow> bool" where
  "pipeline_ok pl = (case pl of NullPipeline \<Rightarrow> True
     | SecurePipeline sp \<Rightarrow> length (cipher_key (sp_cipher sp)) = 32)"

lemma length_nonce_bytes [simp]: "length (nonce_bytes_of n) = 12"
  by (simp add: nonce_bytes_of_def)

lemma nonce_bytes_inject: "nonce_bytes_of m = nonce_bytes_of n \<longleftrightarrow> m = n"
  by (simp add: nonce_bytes_of_def to_le_bytes_inject)

lemma derive_nonce_length: "length (derive_nonce t s) = 12"
  by (simp add: derive_nonce_def)

lemma derive_nonce_eq: "derive_nonce t s = derive_nonce t' s' \<longleftrightarrow> t = t' \<and> s = s'"
  by (auto simp: derive_nonce_def to_le_bytes_inject)

lemma secure_process_seal:
  "secure_process L sp d n =
    (case aead_seal L (cipher_key (sp_cipher sp)) (nonce_bytes_of n) [] (lz4_compress L d) of
       None \<Rightarrow> Inl EncryptionError | Some c \<Rightarrow> Inr c)"
  by (simp add: secure_process_def compress_def encrypt_def split: option.splits)

lemma secure_inverse_open:
  "secure_inverse_process L sp c n =
    (case aead_open L (cipher_key (sp_cipher sp)) (nonce_bytes_of n) [] c of
       None \<Rightarrow> Inl EncryptionError
     | Some m \<Rightarrow> (case lz4_decompress L m of None \<Rightarrow> Inl CompressionError | Some d \<Rightarrow> Inr d))"
  by (simp add: secure_inverse_process_def decompress_def decrypt_def split: option.splits)

lemma libs_seal:
  assumes "libs_ok L" "length k = 32" "length d < 2 ^ 32"
  shows "\<exists>c. aead_seal L k (nonce_bytes_of n) a (lz4_compress L d) = Some c"
proof -
  have "length (lz4_compress L d) \<le> 2 * length d + 64"
    using assms(1,3) unfolding libs_ok_def by blast
  also have "2 * length d + 64 < 2 ^ 36" using assms(3) by simp
  finally show ?thesis
    using assms(1,2) length_nonce_bytes unfolding libs_ok_def by blast
qed

text \<open>Nothing shorter than a tag is opened, and nothing shorter than a tag is made.\<close>

lemma secure_lengths:
  assumes "libs_ok L"
  shows "length c < 16 \<Longrightarrow> secure_inverse_process L sp c n = Inl EncryptionError"
    and "secure_process L sp d n = Inr c \<Longrightarrow> 16 \<le> length c"
proof -
  have tag: "aead_seal L k n a m = Some c \<Longrightarrow> length c = length m + 16" for k n a m c
    using assms unfolding libs_ok_def by blast
  have opened: "aead_open L k n a c = Some m \<Longrightarrow> aead_seal L k n a m = Some c" for k n a m c
    using assms unfolding libs_ok_def by blast
  show "length c < 16 \<Longrightarrow> secure_inverse_process L sp c n = Inl EncryptionError"
    by (auto simp: secure_inverse_open dest!: opened tag split: option.split)
  show "secure_process L sp d n = Inr c \<Longrightarrow> 16 \<le> length c"
    by (auto simp: secure_process_seal dest!: tag split: option.splits)
qed

lemma secure_pipeline_contract:
  assumes L: "libs_ok L" and k: "length (cipher_key (sp_cipher sp)) = 32"
  shows "network_pipeline (secure_process L sp) (secure_inverse_process L sp) (2 ^ 32)"
proof
  fix d :: bytes and n
  assume d: "length d < 2 ^ 32"
  show "\<exists>c. secure_process L sp d n = Inr c"
    using libs_seal [OF L k d, of n "[]"] by (auto simp: secure_process_seal)
  fix c
  assume "secure_process L sp d n = Inr c"
  then have "aead_seal L (cipher_key (sp_cipher sp)) (nonce_bytes_of n) [] (lz4_compress L d) = Some c"
    by (auto simp: secure_process_seal split: option.splits)
  then have "aead_open L (cipher_key (sp_cipher sp)) (nonce_bytes_of n) [] c = Some (lz4_compress L d)"
    using L unfolding libs_ok_def by blast
  moreover have "lz4_decompress L (lz4_compress L d) = Some d"
    using L d unfolding libs_ok_def by blast
  ultimately show "secure_inverse_process L sp c n = Inr d"
    by (simp add: secure_inverse_open)
qed

lemma pipeline_contract:
  assumes "libs_ok L" "pipeline_ok pl"
  shows "network_pipeline (pipeline_process L pl) (pipeline_inverse_process L pl) (2 ^ 32)"
proof (cases pl)
  case NullPipeline
  then have "pipeline_process L pl = null_process" "pipeline_inverse_process L pl = null_inverse_process"
    by (auto simp: fun_eq_iff)
  then show ?thesis using null_pl.network_pipeline_axioms by simp
next
  case (SecurePipeline sp)
  then have "pipeline_process L pl = secure_process L sp"
    "pipeline_inverse_process L pl = secure_inverse_process L sp"
    by (auto simp: fun_eq_iff)
  then show ?thesis
    using secure_pipeline_contract [OF assms(1)] assms(2) SecurePipeline
    by (simp add: pipeline_ok_def)
qed

lemmas pipeline_roundtrip = network_pipeline.roundtrip [OF pipeline_contract]

lemma secure_pipeline_new_ok:
  "length key = 32 \<Longrightarrow> secure_pipeline_new key = Some \<lparr>sp_cipher = \<lparr>cipher_key = key\<rparr>\<rparr>"
  by (simp add: secure_pipeline_new_def cipher_new_def)

lemma secure_pipeline_new_SomeD:
  "secure_pipeline_new key = Some sp \<Longrightarrow> pipeline_ok (SecurePipeline sp)"
  by (auto simp: secure_pipeline_new_def cipher_new_def pipeline_ok_def split: if_splits)

section \<open>Concrete libraries\<close>

text \<open>
  An instance of the libraries for the witnesses: compression is the identity, sealing appends
  sixteen zero bytes.
\<close>

definition plain_libs :: libs where
  "plain_libs =
     \<lparr>lz4_compress = (\<lambda>d. d), lz4_decompress = Some,
      aead_seal = (\<lambda>k n a m. Some (m @ replicate 16 0)),
      aead_open = (\<lambda>k n a c.
        if 16 \<le> length c \<and> drop (length c - 16) c = replicate 16 0
        then Some (take (length c - 16) c) else None)\<rparr>"

lemma plain_open_iff:
  "(if 16 \<le> length c \<and> drop (length c - 16) c = replicate 16 0
    then Some (take (length c - 16) c) else None) = Some m \<longleftrightarrow> c = m @ replicate 16 (0 :: u8)"
proof
  assume "(if 16 \<le> length c \<and> drop (length c - 16) c = replicate 16 0
    then Some (take (length c - 16) c) else None) = Some m"
  then show "c = m @ replicate 16 0"
    by (metis (full_types) append_take_drop_id option.distinct(1) option.inject)
qed auto

lemma plain_libs_ok: "libs_ok plain_libs"
  unfolding libs_ok_def plain_libs_def libs.select_convs plain_open_iff by auto

section \<open>Properties\<close>

text \<open>
  C32: what a pipeline of the program made of a packet, the pipeline with the same key makes into the
  packet again, and it makes the same bytes of no other packet.
\<close>

theorem pipeline_recovers:
  assumes "libs_ok L" "pipeline_ok pl" "length d < 2 ^ 32"
  shows "\<exists>c. pipeline_process L pl d n = Inr c \<and> pipeline_inverse_process L pl c n = Inr d \<and>
    (\<forall>e. length e < 2 ^ 32 \<longrightarrow> pipeline_process L pl e n = Inr c \<longrightarrow> e = d)"
  using pipeline_roundtrip [OF assms] network_pipeline.process_inject [OF pipeline_contract [OF assms(1,2)] assms(3)]
  by metis

theorem pipeline_recovers_witness:
  "\<exists>c. pipeline_process plain_libs (SecurePipeline \<lparr>sp_cipher = \<lparr>cipher_key = replicate 32 7\<rparr>\<rparr>) [1, 2, 3] 5 = Inr c \<and>
    pipeline_inverse_process plain_libs (SecurePipeline \<lparr>sp_cipher = \<lparr>cipher_key = replicate 32 7\<rparr>\<rparr>) c 5 =
      Inr [1, 2, 3]"
proof -
  have "pipeline_ok (SecurePipeline \<lparr>sp_cipher = \<lparr>cipher_key = replicate 32 7\<rparr>\<rparr>)"
    by (simp add: pipeline_ok_def)
  from pipeline_recovers [OF plain_libs_ok this, of "[1, 2, 3]" 5] show ?thesis by auto
qed

text \<open>
  Two packets get the same cipher nonce only when they have the same 64-bit nonce, and
  \<open>derive_nonce\<close> separates ticks and sessions; both have the twelve bytes that the cipher takes.
\<close>

theorem cipher_nonces_injective:
  "(nonce_bytes_of m = nonce_bytes_of n \<longleftrightarrow> m = n) \<and> length (nonce_bytes_of n) = 12 \<and>
   (derive_nonce t s = derive_nonce t' s' \<longleftrightarrow> t = t' \<and> s = s') \<and> length (derive_nonce t s) = 12"
  by (simp add: nonce_bytes_inject length_nonce_bytes derive_nonce_eq derive_nonce_length)

end
