(* ===== verification/Connection.thy ===== *)
theory Connection
  imports Reliability Anti_Replay Codec
begin

text \<open>
  One connection: \<open>Connection\<close> of \<open>crates/connection/src/connection.rs\<close>. Sends are queued
  under a byte limit and leave the connection when it is updated; the bytes that the source passes
  to \<open>send_func\<close>, in order, are a result of \<open>connection_update\<close>.
\<close>

section \<open>State\<close>

text \<open>
  A socket address is the text of its IP address, the only part of the address the program looks
  at beyond comparing addresses, and the port.
\<close>

record sock_addr =
  sa_ip :: bytes
  sa_port :: u16

record pending_send =
  ps_data :: bytes
  ps_reliable :: bool

record connection =
  endpoint :: sock_addr
  is_server :: bool
  conn_state :: reliable_state
  last_seen :: instant
  rx_nonce_tracker :: anti_replay_window
  tx_nonce :: u64
  pending_queue :: "pending_send list"
  pending_bytes :: usize
  handshake_sent :: bool
  max_pending_bytes :: usize
  conn_pipeline :: pipeline
  pending_pipeline_swap :: "pipeline option"
  is_authenticated :: bool

text \<open>The two readings of the clock, for the reliable state and for \<open>last_seen\<close>, are arguments.\<close>

definition connection_new ::
  "sock_addr \<Rightarrow> bool \<Rightarrow> pipeline \<Rightarrow> instant \<Rightarrow> instant \<Rightarrow> connection" where
  "connection_new addr server pl now1 now2 =
     \<lparr>endpoint = addr, is_server = server, conn_state = reliable_new now1, last_seen = now2,
      rx_nonce_tracker = anti_replay_new, tx_nonce = (if server then 1 else 0),
      pending_queue = [], pending_bytes = 0, handshake_sent = False,
      max_pending_bytes = 1024 * 1024, conn_pipeline = pl, pending_pipeline_swap = None,
      is_authenticated = False\<rparr>"

section \<open>Operations\<close>

definition queue_pending_send ::
  "profile \<Rightarrow> bytes \<Rightarrow> bool \<Rightarrow> connection \<Rightarrow> connection option" where
  "queue_pending_send p data reliable c =
     (let size = of_nat (length data) in do {
        total \<leftarrow> add_u p (pending_bytes c) size;
        if max_pending_bytes c < total then Some c
        else do {
          n \<leftarrow> add_u p (pending_bytes c) size;
          Some (c\<lparr>pending_queue := pending_queue c @ [\<lparr>ps_data = data, ps_reliable = reliable\<rparr>],
                  pending_bytes := n\<rparr>)
        }
      })"

definition get_tx_nonce :: "profile \<Rightarrow> connection \<Rightarrow> (u64 \<times> connection) option" where
  "get_tx_nonce p c = do {
     next_nonce \<leftarrow> add_u p (tx_nonce c) 2;
     Some (tx_nonce c, c\<lparr>tx_nonce := next_nonce\<rparr>)
   }"

text \<open>
  The two branches of the loop body of \<open>update\<close>; the result is the datagram, or \<open>None\<close> when the
  pipeline fails and the loop continues with the next entry.
\<close>

definition send_reliable ::
  "libs \<Rightarrow> instant \<Rightarrow> bytes \<Rightarrow> connection \<Rightarrow> connection \<times> bytes option" where
  "send_reliable L now data c =
     (let st = conn_state c;
          seq = next_outgoing_sequence st;
          st1 = st\<lparr>next_outgoing_sequence := seq + 1\<rparr>;
          rel_hdr = \<lparr>rh_sequence = seq, rh_ack = highest_received_sequence st,
                     rh_ack_bitfield = received_sequence_bitfield st\<rparr>;
          gen_hdr = \<lparr>gh_packet_type = packet_type_code Reliable\<rparr>
      in case pipeline_process L (conn_pipeline c) data (ucast seq) of
           Inr encrypted \<Rightarrow>
             (let out = general_packet_header_as_bytes gen_hdr @
                        reliability_packet_header_as_bytes rel_hdr @ encrypted
              in (c\<lparr>conn_state := st1\<lparr>unacknowledged_packets := unacknowledged_packets st1 @
                      [\<lparr>up_sequence = seq, up_time_sent = now, up_data = out, up_retries = 0\<rparr>]\<rparr>\<rparr>,
                  Some out))
         | Inl e \<Rightarrow> (c\<lparr>conn_state := st1\<rparr>, None))"

definition send_unreliable ::
  "profile \<Rightarrow> libs \<Rightarrow> bytes \<Rightarrow> connection \<Rightarrow> (connection \<times> bytes option) option" where
  "send_unreliable p L data c = do {
     gen_hdr \<leftarrow> slice 0 general_packet_header_size data;
     payload \<leftarrow> slice general_packet_header_size (length data) data;
     (nonce, c1) \<leftarrow> get_tx_nonce p c;
     Some (case pipeline_process L (conn_pipeline c1) payload nonce of
             Inr encrypted \<Rightarrow> (c1, Some (gen_hdr @ to_le_bytes 8 nonce @ encrypted))
           | Inl e \<Rightarrow> (c1, None))
   }"

definition send_pending ::
  "profile \<Rightarrow> libs \<Rightarrow> instant \<Rightarrow> pending_send \<Rightarrow> connection
    \<Rightarrow> (connection \<times> bytes option) option" where
  "send_pending p L now ps c = do {
     n \<leftarrow> sub_u p (pending_bytes c) (of_nat (length (ps_data ps)));
     let c1 = c\<lparr>pending_bytes := n\<rparr>;
     (if ps_reliable ps then Some (send_reliable L now (ps_data ps) c1)
      else send_unreliable p L (ps_data ps) c1)
   }"

text \<open>The \<open>while let\<close> loop: the queue is only popped while it runs.\<close>

fun drain_queue ::
  "profile \<Rightarrow> libs \<Rightarrow> instant \<Rightarrow> pending_send list \<Rightarrow> connection
    \<Rightarrow> (connection \<times> bytes list) option" where
  "drain_queue p L now [] c = Some (c\<lparr>pending_queue := []\<rparr>, [])"
| "drain_queue p L now (ps # rest) c = do {
     (c1, wire) \<leftarrow> send_pending p L now ps (c\<lparr>pending_queue := rest\<rparr>);
     (c2, out) \<leftarrow> drain_queue p L now rest c1;
     Some (c2, (case wire of None \<Rightarrow> out | Some w \<Rightarrow> w # out))
   }"

definition swap_pipeline :: "connection \<Rightarrow> connection" where
  "swap_pipeline c =
     (case pending_pipeline_swap c of
        None \<Rightarrow> c
      | Some pl \<Rightarrow> c\<lparr>conn_pipeline := pl, pending_pipeline_swap := None\<rparr>)"

definition connection_update ::
  "profile \<Rightarrow> libs \<Rightarrow> instant \<Rightarrow> connection \<Rightarrow> (connection \<times> bytes list) option" where
  "connection_update p L now c = do {
     (st, resends) \<leftarrow> process_retransmissions p now (conn_state c);
     (c1, sent) \<leftarrow> drain_queue p L now (pending_queue c) (c\<lparr>conn_state := st\<rparr>);
     Some (swap_pipeline c1, resends @ sent)
   }"

section \<open>The invariant\<close>

definition queued_bytes :: "pending_send list \<Rightarrow> nat" where
  "queued_bytes q = sum_list (map (length \<circ> ps_data) q)"

definition pending_ok :: "connection \<Rightarrow> bool" where
  "pending_ok c \<longleftrightarrow>
     max_pending_bytes c = 1024 * 1024 \<and> queued_bytes (pending_queue c) \<le> 1024 * 1024 \<and>
     pending_bytes c = of_nat (queued_bytes (pending_queue c))"

definition nonce_ok :: "connection \<Rightarrow> bool" where
  "nonce_ok c \<longleftrightarrow> odd (unat (tx_nonce c)) = is_server c"

definition pipelines_ok :: "connection \<Rightarrow> bool" where
  "pipelines_ok c \<longleftrightarrow> pipeline_ok (conn_pipeline c) \<and>
     (\<forall>pl. pending_pipeline_swap c = Some pl \<longrightarrow> pipeline_ok pl)"

definition connection_ok :: "connection \<Rightarrow> bool" where
  "connection_ok c \<longleftrightarrow> pending_ok c \<and> nonce_ok c \<and> pipelines_ok c \<and>
     rtt_ok (conn_state c) \<and> sent_ok (conn_state c)"

lemmas connection_ok_defs = connection_ok_def pending_ok_def nonce_ok_def pipelines_ok_def

lemma connection_new_ok: "pipeline_ok pl \<Longrightarrow> connection_ok (connection_new a srv pl t1 t2)"
  by (simp add: connection_ok_defs connection_new_def queued_bytes_def rtt_ok_new sent_ok_new)

lemma queued_bytes_simps [simp]:
  "queued_bytes [] = 0"
  "queued_bytes (ps # q) = length (ps_data ps) + queued_bytes q"
  "queued_bytes (q @ q') = queued_bytes q + queued_bytes q'"
  by (simp_all add: queued_bytes_def)

lemma unat_of_nat_small: "n < 2 ^ 64 \<Longrightarrow> unat (of_nat n :: u64) = n"
  by (simp add: unat_of_nat take_bit_nat_eq_self)

text \<open>
  A slice has at most \<open>isize::MAX\<close> bytes, so the additions of \<open>queue_pending_send\<close> do not
  overflow and the packet is taken exactly when it fits.
\<close>

lemma queue_pending_send_eq:
  assumes "pending_ok c" "length data < 2 ^ 63"
  shows "queue_pending_send p data reliable c =
    Some (if 1024 * 1024 < queued_bytes (pending_queue c) + length data then c
          else c\<lparr>pending_queue := pending_queue c @ [\<lparr>ps_data = data, ps_reliable = reliable\<rparr>],
                 pending_bytes := of_nat (queued_bytes (pending_queue c) + length data)\<rparr>)"
proof -
  let ?q = "queued_bytes (pending_queue c)"
  have q: "?q \<le> 1024 * 1024" "pending_bytes c = of_nat ?q" "max_pending_bytes c = 1024 * 1024"
    using assms(1) by (simp_all add: pending_ok_def)
  have u: "unat (of_nat ?q :: u64) = ?q" "unat (of_nat (length data) :: u64) = length data"
    using q(1) assms(2) by (auto intro: unat_of_nat_small)
  have "add_u p (pending_bytes c) (of_nat (length data)) = Some (of_nat (?q + length data))"
    using q(1) assms(2) by (subst add_u_ok) (auto simp: q(2) u)
  moreover have "(1024 * 1024 :: u64) < of_nat (?q + length data) \<longleftrightarrow> 1024 * 1024 < ?q + length data"
    using q(1) assms(2) unat_of_nat_small [of "?q + length data"]
    by (simp add: word_less_nat_alt del: of_nat_add)
  ultimately show ?thesis
    by (simp add: queue_pending_send_def q(3))
qed

lemma queue_pending_send_ok:
  assumes "connection_ok c" "length data < 2 ^ 63" "queue_pending_send p data reliable c = Some c'"
  shows "connection_ok c'"
  using assms queue_pending_send_eq [of c data p reliable]
  by (auto simp: connection_ok_defs split: if_splits)

section \<open>Properties\<close>

text \<open>
  Queueing a packet never panics and never takes the queue over its limit of one mebibyte: the
  packet is appended when it fits and dropped otherwise, and the byte count stays exact.
\<close>

theorem queue_within_limit:
  assumes "pending_ok c" "length data < 2 ^ 63"
  shows "\<exists>c'. queue_pending_send p data reliable c = Some c' \<and> pending_ok c' \<and>
    pending_queue c' = (if queued_bytes (pending_queue c) + length data \<le> 1024 * 1024
      then pending_queue c @ [\<lparr>ps_data = data, ps_reliable = reliable\<rparr>] else pending_queue c)"
  using assms(1) queue_pending_send_eq [OF assms, of p reliable]
  by (auto simp: pending_ok_def)

theorem queue_within_limit_witness:
  "\<exists>c'. queue_pending_send Debug (replicate 100 0) True
      (connection_new \<lparr>sa_ip = [], sa_port = 80\<rparr> True NullPipeline 0 0) = Some c' \<and>
    pending_ok c' \<and> pending_queue c' = [\<lparr>ps_data = replicate 100 0, ps_reliable = True\<rparr>]"
proof -
  let ?c = "connection_new \<lparr>sa_ip = [], sa_port = 80\<rparr> True NullPipeline 0 0"
  have "pending_ok ?c" by (simp add: pending_ok_def connection_new_def)
  from queue_within_limit [OF this, of "replicate 100 0" Debug True] show ?thesis
    by (simp add: connection_new_def)
qed

end
