(* ===== verification/Flush.thy ===== *)
theory Flush
  imports Connection
begin

text \<open>
  What a flush of a connection puts on the wire. \<open>number_sends\<close> is the specification: the queued
  sends in order, each with the cipher nonce it must get, the sequence number for a reliable one and
  the transmit nonce for an unreliable one. The draining loop emits one datagram per send, from
  which the peer's pipeline recovers the data under that nonce.
\<close>

fun number_sends :: "u16 \<Rightarrow> u64 \<Rightarrow> pending_send list \<Rightarrow> (pending_send \<times> u64) list" where
  "number_sends seq nonce [] = []"
| "number_sends seq nonce (ps # q) =
     (if ps_reliable ps then (ps, ucast seq) # number_sends (seq + 1) nonce q
      else (ps, nonce) # number_sends seq (nonce + 2) q)"

text \<open>
  The datagram that carries a send: the header bytes, with the connection's current acknowledgement
  fields in a reliable one, and a body from which the pipeline recovers the data.
\<close>

definition carries :: "libs \<Rightarrow> connection \<Rightarrow> pending_send \<times> u64 \<Rightarrow> bytes \<Rightarrow> bool" where
  "carries L c send w =
     (case send of (ps, n) \<Rightarrow>
        if ps_reliable ps then
          (\<exists>body. w = packet_type_code Reliable #
             reliability_packet_header_as_bytes
               \<lparr>rh_sequence = ucast n, rh_ack = highest_received_sequence (conn_state c),
                rh_ack_bitfield = received_sequence_bitfield (conn_state c)\<rparr> @ body \<and>
             pipeline_inverse_process L (conn_pipeline c) body n = Inr (ps_data ps))
        else
          (\<exists>b payload body. ps_data ps = b # payload \<and> w = b # to_le_bytes 8 n @ body \<and>
             pipeline_inverse_process L (conn_pipeline c) body n = Inr payload))"

definition sendable :: "pending_send \<Rightarrow> bool" where
  "sendable ps \<longleftrightarrow> ps_reliable ps \<or> ps_data ps \<noteq> []"

section \<open>One iteration\<close>

text \<open>What a flush leaves alone: everything but the reliable state, the nonce and the queue.\<close>

definition same_setup :: "connection \<Rightarrow> connection \<Rightarrow> bool" where
  "same_setup c c' \<longleftrightarrow>
     endpoint c' = endpoint c \<and> is_server c' = is_server c \<and> last_seen c' = last_seen c \<and>
     rx_nonce_tracker c' = rx_nonce_tracker c \<and>
     handshake_sent c' = handshake_sent c \<and> max_pending_bytes c' = max_pending_bytes c \<and>
     conn_pipeline c' = conn_pipeline c \<and> pending_pipeline_swap c' = pending_pipeline_swap c \<and>
     is_authenticated c' = is_authenticated c"

lemma same_setup_simps [simp]:
  "same_setup (c\<lparr>pending_bytes := n\<rparr>) c' = same_setup c c'"
  "same_setup (c\<lparr>pending_queue := q\<rparr>) c' = same_setup c c'"
  "same_setup (c\<lparr>conn_state := st\<rparr>) c' = same_setup c c'"
  "same_setup c (c'\<lparr>pending_bytes := n\<rparr>) = same_setup c c'"
  "same_setup c (c'\<lparr>pending_queue := q\<rparr>) = same_setup c c'"
  "same_setup c (c'\<lparr>tx_nonce := t\<rparr>) = same_setup c c'"
  "same_setup c (c'\<lparr>conn_state := st\<rparr>) = same_setup c c'"
  "same_setup c c"
  by (simp_all add: same_setup_def)

lemma same_setup_trans: "same_setup a b \<Longrightarrow> same_setup b c \<Longrightarrow> same_setup a c"
  by (simp add: same_setup_def)

lemma carries_cong:
  "conn_pipeline c = conn_pipeline c' \<Longrightarrow>
   highest_received_sequence (conn_state c) = highest_received_sequence (conn_state c') \<Longrightarrow>
   received_sequence_bitfield (conn_state c) = received_sequence_bitfield (conn_state c') \<Longrightarrow>
   carries L c = carries L c'"
  by (simp only: carries_def fun_eq_iff simp_thms)

lemma ucast_ucast_16: "ucast (ucast (a :: u16) :: u64) = a"
  by (rule bit_word_eqI) (auto simp: bit_simps)

lemma send_reliable_spec:
  assumes "libs_ok L" "pipeline_ok (conn_pipeline c)" "length data < 2 ^ 32"
  defines "seq \<equiv> next_outgoing_sequence (conn_state c)"
  shows "\<exists>c' w. send_reliable L now data c = (c', Some w) \<and>
    carries L c (\<lparr>ps_data = data, ps_reliable = True\<rparr>, ucast seq) w \<and>
    same_setup c c' \<and> tx_nonce c' = tx_nonce c \<and> pending_bytes c' = pending_bytes c \<and>
    conn_state c' = conn_state c\<lparr>next_outgoing_sequence := seq + 1,
      unacknowledged_packets := unacknowledged_packets (conn_state c) @
        [\<lparr>up_sequence = seq, up_time_sent = now, up_data = w, up_retries = 0\<rparr>]\<rparr>"
proof -
  obtain e where "pipeline_process L (conn_pipeline c) data (ucast seq) = Inr e"
    and "pipeline_inverse_process L (conn_pipeline c) e (ucast seq) = Inr data"
    using pipeline_roundtrip [OF assms(1-3)] by blast
  then show ?thesis
    by (simp add: ucast_ucast_16 send_reliable_def seq_def Let_def carries_def same_setup_def
        general_packet_header_as_bytes_def)
qed

lemma slice_header: "slice 0 (Suc 0) (b # xs) = Some [b]" "slice (Suc 0) (Suc (length xs)) (b # xs) = Some xs"
  by (simp_all add: slice_def)

lemma send_unreliable_spec:
  assumes L: "libs_ok L" and pl: "pipeline_ok (conn_pipeline c)" and len: "length payload < 2 ^ 32"
    and nonce: "add_u p (tx_nonce c) 2 = Some n'"
  shows "\<exists>w. send_unreliable p L (b # payload) c = Some (c\<lparr>tx_nonce := n'\<rparr>, Some w) \<and>
    carries L c (\<lparr>ps_data = b # payload, ps_reliable = False\<rparr>, tx_nonce c) w"
proof -
  obtain e where "pipeline_process L (conn_pipeline c) payload (tx_nonce c) = Inr e"
    and "pipeline_inverse_process L (conn_pipeline c) e (tx_nonce c) = Inr payload"
    using pipeline_roundtrip [OF L pl len] by blast
  then show ?thesis
    using nonce
    by (simp add: send_unreliable_def slice_header get_tx_nonce_def carries_def)
qed

lemma send_unreliable_empty: "send_unreliable p L [] c = None"
  by (simp add: send_unreliable_def slice_def)

text \<open>
  An iteration of the loop on a queue entry. Without overflow checks it always succeeds; with them
  it does as long as the transmit nonce does not overflow.
\<close>

lemma send_pending_spec:
  assumes L: "libs_ok L" and pl: "pipeline_ok (conn_pipeline c)"
    and ok: "sendable ps" and len: "length (ps_data ps) < 2 ^ 32"
    and bytes: "pending_bytes c = of_nat (length (ps_data ps) + k)" "length (ps_data ps) + k < 2 ^ 64"
    and nonce: "\<not> ps_reliable ps \<longrightarrow> add_u p (tx_nonce c) 2 \<noteq> None"
  defines "seq \<equiv> next_outgoing_sequence (conn_state c)"
  shows "\<exists>c' w. send_pending p L now ps c = Some (c', Some w) \<and>
    carries L c (ps, if ps_reliable ps then ucast seq else tx_nonce c) w \<and>
    same_setup c c' \<and> pending_bytes c' = of_nat k \<and>
    tx_nonce c' = (if ps_reliable ps then tx_nonce c else tx_nonce c + 2) \<and>
    conn_state c' = (if ps_reliable ps then
      conn_state c\<lparr>next_outgoing_sequence := seq + 1,
        unacknowledged_packets := unacknowledged_packets (conn_state c) @
          [\<lparr>up_sequence = seq, up_time_sent = now, up_data = w, up_retries = 0\<rparr>]\<rparr>
      else conn_state c)"
proof -
  have "unat (of_nat (length (ps_data ps)) :: u64) \<le> unat (pending_bytes c)"
    using bytes unat_of_nat_small [of "length (ps_data ps)"]
      unat_of_nat_small [of "length (ps_data ps) + k"] by (simp del: of_nat_add)
  then have sub: "sub_u p (pending_bytes c) (of_nat (length (ps_data ps))) = Some (of_nat k)"
    by (simp add: sub_u_ok bytes(1))
  let ?c = "c\<lparr>pending_bytes := of_nat k\<rparr>"
  show ?thesis
  proof (cases "ps_reliable ps")
    case True
    then have ps: "\<lparr>ps_data = ps_data ps, ps_reliable = True\<rparr> = ps" by simp
    have carr: "carries L ?c = carries L c" by (rule carries_cong) simp_all
    show ?thesis
      using send_reliable_spec [of L ?c "ps_data ps" now] L pl len True
      by (simp add: send_pending_def sub seq_def ps carr split: prod.splits) (metis (no_types))
  next
    case False
    then obtain b payload where d: "ps_data ps = b # payload"
      using ok by (cases "ps_data ps") (auto simp: sendable_def)
    then have ps: "\<lparr>ps_data = b # payload, ps_reliable = False\<rparr> = ps" using False by simp
    have carr: "carries L ?c = carries L c" by (rule carries_cong) simp_all
    obtain n' where n': "add_u p (tx_nonce c) 2 = Some n'" using nonce False by auto
    then have "n' = tx_nonce c + 2" by (rule add_u_SomeD)
    moreover obtain w where "send_unreliable p L (b # payload) ?c = Some (?c\<lparr>tx_nonce := n'\<rparr>, Some w)"
        "carries L ?c (ps, tx_nonce c) w"
      using send_unreliable_spec [of L ?c payload p n' b] L pl len d n' ps by auto
    ultimately show ?thesis
      using False sub by (simp add: send_pending_def d carr [symmetric])
  qed
qed


section \<open>The draining loop\<close>

text \<open>The reliable entries of a numbered queue, as the unacknowledged packets they become.\<close>

fun unacked_of :: "instant \<Rightarrow> (pending_send \<times> u64) list \<Rightarrow> bytes list \<Rightarrow> unacked_packet list" where
  "unacked_of now ((ps, n) # sends) (w # ws) =
     (if ps_reliable ps
      then [\<lparr>up_sequence = ucast n, up_time_sent = now, up_data = w, up_retries = 0\<rparr>] else []) @
     unacked_of now sends ws"
| "unacked_of now sends ws = []"

definition count_reliable :: "pending_send list \<Rightarrow> nat" where
  "count_reliable q = length (filter ps_reliable q)"

definition count_unreliable :: "pending_send list \<Rightarrow> nat" where
  "count_unreliable q = length (filter (Not \<circ> ps_reliable) q)"

lemma count_simps [simp]:
  "count_reliable [] = 0" "count_unreliable [] = 0"
  "count_reliable (ps # q) = (if ps_reliable ps then Suc (count_reliable q) else count_reliable q)"
  "count_unreliable (ps # q) = (if ps_reliable ps then count_unreliable q else Suc (count_unreliable q))"
  by (simp_all add: count_reliable_def count_unreliable_def)

text \<open>The transmit nonce stays below \<open>2 ^ 64\<close>, which matters when overflow is checked.\<close>

definition nonce_room :: "profile \<Rightarrow> pending_send list \<Rightarrow> u64 \<Rightarrow> bool" where
  "nonce_room p q nonce \<longleftrightarrow> p = Debug \<longrightarrow> unat nonce + 2 * count_unreliable q < 2 ^ 64"

lemma nonce_room_Cons:
  assumes "nonce_room p (ps # q) nonce"
  shows "\<not> ps_reliable ps \<Longrightarrow> add_u p nonce 2 \<noteq> None"
    and "nonce_room p q (if ps_reliable ps then nonce else nonce + 2)"
proof -
  show "add_u p nonce 2 \<noteq> None" if "\<not> ps_reliable ps"
    using assms that by (cases p) (auto simp: nonce_room_def add_u_ok)
  show "nonce_room p q (if ps_reliable ps then nonce else nonce + 2)"
    using assms by (cases p) (auto simp: nonce_room_def unat_add_no_wrap)
qed

lemma drain_queue_spec:
  assumes "libs_ok L" "pipeline_ok (conn_pipeline c)"
    and "list_all sendable q" "list_all (\<lambda>ps. length (ps_data ps) < 2 ^ 32) q"
    and "pending_bytes c = of_nat (queued_bytes q)" "queued_bytes q < 2 ^ 64"
    and "nonce_room p q (tx_nonce c)"
  defines "sends \<equiv> number_sends (next_outgoing_sequence (conn_state c)) (tx_nonce c) q"
  shows "\<exists>c' ws. drain_queue p L now q c = Some (c', ws) \<and>
    list_all2 (carries L c) sends ws \<and> same_setup c c' \<and>
    pending_queue c' = [] \<and> pending_bytes c' = 0 \<and>
    tx_nonce c' = tx_nonce c + 2 * of_nat (count_unreliable q) \<and>
    conn_state c' = conn_state c\<lparr>
      next_outgoing_sequence := next_outgoing_sequence (conn_state c) + of_nat (count_reliable q),
      unacknowledged_packets := unacknowledged_packets (conn_state c) @ unacked_of now sends ws\<rparr>"
  using assms(2-7) unfolding sends_def
proof (induction q arbitrary: c)
  case Nil
  then show ?case by simp
next
  case (Cons ps q)
  let ?c = "c\<lparr>pending_queue := q\<rparr>"
  let ?seq = "next_outgoing_sequence (conn_state c)"
  obtain c1 w where send: "send_pending p L now ps ?c = Some (c1, Some w)"
    and carr: "carries L ?c (ps, if ps_reliable ps then ucast ?seq else tx_nonce c) w"
    and frame: "same_setup c c1" and bytes: "pending_bytes c1 = of_nat (queued_bytes q)"
    and nonce: "tx_nonce c1 = (if ps_reliable ps then tx_nonce c else tx_nonce c + 2)"
    and st: "conn_state c1 = (if ps_reliable ps then
      conn_state c\<lparr>next_outgoing_sequence := ?seq + 1,
        unacknowledged_packets := unacknowledged_packets (conn_state c) @
          [\<lparr>up_sequence = ?seq, up_time_sent = now, up_data = w, up_retries = 0\<rparr>]\<rparr>
      else conn_state c)"
    using send_pending_spec [of L ?c ps "queued_bytes q" p now] assms(1) Cons.prems
      nonce_room_Cons(1) [of p ps q "tx_nonce c"]
    by (auto simp del: of_nat_add cong: if_cong)
  have pl: "conn_pipeline c1 = conn_pipeline c" using frame by (simp add: same_setup_def)
  obtain c2 ws where rec: "drain_queue p L now q c1 = Some (c2, ws)"
      "list_all2 (carries L c1)
        (number_sends (next_outgoing_sequence (conn_state c1)) (tx_nonce c1) q) ws"
      "same_setup c1 c2" "pending_queue c2 = []" "pending_bytes c2 = 0"
      "tx_nonce c2 = tx_nonce c1 + 2 * of_nat (count_unreliable q)"
      "conn_state c2 = conn_state c1\<lparr>
        next_outgoing_sequence := next_outgoing_sequence (conn_state c1) + of_nat (count_reliable q),
        unacknowledged_packets := unacknowledged_packets (conn_state c1) @
          unacked_of now
            (number_sends (next_outgoing_sequence (conn_state c1)) (tx_nonce c1) q) ws\<rparr>"
    using Cons.IH [of c1] Cons.prems pl bytes nonce nonce_room_Cons(2) [of p ps q "tx_nonce c"]
    by auto
  have "carries L c1 = carries L c" "carries L ?c = carries L c"
    by (rule carries_cong; simp add: pl st)+
  then show ?case
    using send carr nonce st rec same_setup_trans [OF frame rec(3)]
    by (auto simp: ucast_ucast_16)
qed

section \<open>An update of a connection\<close>

lemma process_retransmissions_frame:
  assumes "process_retransmissions p now s = Some (s', out)"
  shows "next_outgoing_sequence s' = next_outgoing_sequence s"
    "highest_received_sequence s' = highest_received_sequence s"
    "received_sequence_bitfield s' = received_sequence_bitfield s"
    "last_packet_received_time s' = last_packet_received_time s"
  using assms by (auto simp: process_retransmissions_def bind_Some_conv)

lemma process_retransmissions_sent_ok:
  assumes "process_retransmissions p now s = Some (s', out)" "rtt_ok s" "sent_ok s" "0 \<le> now"
  shows "sent_ok s'"
proof -
  obtain rto stats where loop: "retransmit_loop p now (unacknowledged_packets s)
      (retransmission_timeout_ms s) (stats_retransmits s) =
      Some (unacknowledged_packets s', rto, stats, out)"
    using assms(1) by (auto simp: process_retransmissions_def bind_Some_conv)
  obtain due where "length due = length (unacknowledged_packets s)"
    and "unacknowledged_packets s' = retransmitted now due (unacknowledged_packets s)"
    using retransmit_loop_spec [OF loop] by (auto simp: due_exactly_def)
  then show ?thesis
    using retransmitted_times [of due "unacknowledged_packets s" now] assms(3,4)
    by (simp add: sent_ok_def)
qed

lemma unacked_of_times: "pkt \<in> set (unacked_of now sends ws) \<Longrightarrow> up_time_sent pkt = now"
  by (induction now sends ws rule: unacked_of.induct) (auto split: if_splits)

lemma odd_unat_add_even: "odd (unat (n + 2 * k :: u64)) = odd (unat n)"
  by (simp add: unat_word_ariths mod_mult2_eq [of _ 2 "2 ^ 63", simplified] odd_iff_mod_2_eq_one mod_mod_cancel)

lemma queued_bytes_member: "ps \<in> set q \<Longrightarrow> length (ps_data ps) \<le> queued_bytes q"
  unfolding queued_bytes_def by (rule member_le_sum_list) auto

text \<open>
  The resends come first, in the order of the unacknowledged packets, then one datagram per queued
  send; the swap of the pipeline happens after them, so that every datagram of this update was made
  by the pipeline the connection had before it.
\<close>

lemma connection_update_spec:
  assumes "libs_ok L" "connection_ok c" "list_all sendable (pending_queue c)" "0 \<le> now"
    and "nonce_room p (pending_queue c) (tx_nonce c)"
    and re: "process_retransmissions p now (conn_state c) = Some (st, resends)"
  defines "sends \<equiv>
    number_sends (next_outgoing_sequence (conn_state c)) (tx_nonce c) (pending_queue c)"
  shows "\<exists>c' ws. connection_update p L now c = Some (c', resends @ ws) \<and>
    list_all2 (carries L c) sends ws \<and> connection_ok c' \<and> pending_queue c' = [] \<and>
    conn_pipeline c' = (case pending_pipeline_swap c of None \<Rightarrow> conn_pipeline c | Some pl \<Rightarrow> pl) \<and>
    pending_pipeline_swap c' = None \<and>
    unacknowledged_packets (conn_state c') =
      unacknowledged_packets st @ unacked_of now sends ws"
proof -
  let ?q = "pending_queue c"
  let ?c = "c\<lparr>conn_state := st\<rparr>"
  note frame = process_retransmissions_frame [OF re]
  have ok: "queued_bytes ?q \<le> 1024 * 1024" "pending_bytes c = of_nat (queued_bytes ?q)"
    "pipeline_ok (conn_pipeline c)" "rtt_ok (conn_state c)" "sent_ok (conn_state c)"
    using assms(2) by (simp_all add: connection_ok_defs)
  have "list_all (\<lambda>ps. length (ps_data ps) < 2 ^ 32) ?q"
    using queued_bytes_member [of _ ?q] ok(1) by (fastforce simp: list_all_iff)
  then obtain c1 ws where drain: "drain_queue p L now ?q ?c = Some (c1, ws)"
    "list_all2 (carries L ?c) sends ws" "same_setup ?c c1" "pending_queue c1 = []"
    "pending_bytes c1 = 0" "tx_nonce c1 = tx_nonce c + 2 * of_nat (count_unreliable ?q)"
    "conn_state c1 = st\<lparr>
      next_outgoing_sequence := next_outgoing_sequence st + of_nat (count_reliable ?q),
      unacknowledged_packets := unacknowledged_packets st @ unacked_of now sends ws\<rparr>"
    using drain_queue_spec [of L ?c ?q p now] assms(1,3,5) ok frame
    unfolding sends_def by auto
  have "carries L ?c = carries L c" by (rule carries_cong) (simp_all add: frame)
  moreover have "connection_ok c1"
    using assms(2) drain(3-7) process_retransmissions_ok [OF re ok(4)]
      process_retransmissions_sent_ok [OF re ok(4,5) assms(4)] assms(4)
    by (auto simp: connection_ok_defs same_setup_def rtt_ok_def sent_ok_def odd_unat_add_even
        dest: unacked_of_times)
  then have "connection_ok (swap_pipeline c1)"
    by (auto simp: swap_pipeline_def connection_ok_defs split: option.splits)
  ultimately show ?thesis
    using drain re
    by (auto simp: connection_update_def swap_pipeline_def same_setup_def split: option.splits)
qed

text \<open>
  An empty packet that was queued as unreliable has no type byte: the flush that reaches it panics,
  in both profiles.
\<close>

lemma drain_queue_panics:
  "\<not> list_all sendable q \<Longrightarrow> drain_queue p L now q c = None"
proof (induction q arbitrary: c)
  case Nil
  then show ?case by simp
next
  case (Cons ps q)
  show ?case
  proof (cases "sendable ps")
    case True
    with Cons show ?thesis by (auto split: bind_splits)
  next
    case False
    then show ?thesis
      by (auto simp: send_pending_def sendable_def send_unreliable_empty split: bind_splits)
  qed
qed

lemma connection_update_panics:
  "\<not> list_all sendable (pending_queue c) \<Longrightarrow> connection_update p L now c = None"
  by (auto simp: connection_update_def drain_queue_panics split: bind_splits)

text \<open>
  A flush that returns had room for its nonces: with overflow checks it panics otherwise. So an
  update that returns at all keeps the invariant.
\<close>

lemma send_reliable_same:
  "same_setup c (fst (send_reliable L now data c)) \<and>
   tx_nonce (fst (send_reliable L now data c)) = tx_nonce c"
  by (simp add: send_reliable_def Let_def split: sum.split)

lemma send_unreliable_same:
  assumes "send_unreliable p L data c = Some (c', w)"
  shows "same_setup c c' \<and> add_u p (tx_nonce c) 2 = Some (tx_nonce c')"
proof -
  from assms obtain h d n c1 where "get_tx_nonce p c = Some (n, c1)"
    and "(case pipeline_process L (conn_pipeline c1) d n of
        Inr e \<Rightarrow> (c1, Some (h @ to_le_bytes 8 n @ e)) | Inl e \<Rightarrow> (c1, None)) = (c', w)"
    by (auto simp: send_unreliable_def bind_Some_conv)
  then show ?thesis
    by (cases "pipeline_process L (conn_pipeline c1) d n")
      (auto simp: get_tx_nonce_def bind_Some_conv)
qed

lemma send_pending_same:
  assumes "send_pending p L now ps c = Some (c', w)"
  shows "same_setup c c'"
    and "if ps_reliable ps then tx_nonce c' = tx_nonce c
      else add_u p (tx_nonce c) 2 = Some (tx_nonce c')"
proof -
  obtain n where n: "(if ps_reliable ps then Some (send_reliable L now (ps_data ps) (c\<lparr>pending_bytes := n\<rparr>))
      else send_unreliable p L (ps_data ps) (c\<lparr>pending_bytes := n\<rparr>)) = Some (c', w)"
    using assms by (auto simp: send_pending_def bind_Some_conv Let_def)
  have "same_setup c c' \<and> (if ps_reliable ps then tx_nonce c' = tx_nonce c
      else add_u p (tx_nonce c) 2 = Some (tx_nonce c'))"
  proof (cases "ps_reliable ps")
    case True
    with n have "c' = fst (send_reliable L now (ps_data ps) (c\<lparr>pending_bytes := n\<rparr>))" by simp
    with True send_reliable_same [of "c\<lparr>pending_bytes := n\<rparr>"] show ?thesis by simp
  next
    case False
    with n send_unreliable_same [of p L "ps_data ps" "c\<lparr>pending_bytes := n\<rparr>"] show ?thesis by simp
  qed
  then show "same_setup c c'" "if ps_reliable ps then tx_nonce c' = tx_nonce c
      else add_u p (tx_nonce c) 2 = Some (tx_nonce c')" by blast+
qed

lemma drain_queue_nonce_room:
  "drain_queue p L now q c = Some r \<Longrightarrow> nonce_room p q (tx_nonce c)"
proof (induction q arbitrary: c r)
  case Nil
  have "unat (tx_nonce c) < 2 ^ LENGTH(64)" by (rule unsigned_less)
  then show ?case by (simp add: nonce_room_def)
next
  case (Cons ps q)
  from Cons.prems obtain c1 w r' where send: "send_pending p L now ps (c\<lparr>pending_queue := q\<rparr>) = Some (c1, w)"
    and rec: "drain_queue p L now q c1 = Some r'"
    by (auto simp: bind_Some_conv)
  from Cons.IH [OF rec] send_pending_same(2) [OF send] show ?case
    by (cases p) (auto simp: nonce_room_def add_u_def not_le unat_add_no_wrap split: if_splits)
qed

lemma connection_update_ok:
  assumes "libs_ok L" "connection_ok c" "0 \<le> now" "connection_update p L now c = Some (c', out)"
  shows "connection_ok c'" and "pending_queue c' = []"
    and "conn_pipeline c' = (case pending_pipeline_swap c of None \<Rightarrow> conn_pipeline c | Some pl \<Rightarrow> pl)"
proof -
  have q: "list_all sendable (pending_queue c)"
    using assms(4) connection_update_panics [of c p L now] by auto
  obtain st resends r where re: "process_retransmissions p now (conn_state c) = Some (st, resends)"
    and drain: "drain_queue p L now (pending_queue c) (c\<lparr>conn_state := st\<rparr>) = Some r"
    using assms(4) by (auto simp: connection_update_def bind_Some_conv)
  have "nonce_room p (pending_queue c) (tx_nonce c)"
    using drain_queue_nonce_room [OF drain] by simp
  from connection_update_spec [OF assms(1,2) q assms(3) this re] assms(4)
  show "connection_ok c'" "pending_queue c' = []"
    "conn_pipeline c' = (case pending_pipeline_swap c of None \<Rightarrow> conn_pipeline c | Some pl \<Rightarrow> pl)"
    by auto
qed

lemma drain_queue_same: "drain_queue p L now q c = Some (c', ws) \<Longrightarrow> same_setup c c'"
proof (induction q arbitrary: c ws)
  case Nil
  then show ?case by auto
next
  case (Cons ps q)
  from Cons.prems obtain c1 w ws' where
    send: "send_pending p L now ps (c\<lparr>pending_queue := q\<rparr>) = Some (c1, w)"
    and rec: "drain_queue p L now q c1 = Some (c', ws')"
    by (auto simp: bind_Some_conv)
  from send_pending_same(1) [OF send] Cons.IH [OF rec] show ?case
    by (auto intro: same_setup_trans)
qed

lemma connection_update_endpoint:
  assumes "connection_update p L now c = Some (c', out)"
  shows "endpoint c' = endpoint c \<and> is_server c' = is_server c \<and> last_seen c' = last_seen c"
proof -
  obtain st c1 ws where "drain_queue p L now (pending_queue c) (c\<lparr>conn_state := st\<rparr>) = Some (c1, ws)"
    and "c' = swap_pipeline c1"
    using assms by (auto simp: connection_update_def bind_Some_conv)
  then show ?thesis
    by (auto dest!: drain_queue_same simp: same_setup_def swap_pipeline_def split: option.split)
qed

section \<open>Properties\<close>

text \<open>
  C35: without overflow checks, flushing a connection panics exactly when an empty packet was queued as
  unreliable: such a packet has no type byte, and nothing at the entrance of the queue refuses it.
\<close>

theorem flush_panics_iff_empty_unreliable:
  assumes "libs_ok L" "connection_ok c" "0 \<le> now"
  shows "connection_update Release L now c = None \<longleftrightarrow>
    (\<exists>ps \<in> set (pending_queue c). \<not> ps_reliable ps \<and> ps_data ps = [])"
proof (cases "list_all sendable (pending_queue c)")
  case True
  obtain st out where "process_retransmissions Release now (conn_state c) = Some (st, out)"
    using process_retransmissions_total by (metis surj_pair)
  from connection_update_spec [OF assms(1,2) True assms(3) _ this] True show ?thesis
    by (auto simp: nonce_room_def list_all_iff sendable_def)
next
  case False
  with connection_update_panics [OF False] show ?thesis
    by (auto simp: list_all_iff sendable_def)
qed

theorem flush_panics_iff_empty_unreliable_witness:
  "connection_update Release plain_libs 0
     ((connection_new \<lparr>sa_ip = [], sa_port = 80\<rparr> True NullPipeline 0 0)
       \<lparr>pending_queue := [\<lparr>ps_data = [], ps_reliable = False\<rparr>]\<rparr>) = None"
proof -
  let ?c = "(connection_new \<lparr>sa_ip = [], sa_port = 80\<rparr> True NullPipeline 0 0)
    \<lparr>pending_queue := [\<lparr>ps_data = [], ps_reliable = False\<rparr>]\<rparr>"
  have "connection_ok ?c"
    using connection_new_ok [of NullPipeline]
    by (simp add: connection_ok_defs connection_new_def pipeline_ok_def)
  from flush_panics_iff_empty_unreliable [OF plain_libs_ok this, of 0] show ?thesis by simp
qed

end
