(* ===== verification/Manager.thy ===== *)
theory Manager
  imports Flush
begin

text \<open>
  The connections of a peer by address: \<open>ConnectionManager\<close> of
  \<open>crates/connection/src/manager.rs\<close>. The hash map of connections is a map
  \<open>sock_addr \<rightharpoonup> connection\<close>. Both the server and the client drive one manager.
\<close>

section \<open>State and arguments\<close>

type_synonym manager = "sock_addr \<rightharpoonup> connection"

text \<open>
  The readings of the clock that \<open>handle_packet\<close> makes: two in \<open>Connection::new\<close>, the new
  \<open>last_seen\<close>, the elapsed nanoseconds that go into a session key, and the time given to the
  reliable state.
\<close>

record clock_readings =
  cr_new_state :: instant
  cr_new_seen :: instant
  cr_last_seen :: instant
  cr_elapsed :: u128
  cr_incoming :: instant

definition manager_new :: manager where
  "manager_new = (\<lambda>_. None)"

definition static_poc_key :: bytes where
  "static_poc_key = replicate 32 0x42"

section \<open>Handshake\<close>

text \<open>
  The session key of a new connection: the first 32 bytes of the text of the IP address, padded
  with zeros, with the bytes of the elapsed time folded into the second half.
\<close>

definition handshake_key :: "bytes \<Rightarrow> u128 \<Rightarrow> bytes" where
  "handshake_key ip elapsed =
     (let key = take 32 ip @ replicate (32 - length ip) 0
      in take 16 key @ map2 (XOR) (drop 16 key) (to_le_bytes 16 elapsed))"

definition handshake_message :: "bytes \<Rightarrow> bytes" where
  "handshake_message key =
     general_packet_header_as_bytes \<lparr>gh_packet_type = packet_type_code Reliable\<rparr> @
     handshake_packet_as_bytes \<lparr>hp_session_key = key\<rparr>"

definition dispatch_handshake :: "profile \<Rightarrow> bytes \<Rightarrow> connection \<Rightarrow> connection option" where
  "dispatch_handshake p key c = do {
     c1 \<leftarrow> queue_pending_send p (handshake_message key) True c;
     sp \<leftarrow> secure_pipeline_new key;
     Some (c1\<lparr>handshake_sent := True, pending_pipeline_swap := Some (SecurePipeline sp)\<rparr>)
   }"

text \<open>\<open>entry(addr).or_insert_with\<close>, the update of \<open>last_seen\<close> and the handshake of a new one.\<close>

definition fresh_connection ::
  "sock_addr \<Rightarrow> bool \<Rightarrow> instant \<Rightarrow> instant \<Rightarrow> connection option" where
  "fresh_connection addr server now1 now2 = do {
     sp \<leftarrow> secure_pipeline_new static_poc_key;
     Some (connection_new addr server (SecurePipeline sp) now1 now2)
   }"

definition accept_sender ::
  "profile \<Rightarrow> clock_readings \<Rightarrow> sock_addr \<Rightarrow> manager \<Rightarrow> connection option" where
  "accept_sender p t addr m =
     (case m addr of
        Some c \<Rightarrow> Some (c\<lparr>last_seen := cr_last_seen t\<rparr>)
      | None \<Rightarrow> do {
          c \<leftarrow> fresh_connection addr True (cr_new_state t) (cr_new_seen t);
          let c1 = c\<lparr>last_seen := cr_last_seen t\<rparr>;
          (if is_server c1 then dispatch_handshake p (handshake_key (sa_ip addr) (cr_elapsed t)) c1
           else Some c1)
        })"

section \<open>Incoming packets\<close>

text \<open>
  A decrypted reliable payload is the handshake of the peer, which replaces the pipeline, or data
  for the application.
\<close>

definition take_payload ::
  "bytes \<Rightarrow> connection \<Rightarrow> (connection \<times> bytes option) option" where
  "take_payload decrypted c =
     (let hs_offset = general_packet_header_size in
      case general_packet_header_read decrypted of
        None \<Rightarrow> Some (c, Some decrypted)
      | Some inner_hdr \<Rightarrow>
          if gh_packet_type inner_hdr = packet_type_code Reliable \<and>
             hs_offset + handshake_packet_size \<le> length decrypted
          then do {
            body \<leftarrow> slice hs_offset (length decrypted) decrypted;
            (case handshake_packet_read body of
               None \<Rightarrow> Some (c, Some decrypted)
             | Some hs \<Rightarrow> do {
                 sp \<leftarrow> secure_pipeline_new (hp_session_key hs);
                 Some (c\<lparr>is_authenticated := True, conn_pipeline := SecurePipeline sp\<rparr>, None)
               })
          }
          else Some (c, Some decrypted))"

text \<open>
  The result of \<open>process_incoming_header\<close>, whether the packet is new, is not used. The check
  under \<open>is_authenticated\<close> reads again the header that selected this branch.
\<close>

definition drop_unauthenticated :: "connection \<Rightarrow> bytes \<Rightarrow> bool" where
  "drop_unauthenticated c data \<longleftrightarrow>
     \<not> is_authenticated c \<and>
     (case general_packet_header_read data of
        None \<Rightarrow> True
      | Some g \<Rightarrow> gh_packet_type g \<noteq> packet_type_code Reliable)"

definition receive_reliable ::
  "profile \<Rightarrow> libs \<Rightarrow> instant \<Rightarrow> bytes \<Rightarrow> connection \<Rightarrow> (connection \<times> bytes option) option" where
  "receive_reliable p L now data c =
     (let gen_size = general_packet_header_size; rel_size = reliability_packet_header_size in
      if gen_size + rel_size \<le> length data then do {
        rest \<leftarrow> slice gen_size (length data) data;
        (case reliability_packet_header_read rest of
           None \<Rightarrow> Some (c, None)
         | Some rel_hdr \<Rightarrow> do {
             (st, accepted) \<leftarrow> process_incoming_header p rel_hdr now (conn_state c);
             let c1 = c\<lparr>conn_state := st\<rparr>;
             (if drop_unauthenticated c1 data then Some (c1, None)
              else do {
                payload \<leftarrow> slice (gen_size + rel_size) (length data) data;
                (case pipeline_inverse_process L (conn_pipeline c1) payload
                        (ucast (rh_sequence rel_hdr)) of
                   Inr decrypted \<Rightarrow> take_payload decrypted c1
                 | Inl e \<Rightarrow> Some (c1, None))
              })
           })
      }
      else Some (c, None))"

definition receive_unreliable ::
  "libs \<Rightarrow> general_packet_header \<Rightarrow> bytes \<Rightarrow> connection \<Rightarrow> bytes option option" where
  "receive_unreliable L gen_hdr data c =
     (let gen_size = general_packet_header_size in
      if length data < gen_size + 8 then Some None
      else do {
        nonce_bytes \<leftarrow> slice gen_size (gen_size + 8) data;
        payload \<leftarrow> slice (gen_size + 8) (length data) data;
        (case pipeline_inverse_process L (conn_pipeline c) payload (from_le_bytes nonce_bytes) of
           Inr decrypted \<Rightarrow> Some (Some (general_packet_header_as_bytes gen_hdr @ decrypted))
         | Inl e \<Rightarrow> Some None)
      })"

text \<open>The reason code of a disconnect packet is only logged.\<close>

definition process_disconnect :: "sock_addr \<Rightarrow> bytes \<Rightarrow> manager \<Rightarrow> manager" where
  "process_disconnect addr data m = m(addr := None)"

definition handle_packet ::
  "profile \<Rightarrow> libs \<Rightarrow> clock_readings \<Rightarrow> sock_addr \<Rightarrow> bytes \<Rightarrow> manager
    \<Rightarrow> (manager \<times> bytes option) option" where
  "handle_packet p L t addr data m = do {
     c \<leftarrow> accept_sender p t addr m;
     (case general_packet_header_read data of
        None \<Rightarrow> Some (m(addr \<mapsto> c), None)
      | Some gen_hdr \<Rightarrow>
          let ty = gh_packet_type gen_hdr in
          if ty = packet_type_code Reliable then do {
            (c1, r) \<leftarrow> receive_reliable p L (cr_incoming t) data c;
            Some (m(addr \<mapsto> c1), r)
          }
          else if ty = packet_type_code Input \<or> ty = packet_type_code Snapshot then do {
            r \<leftarrow> receive_unreliable L gen_hdr data c;
            Some (m(addr \<mapsto> c), r)
          }
          else if ty = packet_type_code Disconnect then
            Some (process_disconnect addr data (m(addr \<mapsto> c)), None)
          else Some (m(addr \<mapsto> c), None))
   }"

section \<open>The other operations\<close>

definition connection_count :: "manager \<Rightarrow> nat" where
  "connection_count m = card (dom m)"

definition get_connection_state :: "manager \<Rightarrow> sock_addr \<Rightarrow> reliable_state option" where
  "get_connection_state m addr = map_option conn_state (m addr)"

definition send_to_client ::
  "profile \<Rightarrow> instant \<Rightarrow> instant \<Rightarrow> sock_addr \<Rightarrow> bytes \<Rightarrow> bool \<Rightarrow> bool \<Rightarrow> manager \<Rightarrow> manager option" where
  "send_to_client p now1 now2 addr data reliable server m = do {
     c \<leftarrow> (case m addr of
             Some c \<Rightarrow> Some c
           | None \<Rightarrow> fresh_connection addr server now1 now2);
     c1 \<leftarrow> queue_pending_send p data reliable c;
     Some (m(addr \<mapsto> c1))
   }"

definition set_pipeline :: "sock_addr \<Rightarrow> pipeline \<Rightarrow> manager \<Rightarrow> manager" where
  "set_pipeline addr pl m =
     (case m addr of None \<Rightarrow> m | Some c \<Rightarrow> m(addr \<mapsto> c\<lparr>conn_pipeline := pl\<rparr>))"

text \<open>\<open>flush_all\<close> in the order in which the hash map is iterated; the datagrams it sends, in order.\<close>

fun flush_all ::
  "profile \<Rightarrow> libs \<Rightarrow> instant \<Rightarrow> sock_addr list \<Rightarrow> manager
    \<Rightarrow> (manager \<times> (bytes \<times> sock_addr) list) option" where
  "flush_all p L now [] m = Some (m, [])"
| "flush_all p L now (addr # addrs) m =
     (case m addr of
        None \<Rightarrow> flush_all p L now addrs m
      | Some c \<Rightarrow> do {
          (c1, wire) \<leftarrow> connection_update p L now c;
          (m1, out) \<leftarrow> flush_all p L now addrs (m(addr \<mapsto> c1));
          Some (m1, map (\<lambda>w. (w, addr)) wire @ out)
        })"

definition evict_stale_connections :: "instant \<Rightarrow> duration \<Rightarrow> manager \<Rightarrow> manager" where
  "evict_stale_connections now timeout m =
     map_retain (\<lambda>addr c. duration_since now (last_seen c) < timeout) m"

end
