(* ===== verification/Sessions.thy ===== *)
theory Sessions
  imports Manager
begin

text \<open>
  What the connection manager keeps and promises: every operation preserves the invariant of every
  connection, touches only the connection it is given, and does not panic when overflow is not
  checked; a datagram made by one peer's connection is delivered by the other peer's manager when
  the two pipelines agree, and the handshake makes them agree.
\<close>

section \<open>The invariant of a manager\<close>

definition manager_ok :: "manager \<Rightarrow> bool" where
  "manager_ok m \<longleftrightarrow> (\<forall>a c. m a = Some c \<longrightarrow> connection_ok c \<and> endpoint c = a)"

definition readings_ok :: "clock_readings \<Rightarrow> bool" where
  "readings_ok t \<longleftrightarrow> clock_ok (cr_incoming t)"

lemma manager_ok_new: "manager_ok manager_new"
  by (simp add: manager_ok_def manager_new_def)

lemma manager_okD: "manager_ok m \<Longrightarrow> m a = Some c \<Longrightarrow> connection_ok c \<and> endpoint c = a"
  by (simp add: manager_ok_def)

lemma manager_ok_upd:
  "manager_ok m \<Longrightarrow> connection_ok c \<Longrightarrow> endpoint c = a \<Longrightarrow> manager_ok (m(a \<mapsto> c))"
  by (simp add: manager_ok_def)

lemma manager_ok_del: "manager_ok m \<Longrightarrow> manager_ok (m(a := None))"
  by (simp add: manager_ok_def)

section \<open>New connections\<close>

abbreviation static_pipeline :: pipeline where
  "static_pipeline \<equiv> SecurePipeline \<lparr>sp_cipher = \<lparr>cipher_key = static_poc_key\<rparr>\<rparr>"

abbreviation key_pipeline :: "bytes \<Rightarrow> pipeline" where
  "key_pipeline key \<equiv> SecurePipeline \<lparr>sp_cipher = \<lparr>cipher_key = key\<rparr>\<rparr>"

lemma length_handshake_key [simp]: "length (handshake_key ip e) = 32"
proof -
  let ?key = "take 32 ip @ replicate (32 - length ip) 0"
  have "length (take 16 k @ map2 (XOR) (drop 16 k) (to_le_bytes 16 e)) = 32"
    if "length k = 32" for k :: bytes
    using that by simp
  moreover have "length ?key = 32" by simp
  ultimately show ?thesis unfolding handshake_key_def Let_def by blast
qed

lemma length_handshake_message [simp]: "length (handshake_message key) = Suc (length key)"
  by (simp add: handshake_message_def general_packet_header_as_bytes_def
      handshake_packet_as_bytes_def)

lemma key_pipeline_ok: "length key = 32 \<Longrightarrow> pipeline_ok (key_pipeline key)"
  by (simp add: pipeline_ok_def)

lemma fresh_connection_eq:
  "fresh_connection addr server t1 t2 = Some (connection_new addr server static_pipeline t1 t2)"
  by (simp add: fresh_connection_def secure_pipeline_new_ok static_poc_key_def)

lemma connection_new_fields [simp]:
  "endpoint (connection_new addr server pl t1 t2) = addr"
  "is_server (connection_new addr server pl t1 t2) = server"
  "conn_state (connection_new addr server pl t1 t2) = reliable_new t1"
  "pending_queue (connection_new addr server pl t1 t2) = []"
  "conn_pipeline (connection_new addr server pl t1 t2) = pl"
  "pending_pipeline_swap (connection_new addr server pl t1 t2) = None"
  by (simp_all add: connection_new_def)

text \<open>The connection a datagram from an unknown address creates.\<close>

definition greeted :: "clock_readings \<Rightarrow> sock_addr \<Rightarrow> connection" where
  "greeted t addr =
     (let key = handshake_key (sa_ip addr) (cr_elapsed t) in
      (connection_new addr True static_pipeline (cr_new_state t) (cr_new_seen t))
        \<lparr>last_seen := cr_last_seen t,
         pending_queue := [\<lparr>ps_data = handshake_message key, ps_reliable = True\<rparr>],
         pending_bytes := 33, handshake_sent := True,
         pending_pipeline_swap := Some (key_pipeline key)\<rparr>)"

lemma greeted_ok: "connection_ok (greeted t addr)" "endpoint (greeted t addr) = addr"
  by (simp_all add: greeted_def Let_def connection_new_def connection_ok_defs pipeline_ok_def
      static_poc_key_def rtt_ok_new sent_ok_new)

lemma accept_sender_new: "m addr = None \<Longrightarrow> accept_sender p t addr m = Some (greeted t addr)"
  by (simp add: accept_sender_def fresh_connection_eq dispatch_handshake_def
      queue_pending_send_def greeted_def Let_def connection_new_def checked_simps
      secure_pipeline_new_ok)

lemma accept_sender_known:
  "m addr = Some c \<Longrightarrow> accept_sender p t addr m = Some (c\<lparr>last_seen := cr_last_seen t\<rparr>)"
  by (simp add: accept_sender_def)

lemma connection_ok_last_seen [simp]: "connection_ok (c\<lparr>last_seen := t\<rparr>) = connection_ok c"
  by (simp add: connection_ok_defs)

lemma accept_sender_ok:
  assumes "manager_ok m"
  shows "\<exists>c. accept_sender p t addr m = Some c \<and> connection_ok c \<and> endpoint c = addr"
  using manager_okD [OF assms] greeted_ok
  by (cases "m addr") (auto simp: accept_sender_new accept_sender_known)

section \<open>Incoming packets\<close>

text \<open>The session key in a decrypted reliable payload, when it has the form of a handshake.\<close>

fun handshake_in :: "bytes \<Rightarrow> bytes option" where
  "handshake_in [] = None"
| "handshake_in (b # key) =
     (if b = packet_type_code Reliable \<and> 32 \<le> length key then Some (take 32 key) else None)"

lemma take_payload_eq:
  "take_payload d c = Some (case handshake_in d of
     None \<Rightarrow> (c, Some d)
   | Some key \<Rightarrow> (c\<lparr>is_authenticated := True, conn_pipeline := key_pipeline key\<rparr>, None))"
  by (cases d) (auto simp: take_payload_def general_packet_header_read_def slice_header
      handshake_packet_read_def secure_pipeline_new_ok Let_def)

lemma handshake_in_message: "length key = 32 \<Longrightarrow> handshake_in (handshake_message key) = Some key"
  by (simp add: handshake_message_def general_packet_header_as_bytes_def
      handshake_packet_as_bytes_def)

lemma handshake_in_length: "handshake_in d = Some key \<Longrightarrow> length key = 32"
  by (cases d) (auto split: if_splits)

text \<open>The check for unauthenticated packets is reached with a reliable header only.\<close>

lemma drop_unauthenticated_dead:
  "general_packet_header_read data = Some g \<Longrightarrow> gh_packet_type g = packet_type_code Reliable \<Longrightarrow>
    \<not> drop_unauthenticated c data"
  by (simp add: drop_unauthenticated_def)

lemma slice_suffix: "a \<le> length xs \<Longrightarrow> slice a (length xs) xs = Some (drop a xs)"
  by (simp add: slice_def)

text \<open>The reliable branch as the composition of its parts.\<close>

lemma receive_reliable_eq:
  assumes "general_packet_header_read data = Some g" "gh_packet_type g = packet_type_code Reliable"
  shows "receive_reliable p L now data c =
    (case reliability_packet_header_read (drop 1 data) of
       None \<Rightarrow> Some (c, None)
     | Some h \<Rightarrow> do {
         (st, accepted) \<leftarrow> process_incoming_header p h now (conn_state c);
         Some (case pipeline_inverse_process L (conn_pipeline c) (drop 9 data) (ucast (rh_sequence h)) of
             Inl e \<Rightarrow> (c\<lparr>conn_state := st\<rparr>, None)
           | Inr d \<Rightarrow> (case handshake_in d of
               None \<Rightarrow> (c\<lparr>conn_state := st\<rparr>, Some d)
             | Some key \<Rightarrow> (c\<lparr>conn_state := st, is_authenticated := True,
                 conn_pipeline := key_pipeline key\<rparr>, None)))
       })"
proof (cases "9 \<le> length data")
  case True
  then show ?thesis
    using drop_unauthenticated_dead [OF assms]
    by (auto simp: receive_reliable_def Let_def slice_suffix take_payload_eq
        split: option.splits sum.splits bind_splits)
next
  case False
  then have "reliability_packet_header_read (drop 1 data) = None"
    by (simp add: reliability_packet_header_read_def)
  with False show ?thesis by (simp add: receive_reliable_def)
qed

lemma receive_unreliable_eq:
  "receive_unreliable L g data c = Some
    (if length data < 9 then None
     else case pipeline_inverse_process L (conn_pipeline c) (drop 9 data)
         (from_le_bytes (take 8 (drop 1 data))) of
       Inl e \<Rightarrow> None
     | Inr d \<Rightarrow> Some (gh_packet_type g # d))"
  by (auto simp: receive_unreliable_def Let_def slice_def general_packet_header_as_bytes_def
      split: sum.splits)

section \<open>Preservation\<close>

lemma update_receive_window_total: "\<exists>r. update_receive_window Release q s = Some r"
  by (auto simp: update_receive_window_def Let_def)

lemma process_incoming_header_total: "\<exists>r. process_incoming_header Release h now s = Some r"
  using update_receive_window_total by (simp add: process_incoming_header_def)

lemma receive_reliable_shape:
  assumes "general_packet_header_read data = Some g" "gh_packet_type g = packet_type_code Reliable"
    and "receive_reliable p L now data c = Some (c', r)" and ne: "c' \<noteq> c"
  shows "\<exists>h st b. process_incoming_header p h now (conn_state c) = Some (st, b) \<and>
      (c' = c\<lparr>conn_state := st\<rparr> \<or> (\<exists>key. length key = 32 \<and>
        c' = c\<lparr>conn_state := st, is_authenticated := True, conn_pipeline := key_pipeline key\<rparr>))"
proof -
  obtain h st b where h: "process_incoming_header p h now (conn_state c) = Some (st, b)"
    and r: "(case pipeline_inverse_process L (conn_pipeline c) (drop 9 data) (ucast (rh_sequence h)) of
           Inl e \<Rightarrow> (c\<lparr>conn_state := st\<rparr>, None)
         | Inr d \<Rightarrow> (case handshake_in d of
             None \<Rightarrow> (c\<lparr>conn_state := st\<rparr>, Some d)
           | Some key \<Rightarrow> (c\<lparr>conn_state := st, is_authenticated := True,
               conn_pipeline := key_pipeline key\<rparr>, None))) = (c', r)"
    using assms(3) ne unfolding receive_reliable_eq [OF assms(1,2)]
    by (cases "reliability_packet_header_read (drop 1 data)") (auto simp: bind_Some_conv)
  from h r show ?thesis
    by (cases "pipeline_inverse_process L (conn_pipeline c) (drop 9 data) (ucast (rh_sequence h))")
      (auto split: option.splits dest: handshake_in_length)
qed

lemma receive_reliable_ok:
  assumes "general_packet_header_read data = Some g" "gh_packet_type g = packet_type_code Reliable"
    and "receive_reliable p L now data c = Some (c', r)"
  shows "endpoint c' = endpoint c" "pending_queue c' = pending_queue c" "last_seen c' = last_seen c"
    and "connection_ok c \<Longrightarrow> clock_ok now \<Longrightarrow> connection_ok c'"
proof -
  note shape = receive_reliable_shape [OF assms]
  show "endpoint c' = endpoint c" "pending_queue c' = pending_queue c" "last_seen c' = last_seen c"
    using shape by (cases "c' = c"; auto)+
  assume ok: "connection_ok c" "clock_ok now"
  show "connection_ok c'"
  proof (cases "c' = c")
    case False
    from shape [OF this] ok show ?thesis
      by (auto simp: connection_ok_defs pipeline_ok_def intro: process_incoming_header_ok)
  qed (simp add: ok)
qed

lemma handle_packet_cases:
  assumes "handle_packet p L t addr data m = Some (m', r)"
  obtains (rejected) c where "accept_sender p t addr m = Some c" "m' = m(addr \<mapsto> c)"
      "\<forall>g. general_packet_header_read data = Some g \<longrightarrow> gh_packet_type g \<noteq> packet_type_code Disconnect"
    | (reliable) c c1 g where "accept_sender p t addr m = Some c" "m' = m(addr \<mapsto> c1)"
      "general_packet_header_read data = Some g" "gh_packet_type g = packet_type_code Reliable"
      "receive_reliable p L (cr_incoming t) data c = Some (c1, r)"
    | (disconnect) g where "m' = m(addr := None)" "r = None"
      "general_packet_header_read data = Some g" "gh_packet_type g = packet_type_code Disconnect"
proof -
  obtain c where c: "accept_sender p t addr m = Some c"
    using assms by (auto simp: handle_packet_def bind_Some_conv)
  show ?thesis
  proof (cases "general_packet_header_read data")
    case None
    then show ?thesis using assms c rejected [OF c] by (simp add: handle_packet_def)
  next
    case (Some g)
    consider "gh_packet_type g = packet_type_code Reliable"
      | "gh_packet_type g = packet_type_code Disconnect"
      | "gh_packet_type g \<noteq> packet_type_code Reliable" "gh_packet_type g \<noteq> packet_type_code Disconnect"
      by blast
    then show ?thesis
    proof cases
      case 1
      with assms c Some show ?thesis
        by (auto simp: handle_packet_def bind_Some_conv intro: reliable)
    next
      case 2
      with assms c Some show ?thesis
        by (intro disconnect) (auto simp: handle_packet_def process_disconnect_def)
    next
      case 3
      with assms c Some show ?thesis
        by (intro rejected [OF c])
          (auto simp: handle_packet_def receive_unreliable_eq Let_def split: if_splits)
    qed
  qed
qed

lemma handle_packet_ok:
  assumes "manager_ok m" "readings_ok t" "handle_packet p L t addr data m = Some (m', r)"
  shows "manager_ok m'"
proof -
  obtain c where c: "accept_sender p t addr m = Some c" "connection_ok c" "endpoint c = addr"
    using accept_sender_ok [OF assms(1)] by blast
  from assms(3) show ?thesis
  proof (cases rule: handle_packet_cases)
    case (reliable c' c1 g)
    with c have "connection_ok c1" "endpoint c1 = addr"
      using receive_reliable_ok [OF reliable(3-5)] assms(2) by (auto simp: readings_ok_def)
    with reliable(2) show ?thesis using manager_ok_upd [OF assms(1)] by simp
  qed (use c manager_ok_upd [OF assms(1)] manager_ok_del [OF assms(1)] in auto)
qed

text \<open>A packet from one address changes no other connection, and only a disconnect removes one.\<close>

lemma handle_packet_frame:
  assumes "handle_packet p L t addr data m = Some (m', r)"
  shows "\<forall>a. a \<noteq> addr \<longrightarrow> m' a = m a"
  using assms by (cases rule: handle_packet_cases) auto

lemma handle_packet_total:
  assumes "manager_ok m"
  shows "\<exists>r. handle_packet Release L t addr data m = Some r"
proof -
  obtain c where c: "accept_sender Release t addr m = Some c"
    using accept_sender_ok [OF assms] by blast
  have rel: "\<exists>r. receive_reliable Release L now data c = Some r"
    if "general_packet_header_read data = Some g" "gh_packet_type g = packet_type_code Reliable"
    for g now
  proof (cases "reliability_packet_header_read (drop 1 data)")
    case None
    then show ?thesis by (simp add: receive_reliable_eq [OF that])
  next
    case (Some h)
    obtain st b where "process_incoming_header Release h now (conn_state c) = Some (st, b)"
      using process_incoming_header_total [of h now "conn_state c"] by (auto simp: split_paired_Ex)
    with Some show ?thesis by (simp add: receive_reliable_eq [OF that])
  qed
  show ?thesis
  proof (cases "general_packet_header_read data")
    case None
    with c show ?thesis by (simp add: handle_packet_def)
  next
    case (Some g)
    show ?thesis
    proof (cases "gh_packet_type g = packet_type_code Reliable")
      case True
      from rel [OF Some True, of "cr_incoming t"] c Some True show ?thesis
        by (auto simp: handle_packet_def split_paired_Ex)
    next
      case False
      with c Some show ?thesis
        by (simp add: handle_packet_def receive_unreliable_eq Let_def)
    qed
  qed
qed

lemma send_to_client_ok:
  assumes "manager_ok m" "length data < 2 ^ 63"
  shows "\<exists>m'. send_to_client p t1 t2 addr data reliable server m = Some m' \<and> manager_ok m'"
proof -
  define c where "c = (case m addr of Some c \<Rightarrow> c
    | None \<Rightarrow> connection_new addr server static_pipeline t1 t2)"
  have ok: "connection_ok c" "endpoint c = addr"
    using manager_okD [OF assms(1)] connection_new_ok [of static_pipeline addr server t1 t2]
    by (auto simp: c_def pipeline_ok_def static_poc_key_def split: option.splits)
  obtain c1 where c1: "queue_pending_send p data reliable c = Some c1"
    using queue_pending_send_eq [of c data] ok assms(2) by (auto simp: connection_ok_def)
  have "endpoint c1 = addr"
    using c1 ok queue_pending_send_eq [of c data p reliable] assms(2)
    by (auto simp: connection_ok_def)
  then have "manager_ok (m(addr \<mapsto> c1))"
    using manager_ok_upd [OF assms(1)] queue_pending_send_ok [OF ok(1) assms(2) c1] by blast
  moreover have "send_to_client p t1 t2 addr data reliable server m = Some (m(addr \<mapsto> c1))"
    using c1 by (auto simp: send_to_client_def c_def fresh_connection_eq split: option.splits)
  ultimately show ?thesis by blast
qed

lemma set_pipeline_ok: "manager_ok m \<Longrightarrow> pipeline_ok pl \<Longrightarrow> manager_ok (set_pipeline addr pl m)"
  by (auto simp: set_pipeline_def manager_ok_def connection_ok_defs split: option.splits)

lemma evict_ok: "manager_ok m \<Longrightarrow> manager_ok (evict_stale_connections now timeout m)"
  by (auto simp: evict_stale_connections_def manager_ok_def)

lemma flush_all_ok:
  "manager_ok m \<Longrightarrow> libs_ok L \<Longrightarrow> 0 \<le> now \<Longrightarrow> flush_all p L now addrs m = Some (m', out) \<Longrightarrow>
    manager_ok m'"
proof (induction addrs arbitrary: m out)
  case Nil
  then show ?case by simp
next
  case (Cons a addrs)
  show ?case
  proof (cases "m a")
    case None
    with Cons show ?thesis by simp
  next
    case (Some c)
    with Cons.prems obtain c1 wire o' where up: "connection_update p L now c = Some (c1, wire)"
      and rec: "flush_all p L now addrs (m(a \<mapsto> c1)) = Some (m', o')"
      by (auto simp: bind_Some_conv)
    have "connection_ok c1" "endpoint c1 = a"
      using connection_update_ok(1) [OF _ _ _ up] connection_update_endpoint [OF up]
        manager_okD [OF Cons.prems(1) Some] Cons.prems(2,3) by auto
    then have "manager_ok (m(a \<mapsto> c1))" by (rule manager_ok_upd [OF Cons.prems(1)])
    from Cons.IH [OF this Cons.prems(2,3) rec] show ?thesis .
  qed
qed

section \<open>The order of a flush\<close>

text \<open>
  A hash map is iterated in an unspecified order. The order does not matter for the connections
  after the flush and for the datagrams that go to each address; it only decides how the datagrams
  of different addresses are interleaved.
\<close>

definition flushed :: "profile \<Rightarrow> libs \<Rightarrow> instant \<Rightarrow> manager \<Rightarrow> manager" where
  "flushed p L now m = (\<lambda>a. case m a of None \<Rightarrow> None
     | Some c \<Rightarrow> map_option fst (connection_update p L now c))"

definition flush_panics :: "profile \<Rightarrow> libs \<Rightarrow> instant \<Rightarrow> manager \<Rightarrow> sock_addr \<Rightarrow> bool" where
  "flush_panics p L now m a \<longleftrightarrow> (case m a of None \<Rightarrow> False
     | Some c \<Rightarrow> connection_update p L now c = None)"

definition wire_of :: "profile \<Rightarrow> libs \<Rightarrow> instant \<Rightarrow> manager \<Rightarrow> sock_addr \<Rightarrow> bytes list" where
  "wire_of p L now m a = (case m a of None \<Rightarrow> []
     | Some c \<Rightarrow> (case connection_update p L now c of None \<Rightarrow> [] | Some (c', ws) \<Rightarrow> ws))"

lemma flush_all_spec:
  "distinct addrs \<Longrightarrow>
    flush_all p L now addrs m =
      (if \<exists>a \<in> set addrs. flush_panics p L now m a then None
       else Some (\<lambda>a. if a \<in> set addrs then flushed p L now m a else m a,
         concat (map (\<lambda>a. map (\<lambda>w. (w, a)) (wire_of p L now m a)) addrs)))"
proof (induction addrs arbitrary: m)
  case Nil
  then show ?case by simp
next
  case (Cons a addrs)
  show ?case
  proof (cases "m a")
    case None
    with Cons show ?thesis
      by (simp add: flush_panics_def flushed_def wire_of_def fun_eq_iff)
  next
    case (Some c)
    show ?thesis
    proof (cases "connection_update p L now c")
      case None
      with Some show ?thesis by (simp add: flush_panics_def)
    next
      case up: (Some r)
      obtain c1 ws where r: "r = (c1, ws)" by (cases r)
      let ?m = "m(a \<mapsto> c1)"
      have same: "?m b = m b" if "b \<in> set addrs" for b using Cons.prems that by auto
      have e1: "(\<exists>b \<in> set addrs. flush_panics p L now ?m b) \<longleftrightarrow>
          (\<exists>b \<in> set (a # addrs). flush_panics p L now m b)"
        using same Some up by (auto simp: flush_panics_def)
      have e2: "(\<lambda>b. if b \<in> set addrs then flushed p L now ?m b else ?m b) =
          (\<lambda>b. if b \<in> set (a # addrs) then flushed p L now m b else m b)"
        using Cons.prems Some up r by (auto simp: flushed_def fun_eq_iff)
      have e3: "map (\<lambda>b. map (\<lambda>w. (w, b)) (wire_of p L now ?m b)) addrs =
          map (\<lambda>b. map (\<lambda>w. (w, b)) (wire_of p L now m b)) addrs"
        using same by (auto simp: wire_of_def)
      have e4: "wire_of p L now m a = ws" using Some up r by (simp add: wire_of_def)
      have "distinct addrs" using Cons.prems by simp
      note rec = Cons.IH [OF this, of ?m, unfolded e1 e2 e3]
      show ?thesis
        unfolding flush_all.simps Some option.case up r bind.bind_lunit prod.case rec
        by (simp add: e4)
    qed
  qed
qed

lemma flush_all_iter:
  assumes "iter_order addrs m"
  shows "flush_all p L now addrs m =
      (if \<exists>a. flush_panics p L now m a then None
       else Some (flushed p L now m,
         concat (map (\<lambda>a. map (\<lambda>w. (w, a)) (wire_of p L now m a)) addrs)))"
proof -
  have "(\<exists>a \<in> set addrs. flush_panics p L now m a) \<longleftrightarrow> (\<exists>a. flush_panics p L now m a)"
    using assms by (auto simp: iter_order_def flush_panics_def split: option.splits)
  moreover have "(\<lambda>a. if a \<in> set addrs then flushed p L now m a else m a) = flushed p L now m"
    using assms by (auto simp: iter_order_def flushed_def fun_eq_iff split: option.split)
  ultimately show ?thesis
    by (simp only: flush_all_spec [OF iter_order_distinct [OF assms]])
qed

lemma filter_addr_concat:
  "distinct addrs \<Longrightarrow> (\<And>b. b \<notin> set addrs \<Longrightarrow> f b = []) \<Longrightarrow>
    filter (\<lambda>(w, b). b = a) (concat (map (\<lambda>b. map (\<lambda>w. (w, b)) (f b)) addrs)) =
      map (\<lambda>w. (w, a)) (f a)"
proof (induction addrs arbitrary: f)
  case Nil
  then show ?case by simp
next
  case (Cons b addrs)
  have "filter (\<lambda>(w, b). b = a) (concat (map (\<lambda>b. map (\<lambda>w. (w, b)) (f b)) addrs)) =
      (if a = b then [] else map (\<lambda>w. (w, a)) (f a))"
  proof -
    let ?f = "f(b := [])"
    have m: "map (\<lambda>c. map (\<lambda>w. (w, c)) (?f c)) addrs = map (\<lambda>c. map (\<lambda>w. (w, c)) (f c)) addrs"
      using Cons.prems(1) by auto
    have "\<And>c. c \<notin> set addrs \<Longrightarrow> ?f c = []" using Cons.prems(2) by auto
    with Cons.IH [of ?f] Cons.prems(1)
    have "filter (\<lambda>(w, b). b = a) (concat (map (\<lambda>b. map (\<lambda>w. (w, b)) (?f b)) addrs)) =
        map (\<lambda>w. (w, a)) (?f a)" by simp
    then show ?thesis unfolding m by auto
  qed
  moreover have "filter (\<lambda>(w, c). c = a) (map (\<lambda>w. (w, b)) (f b)) =
      (if a = b then map (\<lambda>w. (w, a)) (f a) else [])"
    by (induction "f b") auto
  ultimately show ?case by simp
qed

lemma wire_of_None: "m a = None \<Longrightarrow> wire_of p L now m a = []"
  by (simp add: wire_of_def)

lemma flush_all_per_address:
  assumes "iter_order addrs m" "flush_all p L now addrs m = Some (m', out)"
  shows "m' = flushed p L now m"
    and "map fst (filter (\<lambda>(w, b). b = a) out) = wire_of p L now m a"
proof -
  note eq = assms(2) [unfolded flush_all_iter [OF assms(1)]]
  then show "m' = flushed p L now m" by (auto split: if_splits)
  have out: "out = concat (map (\<lambda>a. map (\<lambda>w. (w, a)) (wire_of p L now m a)) addrs)"
    using eq by (auto split: if_splits)
  have "filter (\<lambda>(w, b). b = a) out = map (\<lambda>w. (w, a)) (wire_of p L now m a)"
    unfolding out
    by (rule filter_addr_concat)
      (use assms(1) in \<open>auto simp: iter_order_def intro!: wire_of_None\<close>)
  then show "map fst (filter (\<lambda>(w, b). b = a) out) = wire_of p L now m a"
    by (simp add: comp_def)
qed

section \<open>Properties\<close>

section \<open>Reachable managers\<close>

text \<open>
  The connections that a peer can have: whatever it receives, sends and flushes, with whatever clock.
\<close>

inductive manager_reach :: "libs \<Rightarrow> manager \<Rightarrow> bool" for L where
  reach_new: "manager_reach L manager_new"
| reach_packet: "manager_reach L m \<Longrightarrow> readings_ok t \<Longrightarrow>
    handle_packet p L t addr data m = Some (m', r) \<Longrightarrow> manager_reach L m'"
| reach_send: "manager_reach L m \<Longrightarrow> length data < 2 ^ 63 \<Longrightarrow>
    send_to_client p t1 t2 addr data reliable server m = Some m' \<Longrightarrow> manager_reach L m'"
| reach_pipeline: "manager_reach L m \<Longrightarrow> pipeline_ok pl \<Longrightarrow> manager_reach L (set_pipeline addr pl m)"
| reach_flush: "manager_reach L m \<Longrightarrow> 0 \<le> now \<Longrightarrow> flush_all p L now addrs m = Some (m', out) \<Longrightarrow>
    manager_reach L m'"
| reach_evict: "manager_reach L m \<Longrightarrow> manager_reach L (evict_stale_connections now timeout m)"

lemma manager_reach_ok:
  assumes "libs_ok L" "manager_reach L m"
  shows "manager_ok m"
  using assms(2)
proof induction
  case (reach_send m data p t1 t2 addr reliable server m')
  with send_to_client_ok [of m data p t1 t2 addr reliable server] show ?case by auto
qed (use assms(1) in \<open>auto intro: manager_ok_new handle_packet_ok set_pipeline_ok flush_all_ok evict_ok\<close>)

text \<open>
  C15: in every state that a peer can reach, each connection is stored under its own address, queues at
  most one mebibyte and counts it exactly, keeps its retransmission timeout between 30 and 2000
  milliseconds, sends odd nonces exactly when it is the server's, and has a pipeline with a valid key.
\<close>

theorem manager_reach_invariant:
  assumes "libs_ok L" "manager_reach L m" "m addr = Some c"
  shows "endpoint c = addr \<and> queued_bytes (pending_queue c) \<le> 1024 * 1024 \<and>
    pending_bytes c = of_nat (queued_bytes (pending_queue c)) \<and>
    f32_within 30 2000 (retransmission_timeout_ms (conn_state c)) \<and>
    odd (unat (tx_nonce c)) = is_server c \<and> pipeline_ok (conn_pipeline c)"
  using manager_reach_ok [OF assms(1,2)] assms(3)
  by (simp add: manager_ok_def connection_ok_defs rtt_ok_def)

theorem manager_reach_invariant_witness:
  "\<exists>m c. manager_reach plain_libs m \<and> m \<lparr>sa_ip = [49], sa_port = 80\<rparr> = Some c \<and>
    queued_bytes (pending_queue c) = 33 \<and> queued_bytes (pending_queue c) \<le> 1024 * 1024"
proof -
  let ?a = "\<lparr>sa_ip = [49], sa_port = 80\<rparr>"
  let ?t = "\<lparr>cr_new_state = 0, cr_new_seen = 0, cr_last_seen = 0, cr_elapsed = 5, cr_incoming = 0\<rparr>"
  have h: "handle_packet Release plain_libs ?t ?a [] manager_new =
      Some (manager_new(?a \<mapsto> greeted ?t ?a), None)"
    by (simp add: handle_packet_def accept_sender_new manager_new_def general_packet_header_read_def)
  have reach: "manager_reach plain_libs (manager_new(?a \<mapsto> greeted ?t ?a))"
    by (rule reach_packet [OF reach_new _ h]) (simp add: readings_ok_def clock_ok_def)
  have "queued_bytes (pending_queue (greeted ?t ?a)) = 33"
    by (simp add: greeted_def Let_def)
  with manager_reach_invariant [OF plain_libs_ok reach, of ?a "greeted ?t ?a"] reach show ?thesis
    by (intro exI [of _ "manager_new(?a \<mapsto> greeted ?t ?a)"] exI [of _ "greeted ?t ?a"]) simp
qed

section \<open>Properties of the manager\<close>

text \<open>
  C16: whatever bytes arrive from whatever address, handling them does not panic when overflow is not
  checked, keeps every connection well formed, changes no other peer's connection, and leaves the
  sender with a connection unless the packet is a disconnect.
\<close>

theorem handle_any_bytes:
  assumes "manager_ok m" "readings_ok t"
  shows "\<exists>m' r. handle_packet Release L t addr data m = Some (m', r) \<and> manager_ok m' \<and>
    (\<forall>a. a \<noteq> addr \<longrightarrow> m' a = m a) \<and>
    (m' addr = None \<longleftrightarrow> (\<exists>rest. data = packet_type_code Disconnect # rest))"
proof -
  obtain m' r where h: "handle_packet Release L t addr data m = Some (m', r)"
    using handle_packet_total [OF assms(1)] by (metis surj_pair)
  have "m' addr = None \<longleftrightarrow> (\<exists>rest. data = packet_type_code Disconnect # rest)"
    using h
  proof (cases rule: handle_packet_cases)
    case (rejected c)
    then show ?thesis by (auto simp: general_packet_header_read_def)
  next
    case (reliable c c1 g)
    then show ?thesis by (auto simp: general_packet_header_read_def)
  next
    case (disconnect g)
    then show ?thesis by (auto simp: general_packet_header_read_def split: list.splits)
  qed
  with h handle_packet_ok [OF assms h] handle_packet_frame [OF h] show ?thesis
    by (intro exI [of _ m'] exI [of _ r]) simp
qed

theorem handle_any_bytes_witness:
  "\<exists>m' r. handle_packet Release plain_libs
      \<lparr>cr_new_state = 0, cr_new_seen = 0, cr_last_seen = 0, cr_elapsed = 5, cr_incoming = 0\<rparr>
      \<lparr>sa_ip = [49], sa_port = 80\<rparr> [9, 9, 9] manager_new = Some (m', r) \<and>
    m' \<lparr>sa_ip = [49], sa_port = 80\<rparr> \<noteq> None"
proof -
  let ?t = "\<lparr>cr_new_state = 0, cr_new_seen = 0, cr_last_seen = 0, cr_elapsed = 5, cr_incoming = 0\<rparr>"
  have "readings_ok ?t" by (simp add: readings_ok_def clock_ok_def)
  from handle_any_bytes [OF manager_ok_new this, of plain_libs "\<lparr>sa_ip = [49], sa_port = 80\<rparr>" "[9, 9, 9]"]
  show ?thesis by auto
qed

text \<open>
  One byte that comes from a peer's address ends its connection: a disconnect packet is obeyed
  without any authentication, whatever the session key and whatever follows the byte.
\<close>

theorem disconnect_needs_no_key:
  assumes "m addr = Some c"
  shows "handle_packet p L t addr (packet_type_code Disconnect # rest) m = Some (m(addr := None), None)"
  using assms
  by (simp add: handle_packet_def accept_sender_known general_packet_header_read_def
      process_disconnect_def)

theorem disconnect_needs_no_key_witness:
  "handle_packet Debug plain_libs
      \<lparr>cr_new_state = 0, cr_new_seen = 0, cr_last_seen = 0, cr_elapsed = 5, cr_incoming = 0\<rparr>
      \<lparr>sa_ip = [49], sa_port = 80\<rparr> (packet_type_code Disconnect # [])
      [\<lparr>sa_ip = [49], sa_port = 80\<rparr> \<mapsto> connection_new \<lparr>sa_ip = [49], sa_port = 80\<rparr> True static_pipeline 0 0] =
    Some ([\<lparr>sa_ip = [49], sa_port = 80\<rparr> \<mapsto>
      connection_new \<lparr>sa_ip = [49], sa_port = 80\<rparr> True static_pipeline 0 0](\<lparr>sa_ip = [49], sa_port = 80\<rparr> := None), None)"
  by (rule disconnect_needs_no_key) simp

text \<open>
  Flushing all connections in one or another order of the hash map gives the same connections, and
  sends every peer the same datagrams in the same order; no datagram goes to an unknown address.
\<close>

theorem flush_order_irrelevant:
  assumes "iter_order as m" "iter_order bs m" "flush_all p L now as m = Some (m', out)"
  shows "\<exists>out'. flush_all p L now bs m = Some (m', out') \<and>
    (\<forall>a. map fst (filter (\<lambda>(w, b). b = a) out') = map fst (filter (\<lambda>(w, b). b = a) out)) \<and>
    snd ` set out' \<subseteq> dom m"
proof -
  have "\<not> (\<exists>a. flush_panics p L now m a)" and m': "m' = flushed p L now m"
    using assms(3) by (auto simp: flush_all_iter [OF assms(1)] split: if_splits)
  then obtain out' where b: "flush_all p L now bs m = Some (m', out')"
    and out': "out' = concat (map (\<lambda>a. map (\<lambda>w. (w, a)) (wire_of p L now m a)) bs)"
    by (simp add: flush_all_iter [OF assms(2)])
  have "snd ` set out' \<subseteq> dom m"
    using assms(2) by (auto simp: out' iter_order_def)
  with b flush_all_per_address(2) [OF assms(1,3)] flush_all_per_address(2) [OF assms(2) b]
  show ?thesis by metis
qed

theorem flush_order_irrelevant_witness:
  "\<exists>m' out out'. flush_all Debug plain_libs 0 [\<lparr>sa_ip = [49], sa_port = 80\<rparr>, \<lparr>sa_ip = [49], sa_port = 81\<rparr>]
      [\<lparr>sa_ip = [49], sa_port = 80\<rparr> \<mapsto> connection_new \<lparr>sa_ip = [49], sa_port = 80\<rparr> True static_pipeline 0 0,
       \<lparr>sa_ip = [49], sa_port = 81\<rparr> \<mapsto> connection_new \<lparr>sa_ip = [49], sa_port = 81\<rparr> True static_pipeline 0 0] =
      Some (m', out) \<and>
    flush_all Debug plain_libs 0 [\<lparr>sa_ip = [49], sa_port = 81\<rparr>, \<lparr>sa_ip = [49], sa_port = 80\<rparr>]
      [\<lparr>sa_ip = [49], sa_port = 80\<rparr> \<mapsto> connection_new \<lparr>sa_ip = [49], sa_port = 80\<rparr> True static_pipeline 0 0,
       \<lparr>sa_ip = [49], sa_port = 81\<rparr> \<mapsto> connection_new \<lparr>sa_ip = [49], sa_port = 81\<rparr> True static_pipeline 0 0] =
      Some (m', out')"
proof -
  let ?a = "\<lparr>sa_ip = [49], sa_port = 80\<rparr>" and ?b = "\<lparr>sa_ip = [49], sa_port = 81\<rparr>"
  let ?m = "[?a \<mapsto> connection_new ?a True static_pipeline 0 0, ?b \<mapsto> connection_new ?b True static_pipeline 0 0]"
  have up: "connection_update Debug plain_libs 0 (connection_new a True static_pipeline 0 0) =
      Some (connection_new a True static_pipeline 0 0, [])" for a
    by (simp add: connection_update_def process_retransmissions_def connection_new_def
        reliable_new_def swap_pipeline_def)
  have "iter_order [?a, ?b] ?m" "iter_order [?b, ?a] ?m" by (auto simp: iter_order_def)
  moreover have "flush_all Debug plain_libs 0 [?a, ?b] ?m = Some (?m, [])"
    by (simp add: up fun_upd_idem fun_upd_twist)
  ultimately show ?thesis using flush_order_irrelevant [of "[?a, ?b]" ?m "[?b, ?a]"] by blast
qed

end
