(* ===== verification/Delivery.thy ===== *)
theory Delivery
  imports Sessions
begin

text \<open>
  End-to-end behaviour of two peers: the datagrams that one peer's flush makes, given to the other
  peer's \<open>handle_packet\<close>, yield the queued data in order, and the handshake of the server leaves
  both peers with the same session key.
\<close>

section \<open>One datagram\<close>

lemma carries_reliableD:
  assumes "carries L c (ps, n) w" "ps_reliable ps"
  obtains h body where "w = 1 # reliability_packet_header_as_bytes h @ body"
    "rh_sequence h = ucast n" "rh_ack h = highest_received_sequence (conn_state c)"
    "rh_ack_bitfield h = received_sequence_bitfield (conn_state c)"
    "pipeline_inverse_process L (conn_pipeline c) body n = Inr (ps_data ps)"
  using assms by (auto simp: carries_def)

text \<open>What the peer's application sees of a datagram, and what it does to the peer's connection.\<close>

lemma receive_carried_reliable:
  assumes "carries L c (ps, ucast seq) w" "ps_reliable ps" "conn_pipeline d = conn_pipeline c"
    and st: "process_incoming_header p
      \<lparr>rh_sequence = seq, rh_ack = highest_received_sequence (conn_state c),
       rh_ack_bitfield = received_sequence_bitfield (conn_state c)\<rparr> now (conn_state d) = Some (st, b)"
  shows "receive_reliable p L now w d = Some (case handshake_in (ps_data ps) of
      None \<Rightarrow> (d\<lparr>conn_state := st\<rparr>, Some (ps_data ps))
    | Some key \<Rightarrow> (d\<lparr>conn_state := st, is_authenticated := True,
        conn_pipeline := key_pipeline key\<rparr>, None))"
proof -
  let ?h = "\<lparr>rh_sequence = seq, rh_ack = highest_received_sequence (conn_state c),
    rh_ack_bitfield = received_sequence_bitfield (conn_state c)\<rparr>"
  obtain body where w: "w = 1 # reliability_packet_header_as_bytes ?h @ body"
    and body: "pipeline_inverse_process L (conn_pipeline c) body (ucast seq) = Inr (ps_data ps)"
    using assms(1,2) by (auto simp: carries_def ucast_ucast_16)
  have "general_packet_header_read w = Some \<lparr>gh_packet_type = 1\<rparr>"
    by (simp add: w general_packet_header_read_def)
  moreover have "reliability_packet_header_read (drop 1 w) = Some ?h"
    using reliability_wire.read_as_bytes [of ?h body] by (simp add: w)
  moreover have "drop 9 w = body"
    using reliability_wire.length_as_bytes [of ?h] by (simp add: w)
  ultimately show ?thesis
    using st body assms(3) by (simp add: receive_reliable_eq split: option.split)
qed

lemma receive_carried_unreliable:
  assumes "carries L c (ps, n) w" "\<not> ps_reliable ps" "conn_pipeline d = conn_pipeline c"
  shows "\<exists>g. general_packet_header_read w = Some g \<and> general_packet_header_read (ps_data ps) = Some g \<and>
    receive_unreliable L g w d = Some (Some (ps_data ps))"
proof -
  obtain b payload body where d: "ps_data ps = b # payload" and w: "w = b # to_le_bytes 8 n @ body"
    and body: "pipeline_inverse_process L (conn_pipeline c) body n = Inr payload"
    using assms(1,2) by (auto simp: carries_def)
  have "take 8 (drop 1 w) = to_le_bytes 8 n" "drop 9 w = body" "\<not> length w < 9"
    by (simp_all add: w)
  then show ?thesis
    using body assms(3)
    by (simp add: receive_unreliable_eq d w general_packet_header_read_def)
qed

section \<open>Deliverable data\<close>

text \<open>
  The application data that the peer hands on unchanged: an unreliable packet must have the type
  byte of an input or a snapshot, a reliable one must not look like a handshake.
\<close>

definition deliverable :: "pending_send \<Rightarrow> bool" where
  "deliverable ps \<longleftrightarrow>
     (if ps_reliable ps then handshake_in (ps_data ps) = None
      else \<exists>g. general_packet_header_read (ps_data ps) = Some g \<and>
        (gh_packet_type g = packet_type_code Input \<or> gh_packet_type g = packet_type_code Snapshot))"

lemma deliverable_sendable: "deliverable ps \<Longrightarrow> sendable ps"
  by (auto simp: deliverable_def sendable_def general_packet_header_read_def split: list.splits)

lemma handle_carried:
  assumes "carries L c (ps, n) w" "deliverable ps" "ps_reliable ps \<longrightarrow> (\<exists>seq :: u16. n = ucast seq)"
    and m: "m addr = Some d" "conn_pipeline d = conn_pipeline c"
  shows "\<exists>m' d'. handle_packet Release L t addr w m = Some (m', Some (ps_data ps)) \<and>
    m' addr = Some d' \<and> conn_pipeline d' = conn_pipeline c"
proof (cases "ps_reliable ps")
  case True
  let ?d = "d\<lparr>last_seen := cr_last_seen t\<rparr>"
  obtain seq :: u16 where n: "n = ucast seq" using assms(3) True by blast
  obtain st b where st: "process_incoming_header Release
      \<lparr>rh_sequence = seq, rh_ack = highest_received_sequence (conn_state c),
       rh_ack_bitfield = received_sequence_bitfield (conn_state c)\<rparr> (cr_incoming t) (conn_state ?d) =
      Some (st, b)"
    using process_incoming_header_total by (metis surj_pair)
  obtain h body where "w = 1 # reliability_packet_header_as_bytes h @ body"
    using carries_reliableD [OF assms(1) True] by blast
  then have g: "general_packet_header_read w = Some \<lparr>gh_packet_type = 1\<rparr>"
    by (simp add: general_packet_header_read_def)
  have "receive_reliable Release L (cr_incoming t) w ?d =
      Some (?d\<lparr>conn_state := st\<rparr>, Some (ps_data ps))"
    using receive_carried_reliable [of L c ps seq w ?d Release "cr_incoming t" st b]
      assms(1,2) True m(2) st n
    by (simp add: deliverable_def)
  then show ?thesis
    using g m by (simp add: handle_packet_def accept_sender_known)
next
  case False
  let ?d = "d\<lparr>last_seen := cr_last_seen t\<rparr>"
  obtain g where "general_packet_header_read w = Some g"
    "general_packet_header_read (ps_data ps) = Some g"
    "receive_unreliable L g w ?d = Some (Some (ps_data ps))"
    using receive_carried_unreliable [of L c ps n w ?d] assms(1) False m(2) by auto
  with assms(2) False m show ?thesis
    by (auto simp: handle_packet_def accept_sender_known deliverable_def)
qed

section \<open>A flush and its delivery\<close>

text \<open>A peer that handles the datagrams of one sender, with the data it hands to the application.\<close>

fun deliver_all ::
  "profile \<Rightarrow> libs \<Rightarrow> clock_readings \<Rightarrow> sock_addr \<Rightarrow> bytes list \<Rightarrow> manager
    \<Rightarrow> (manager \<times> bytes list) option" where
  "deliver_all p L t addr [] m = Some (m, [])"
| "deliver_all p L t addr (w # ws) m = do {
     (m1, r) \<leftarrow> handle_packet p L t addr w m;
     (m2, rs) \<leftarrow> deliver_all p L t addr ws m1;
     Some (m2, (case r of None \<Rightarrow> rs | Some d \<Rightarrow> d # rs))
   }"

lemma number_sends_fst: "map fst (number_sends seq nonce q) = q"
  by (induction q arbitrary: seq nonce) auto

lemma number_sends_length: "length (number_sends seq nonce q) = length q"
  by (induction q arbitrary: seq nonce) auto

lemma number_sends_reliable:
  "(ps, n) \<in> set (number_sends seq nonce q) \<Longrightarrow> ps_reliable ps \<Longrightarrow> \<exists>s :: u16. n = ucast s"
  by (induction q arbitrary: seq nonce) (auto split: if_splits)

lemma deliver_carried:
  assumes "list_all2 (carries L c) sends ws" "list_all deliverable (map fst sends)"
    and "\<forall>(ps, n) \<in> set sends. ps_reliable ps \<longrightarrow> (\<exists>s :: u16. n = ucast s)"
    and "m addr = Some d" "conn_pipeline d = conn_pipeline c"
  shows "\<exists>m'. deliver_all Release L t addr ws m = Some (m', map (ps_data \<circ> fst) sends)"
  using assms
proof (induction sends ws arbitrary: m d rule: list_all2_induct)
  case Nil
  then show ?case by simp
next
  case (Cons send sends w ws)
  obtain ps n where send: "send = (ps, n)" by (cases send)
  obtain m1 d1 where "handle_packet Release L t addr w m = Some (m1, Some (ps_data ps))"
    and d1: "m1 addr = Some d1" "conn_pipeline d1 = conn_pipeline c"
    using handle_carried [of L c ps n w m addr d t] Cons.prems Cons.hyps(1) send by auto
  moreover obtain m2 where "deliver_all Release L t addr ws m1 = Some (m2, map (ps_data \<circ> fst) sends)"
    using Cons.IH [of m1 d1] Cons.prems d1 by auto
  ultimately show ?case by (simp add: send)
qed

text \<open>An example: a peer with an input and a reliable packet to send, and one that knows it.\<close>

definition example_sender :: connection where
  "example_sender = (connection_new \<lparr>sa_ip = [50], sa_port = 80\<rparr> False static_pipeline 0 0)
     \<lparr>pending_queue := [\<lparr>ps_data = [4, 9], ps_reliable = False\<rparr>, \<lparr>ps_data = [7], ps_reliable = True\<rparr>],
      pending_bytes := 3\<rparr>"

definition example_receiver :: manager where
  "example_receiver = [\<lparr>sa_ip = [49], sa_port = 80\<rparr> \<mapsto>
     connection_new \<lparr>sa_ip = [49], sa_port = 80\<rparr> True static_pipeline 0 0]"

definition example_readings :: clock_readings where
  "example_readings =
     \<lparr>cr_new_state = 0, cr_new_seen = 0, cr_last_seen = 0, cr_elapsed = 5, cr_incoming = 0\<rparr>"

lemma example_sender_ok:
  "connection_ok example_sender" "list_all deliverable (pending_queue example_sender)"
  "unacknowledged_packets (conn_state example_sender) = []"
  using connection_new_ok [of static_pipeline]
  by (simp_all add: example_sender_def connection_ok_defs connection_new_def pipeline_ok_def
      static_poc_key_def deliverable_def general_packet_header_read_def reliable_new_def)

lemma example_receiver_knows:
  "example_receiver \<lparr>sa_ip = [49], sa_port = 80\<rparr> =
    Some (connection_new \<lparr>sa_ip = [49], sa_port = 80\<rparr> True static_pipeline 0 0)"
  "conn_pipeline (connection_new \<lparr>sa_ip = [49], sa_port = 80\<rparr> True static_pipeline 0 0) =
    conn_pipeline example_sender"
  by (simp_all add: example_receiver_def example_sender_def)

text \<open>
  C12: when nothing is due for retransmission, the datagrams of one flush, given to the other peer in
  the order in which they were sent, hand its application exactly the queued data, in the order in
  which it was queued, whether reliable or not.
\<close>

theorem flush_delivers:
  assumes "libs_ok L" "connection_ok c" "list_all deliverable (pending_queue c)" "0 \<le> now"
    and re: "process_retransmissions Release now (conn_state c) = Some (st, [])"
    and "m addr = Some d" "conn_pipeline d = conn_pipeline c"
  shows "\<exists>c' ws m'. connection_update Release L now c = Some (c', ws) \<and>
    deliver_all Release L t addr ws m = Some (m', map ps_data (pending_queue c))"
proof -
  let ?sends = "number_sends (next_outgoing_sequence (conn_state c)) (tx_nonce c) (pending_queue c)"
  have "list_all sendable (pending_queue c)"
    using assms(3) by (auto simp: list_all_iff deliverable_sendable)
  moreover have "nonce_room Release (pending_queue c) (tx_nonce c)" by (simp add: nonce_room_def)
  ultimately obtain c' ws where up: "connection_update Release L now c = Some (c', ws)"
    and carr: "list_all2 (carries L c) ?sends ws"
    using connection_update_spec [OF assms(1,2) _ assms(4) _ re] by auto
  have "list_all deliverable (map fst ?sends)"
    using assms(3) by (simp add: number_sends_fst)
  then obtain m' where "deliver_all Release L t addr ws m = Some (m', map (ps_data \<circ> fst) ?sends)"
    using deliver_carried [OF carr, of m addr d t] assms(6,7)
      number_sends_reliable [of _ _ "next_outgoing_sequence (conn_state c)" "tx_nonce c"
        "pending_queue c"] by fast
  moreover have "map (ps_data \<circ> fst) ?sends = map ps_data (pending_queue c)"
    by (metis list.map_comp number_sends_fst)
  ultimately show ?thesis using up by auto
qed

theorem flush_delivers_witness:
  "\<exists>c' ws m'. connection_update Release plain_libs 0 example_sender = Some (c', ws) \<and>
    deliver_all Release plain_libs example_readings \<lparr>sa_ip = [49], sa_port = 80\<rparr> ws example_receiver =
      Some (m', [[4, 9], [7]])"
proof -
  have re: "process_retransmissions Release 0 (conn_state example_sender) =
      Some (conn_state example_sender, [])"
    by (simp add: process_retransmissions_def example_sender_def reliable_new_def)
  show ?thesis
    using flush_delivers [OF plain_libs_ok example_sender_ok(1,2) _ re, where m = example_receiver
        and addr = "\<lparr>sa_ip = [49], sa_port = 80\<rparr>" and t = example_readings] example_receiver_knows
    by (simp add: example_sender_def)
qed

section \<open>The handshake\<close>

text \<open>
  A connection that the server made for an unknown sender, with further sends queued behind the
  handshake: the first datagram of its first flush carries the session key, still under the static
  key, and the flush ends with the server's pipeline on the session key.
\<close>

definition greeting :: "bytes \<Rightarrow> connection \<Rightarrow> pending_send list \<Rightarrow> bool" where
  "greeting key c q \<longleftrightarrow> length key = 32 \<and>
     pending_queue c = \<lparr>ps_data = handshake_message key, ps_reliable = True\<rparr> # q \<and>
     pending_pipeline_swap c = Some (key_pipeline key) \<and>
     unacknowledged_packets (conn_state c) = []"

lemma greeted_greeting:
  "greeting (handshake_key (sa_ip addr) (cr_elapsed t)) (greeted t addr) []"
  by (simp add: greeting_def greeted_def Let_def connection_new_def reliable_new_def)

lemma no_unacked_no_resends:
  "unacknowledged_packets s = [] \<Longrightarrow> process_retransmissions p now s = Some (s, [])"
  by (simp add: process_retransmissions_def)

text \<open>
  The peer that receives the greeting: it is authenticated, nothing reaches its application, and both
  peers have the pipeline of the session key.
\<close>

lemma greeting_received:
  assumes "libs_ok L" "connection_ok c" "0 \<le> now" "greeting key c q" "list_all sendable q"
    and "m server = Some d" "conn_pipeline d = conn_pipeline c"
  shows "\<exists>c' w ws d'. connection_update Release L now c = Some (c', w # ws) \<and> length ws = length q \<and>
    handle_packet Release L t server w m = Some (m(server \<mapsto> d'), None) \<and> is_authenticated d' \<and>
    conn_pipeline d' = key_pipeline key \<and> conn_pipeline c' = key_pipeline key"
proof -
  let ?hs = "\<lparr>ps_data = handshake_message key, ps_reliable = True\<rparr>"
  let ?d = "d\<lparr>last_seen := cr_last_seen t\<rparr>"
  have len: "length key = 32" and q: "pending_queue c = ?hs # q"
    and swap: "pending_pipeline_swap c = Some (key_pipeline key)"
    and re: "process_retransmissions Release now (conn_state c) = Some (conn_state c, [])"
    using assms(4) by (simp_all add: greeting_def no_unacked_no_resends)
  have "list_all sendable (pending_queue c)" using assms(5) by (simp add: q sendable_def)
  moreover have "nonce_room Release (pending_queue c) (tx_nonce c)" by (simp add: nonce_room_def)
  ultimately obtain c' ws0 where up0: "connection_update Release L now c = Some (c', ws0)"
    and all: "list_all2 (carries L c) (number_sends (next_outgoing_sequence (conn_state c)) (tx_nonce c)
      (pending_queue c)) ws0" and c': "conn_pipeline c' = key_pipeline key"
    using connection_update_spec [OF assms(1,2) _ assms(3) _ re] by (auto simp: swap)
  have "length ws0 = Suc (length q)"
    using list_all2_lengthD [OF all] by (simp add: q number_sends_length)
  then obtain w ws where ws0: "ws0 = w # ws" "length ws = length q" by (cases ws0) auto
  note up = up0 [unfolded ws0(1)] ws0(2)
  have carr: "carries L c (?hs, ucast (next_outgoing_sequence (conn_state c))) w"
    using all by (simp add: q ws0(1))
  obtain st b where st: "process_incoming_header Release
      \<lparr>rh_sequence = next_outgoing_sequence (conn_state c),
       rh_ack = highest_received_sequence (conn_state c),
       rh_ack_bitfield = received_sequence_bitfield (conn_state c)\<rparr> (cr_incoming t) (conn_state ?d) =
      Some (st, b)"
    using process_incoming_header_total by (metis surj_pair)
  obtain h body where "w = 1 # reliability_packet_header_as_bytes h @ body"
    by (rule carries_reliableD [OF carr]) auto
  then have "general_packet_header_read w = Some \<lparr>gh_packet_type = 1\<rparr>"
    by (simp add: general_packet_header_read_def)
  moreover have "receive_reliable Release L (cr_incoming t) w ?d = Some
      (?d\<lparr>conn_state := st, is_authenticated := True, conn_pipeline := key_pipeline key\<rparr>, None)"
    using receive_carried_reliable [OF carr, of ?d Release "cr_incoming t" st b] assms(7) st
    by (simp add: handshake_in_message [OF len])
  ultimately have "handle_packet Release L t server w m =
      Some (m(server \<mapsto> ?d\<lparr>conn_state := st, is_authenticated := True,
        conn_pipeline := key_pipeline key\<rparr>), None)"
    using assms(6) by (simp add: handle_packet_def accept_sender_known)
  with up c' show ?thesis by auto
qed

section \<open>Replayed datagrams\<close>

text \<open>
  C39: a datagram that arrives twice hands its data to the application twice, although the receive
  window of the connection recognises the second copy: \<open>handle_packet\<close> does not use the result of
  \<open>process_incoming_header\<close>, and no anti-replay window is consulted for unreliable packets.
\<close>

theorem duplicate_is_delivered_again:
  assumes "carries L c (ps, n) w" "deliverable ps" "ps_reliable ps \<longrightarrow> (\<exists>seq :: u16. n = ucast seq)"
    and "m addr = Some d" "conn_pipeline d = conn_pipeline c"
  shows "\<exists>m'. deliver_all Release L t addr [w, w] m = Some (m', [ps_data ps, ps_data ps])"
  using deliver_carried [of L c "[(ps, n), (ps, n)]" "[w, w]" m addr d t] assms by auto

theorem duplicate_is_delivered_again_witness:
  "\<exists>w m'. w = 1 # reliability_packet_header_as_bytes
        \<lparr>rh_sequence = 1, rh_ack = 0, rh_ack_bitfield = 0\<rparr> @ [7, 8] \<and>
    deliver_all Release plain_libs
      \<lparr>cr_new_state = 0, cr_new_seen = 0, cr_last_seen = 0, cr_elapsed = 5, cr_incoming = 0\<rparr>
      \<lparr>sa_ip = [49], sa_port = 80\<rparr> [w, w]
      [\<lparr>sa_ip = [49], sa_port = 80\<rparr> \<mapsto> connection_new \<lparr>sa_ip = [49], sa_port = 80\<rparr> True NullPipeline 0 0] =
      Some (m', [[7, 8], [7, 8]])"
proof -
  let ?a = "\<lparr>sa_ip = [49], sa_port = 80\<rparr>"
  let ?c = "connection_new ?a True NullPipeline 0 0"
  let ?ps = "\<lparr>ps_data = [7, 8], ps_reliable = True\<rparr>"
  let ?w = "1 # reliability_packet_header_as_bytes
    \<lparr>rh_sequence = 1, rh_ack = 0, rh_ack_bitfield = 0\<rparr> @ [7, 8]"
  have "carries plain_libs ?c (?ps, ucast (1 :: u16)) ?w"
    by (simp add: carries_def null_inverse_process_def reliable_new_def)
  moreover have "deliverable ?ps" by (simp add: deliverable_def)
  moreover have "ps_reliable ?ps \<longrightarrow> (\<exists>seq :: u16. ucast (1 :: u16) = (ucast seq :: u64))" by blast
  moreover have "[?a \<mapsto> ?c] ?a = Some ?c" by simp
  ultimately have "\<exists>m'. deliver_all Release plain_libs
      \<lparr>cr_new_state = 0, cr_new_seen = 0, cr_last_seen = 0, cr_elapsed = 5, cr_incoming = 0\<rparr>
      ?a [?w, ?w] [?a \<mapsto> ?c] = Some (m', [ps_data ?ps, ps_data ?ps])"
    by (rule duplicate_is_delivered_again) (rule refl)
  then show ?thesis by simp
qed

end
