(* ===== verification/Interpolator.thy ===== *)
theory Interpolator
  imports Rift_Core
begin

text \<open>
  The snapshot buffer of a renderer: \<open>crates/transport/src/interpolator.rs\<close>. The type of a
  state and its \<open>lerp\<close>, the trait \<open>Interpolatable\<close>, are parameters; \<open>World\<close> provides the
  implementation of the program. The buffer holds the last accepted snapshots in strictly increasing
  tick order, so that at most one adjacent pair brackets a tick.
\<close>

section \<open>State and operations\<close>

record 't snapshot =
  sn_tick :: tick
  sn_state :: 't

record 't interpolator =
  ib_buffer :: "'t snapshot list"
  ib_buffer_size :: usize

definition interpolator_new :: "usize \<Rightarrow> 't interpolator" where
  "interpolator_new n = \<lparr>ib_buffer = [], ib_buffer_size = n\<rparr>"

definition push_snapshot :: "'t snapshot \<Rightarrow> 't interpolator \<Rightarrow> 't interpolator" where
  "push_snapshot s it =
     (let buf = ib_buffer it in
      if buf \<noteq> [] \<and> sn_tick s \<le> sn_tick (last buf) then it
      else
        let kept = (if unat (ib_buffer_size it) \<le> length buf then tl buf else buf)
        in it\<lparr>ib_buffer := kept @ [s]\<rparr>)"

text \<open>\<open>lerp\<close> may panic; the loop over adjacent pairs returns at the first that brackets the tick.\<close>

fun bracket :: "tick \<Rightarrow> 't snapshot list \<Rightarrow> ('t snapshot \<times> 't snapshot) option" where
  "bracket t (a # b # rest) =
     (if sn_tick a \<le> t \<and> t < sn_tick b then Some (a, b) else bracket t (b # rest))"
| "bracket t _ = None"

definition interpolate ::
  "('t \<Rightarrow> 't \<Rightarrow> f32 \<Rightarrow> 't option) \<Rightarrow> 't interpolator \<Rightarrow> tick \<Rightarrow> f32 \<Rightarrow> 't option option" where
  "interpolate lerp it render_tick lerp_factor =
     (if length (ib_buffer it) < 2 then Some None
      else case bracket render_tick (ib_buffer it) of
             None \<Rightarrow> Some None
           | Some (a, b) \<Rightarrow> do {
               s \<leftarrow> lerp (sn_state a) (sn_state b) lerp_factor;
               Some (Some s)
             })"

section \<open>The buffer\<close>

abbreviation ticks :: "'t snapshot list \<Rightarrow> tick list" where
  "ticks buf \<equiv> map sn_tick buf"

definition interpolator_ok :: "'t interpolator \<Rightarrow> bool" where
  "interpolator_ok it \<longleftrightarrow> sorted_wrt (<) (ticks (ib_buffer it)) \<and>
     length (ib_buffer it) \<le> max 1 (unat (ib_buffer_size it))"

lemma interpolator_new_ok: "interpolator_ok (interpolator_new n)"
  by (simp add: interpolator_ok_def interpolator_new_def)

lemma push_snapshot_take:
  "\<not> (ib_buffer it \<noteq> [] \<and> sn_tick s \<le> sn_tick (last (ib_buffer it))) \<Longrightarrow>
    push_snapshot s it = it\<lparr>ib_buffer :=
      (if unat (ib_buffer_size it) \<le> length (ib_buffer it) then tl (ib_buffer it)
       else ib_buffer it) @ [s]\<rparr>"
  unfolding push_snapshot_def Let_def by (rule if_not_P)

lemma sorted_last:
  "sorted_wrt (<) (ticks buf) \<Longrightarrow> s \<in> set buf \<Longrightarrow> sn_tick s \<le> sn_tick (last buf)"
  by (induction buf) (auto intro: less_imp_le)

lemma sorted_tl: "sorted_wrt R xs \<Longrightarrow> sorted_wrt R (tl xs)"
  by (cases xs) auto

lemma push_snapshot_ok:
  assumes "interpolator_ok it"
  shows "interpolator_ok (push_snapshot s it)"
proof (cases "ib_buffer it \<noteq> [] \<and> sn_tick s \<le> sn_tick (last (ib_buffer it))")
  case True
  with assms show ?thesis by (simp add: push_snapshot_def)
next
  case False
  let ?kept = "if unat (ib_buffer_size it) \<le> length (ib_buffer it)
    then tl (ib_buffer it) else ib_buffer it"
  have push: "push_snapshot s it = it\<lparr>ib_buffer := ?kept @ [s]\<rparr>"
    by (rule push_snapshot_take [OF False])
  have sorted: "sorted_wrt (<) (ticks (ib_buffer it))"
    using assms by (simp add: interpolator_ok_def)
  have "sn_tick a < sn_tick s" if "a \<in> set (ib_buffer it)" for a
    using sorted_last [OF sorted that] that False by force
  then have "\<forall>a \<in> set ?kept. sn_tick a < sn_tick s"
    by (cases "ib_buffer it") auto
  moreover have "sorted_wrt (<) (ticks ?kept)"
    using sorted sorted_tl [OF sorted] by (simp add: map_tl)
  ultimately have "sorted_wrt (<) (ticks (?kept @ [s]))"
    by (simp only: map_append sorted_wrt_append) auto
  moreover have "length (?kept @ [s]) \<le> max 1 (unat (ib_buffer_size it))"
    using assms by (auto simp: interpolator_ok_def)
  ultimately show ?thesis
    unfolding push interpolator_ok_def by simp
qed

text \<open>
  The buffer after a run of pushes: of the snapshots that were newer than all before them, the last
  \<open>buffer_size\<close> ones.
\<close>

fun newer_than :: "tick option \<Rightarrow> 't snapshot list \<Rightarrow> 't snapshot list" where
  "newer_than hi [] = []"
| "newer_than hi (s # ss) =
     (case hi of
        None \<Rightarrow> s # newer_than (Some (sn_tick s)) ss
      | Some t \<Rightarrow> if sn_tick s \<le> t then newer_than hi ss
                  else s # newer_than (Some (sn_tick s)) ss)"

definition last_n :: "nat \<Rightarrow> 'a list \<Rightarrow> 'a list" where
  "last_n n xs = drop (length xs - n) xs"

lemma last_n_snoc:
  "1 \<le> n \<Longrightarrow> last_n n (xs @ [x]) =
    (if n \<le> length (last_n n xs) then tl (last_n n xs) else last_n n xs) @ [x]"
  by (auto simp: last_n_def tl_drop drop_Suc Suc_diff_le not_le min_def simp flip: drop_Suc)

lemma last_n_last: "1 \<le> n \<Longrightarrow> xs \<noteq> [] \<Longrightarrow> last_n n xs \<noteq> [] \<and> last (last_n n xs) = last xs"
  by (cases xs) (auto simp: last_n_def)

definition top_tick :: "'t snapshot list \<Rightarrow> tick option" where
  "top_tick xs = (if xs = [] then None else Some (sn_tick (last xs)))"

lemma push_snapshots:
  assumes "1 \<le> unat (ib_buffer_size it)" "ib_buffer it = last_n (unat (ib_buffer_size it)) xs"
  shows "ib_buffer (fold push_snapshot ss it) =
      last_n (unat (ib_buffer_size it)) (xs @ newer_than (top_tick xs) ss)"
  using assms
proof (induction ss arbitrary: xs it)
  case Nil
  then show ?case by simp
next
  case (Cons s ss)
  let ?n = "unat (ib_buffer_size it)"
  have ends: "xs \<noteq> [] \<Longrightarrow> ib_buffer it \<noteq> [] \<and> last (ib_buffer it) = last xs"
    "xs = [] \<Longrightarrow> ib_buffer it = []"
    using last_n_last [OF Cons.prems(1), of xs] Cons.prems(2) by (auto simp: last_n_def)
  show ?case
  proof (cases "xs \<noteq> [] \<and> sn_tick s \<le> sn_tick (last xs)")
    case True
    then have "push_snapshot s it = it" using ends by (simp add: push_snapshot_def)
    with True Cons.IH [OF Cons.prems] show ?thesis by (simp add: top_tick_def)
  next
    case False
    let ?it = "push_snapshot s it"
    have "\<not> (ib_buffer it \<noteq> [] \<and> sn_tick s \<le> sn_tick (last (ib_buffer it)))"
      using False ends by (cases "xs = []") auto
    then have "?it = it\<lparr>ib_buffer :=
        (if ?n \<le> length (ib_buffer it) then tl (ib_buffer it) else ib_buffer it) @ [s]\<rparr>"
      by (rule push_snapshot_take)
    then have "ib_buffer ?it = last_n ?n (xs @ [s])" "ib_buffer_size ?it = ib_buffer_size it"
      using last_n_snoc [OF Cons.prems(1), of xs s] Cons.prems(2) by simp_all
    with Cons.IH [of ?it "xs @ [s]"] Cons.prems(1) False show ?thesis
      by (auto simp: top_tick_def)
  qed
qed

section \<open>Interpolation\<close>

lemma bracket_Some:
  "bracket t buf = Some (a, b) \<Longrightarrow>
    \<exists>i. Suc i < length buf \<and> a = buf ! i \<and> b = buf ! Suc i \<and> sn_tick a \<le> t \<and> t < sn_tick b"
proof (induction t buf rule: bracket.induct)
  case (1 t x y rest)
  show ?case
  proof (cases "sn_tick x \<le> t \<and> t < sn_tick y")
    case True
    with 1 show ?thesis by (intro exI [of _ 0]) auto
  next
    case False
    with 1 obtain i where "Suc i < length (y # rest)" "a = (y # rest) ! i"
      "b = (y # rest) ! Suc i" "sn_tick a \<le> t" "t < sn_tick b" by (auto split: if_splits)
    then show ?thesis by (intro exI [of _ "Suc i"]) auto
  qed
qed auto

lemma bracket_exists:
  "buf \<noteq> [] \<Longrightarrow> sn_tick (hd buf) \<le> t \<Longrightarrow> t < sn_tick (last buf) \<Longrightarrow> \<exists>a b. bracket t buf = Some (a, b)"
  by (induction t buf rule: bracket.induct) (auto simp: not_less split: if_splits)

lemma bracket_range:
  assumes "sorted_wrt (<) (ticks buf)" "bracket t buf = Some (a, b)"
  shows "sn_tick (hd buf) \<le> t \<and> t < sn_tick (last buf)"
proof -
  obtain i where i: "Suc i < length buf" "a = buf ! i" "b = buf ! Suc i"
    "sn_tick a \<le> t" "t < sn_tick b"
    using bracket_Some [OF assms(2)] by blast
  have "sn_tick (hd buf) \<le> sn_tick a"
    using i assms(1) by (cases buf) (auto simp: nth_Cons' less_imp_le)
  moreover have "sn_tick b \<le> sn_tick (last buf)"
    using sorted_last [OF assms(1), of b] i by simp
  ultimately show ?thesis using i by auto
qed

lemma bracket_unique:
  assumes "sorted_wrt (<) (ticks buf)" "Suc i < length buf" "Suc j < length buf"
    and "sn_tick (buf ! i) \<le> t" "t < sn_tick (buf ! Suc i)"
    and "sn_tick (buf ! j) \<le> t" "t < sn_tick (buf ! Suc j)"
  shows "i = j"
proof (rule ccontr)
  assume "i \<noteq> j"
  then consider "Suc i \<le> j" | "Suc j \<le> i" by linarith
  then show False
  proof cases
    case 1
    then have "sn_tick (buf ! Suc i) \<le> sn_tick (buf ! j)"
      using assms(1,3) by (cases "Suc i = j") (auto simp: sorted_wrt_iff_nth_less less_imp_le)
    with assms show False by auto
  next
    case 2
    then have "sn_tick (buf ! Suc j) \<le> sn_tick (buf ! i)"
      using assms(1,2) by (cases "Suc j = i") (auto simp: sorted_wrt_iff_nth_less less_imp_le)
    with assms show False by auto
  qed
qed

lemma interpolate_spec:
  assumes "interpolator_ok it" "Suc i < length (ib_buffer it)"
    and "sn_tick (ib_buffer it ! i) \<le> t" "t < sn_tick (ib_buffer it ! Suc i)"
  shows "interpolate lerp it t f =
    map_option Some (lerp (sn_state (ib_buffer it ! i)) (sn_state (ib_buffer it ! Suc i)) f)"
proof -
  let ?buf = "ib_buffer it"
  have sorted: "sorted_wrt (<) (ticks ?buf)" using assms(1) by (simp add: interpolator_ok_def)
  have "sn_tick (hd ?buf) \<le> sn_tick (?buf ! i)"
    using assms(2) sorted by (cases ?buf) (auto simp: nth_Cons' less_imp_le)
  moreover have "sn_tick (?buf ! Suc i) \<le> sn_tick (last ?buf)"
    using assms(2) by (intro sorted_last [OF sorted]) simp
  moreover have "?buf \<noteq> []" using assms(2) by auto
  ultimately obtain a b where br: "bracket t ?buf = Some (a, b)"
    using bracket_exists [of ?buf t] assms(3,4) by (meson le_less_trans less_le_trans order_trans)
  obtain j where j: "Suc j < length ?buf" "a = ?buf ! j" "b = ?buf ! Suc j"
    "sn_tick a \<le> t" "t < sn_tick b"
    using bracket_Some [OF br] by blast
  have "i = j" using bracket_unique [OF sorted assms(2) j(1) assms(3,4)] j by auto
  with br j assms(2) show ?thesis
    by (auto simp: interpolate_def bind_map_option map_option_case split: option.split)
qed

section \<open>Properties\<close>

text \<open>
  After any sequence of pushes, a fresh buffer of capacity \<open>n\<close> holds the last \<open>n\<close> of the snapshots
  that were newer than everything pushed before them, in strictly increasing tick order.
\<close>

theorem buffer_keeps_newest:
  assumes "n \<noteq> 0"
  shows "ib_buffer (fold push_snapshot ss (interpolator_new n)) = last_n (unat n) (newer_than None ss) \<and>
    sorted_wrt (<) (ticks (ib_buffer (fold push_snapshot ss (interpolator_new n))))"
proof -
  have "1 \<le> unat n" using assms by (simp add: Suc_le_eq unat_gt_0)
  then have "ib_buffer (fold push_snapshot ss (interpolator_new n)) = last_n (unat n) (newer_than None ss)"
    using push_snapshots [of "interpolator_new n" "[]" ss]
    by (simp add: interpolator_new_def last_n_def top_tick_def)
  moreover have "interpolator_ok (fold push_snapshot ss it)" if "interpolator_ok it" for it
    using that by (induction ss arbitrary: it) (auto intro: push_snapshot_ok)
  from this [OF interpolator_new_ok]
  have "sorted_wrt (<) (ticks (ib_buffer (fold push_snapshot ss (interpolator_new n))))"
    by (simp add: interpolator_ok_def)
  ultimately show ?thesis by simp
qed

theorem buffer_keeps_newest_witness:
  "ib_buffer (fold push_snapshot
      [\<lparr>sn_tick = 3, sn_state = ''a''\<rparr>, \<lparr>sn_tick = 5, sn_state = ''b''\<rparr>, \<lparr>sn_tick = 4, sn_state = ''c''\<rparr>,
       \<lparr>sn_tick = 8, sn_state = ''d''\<rparr>] (interpolator_new 2)) =
    [\<lparr>sn_tick = 5, sn_state = ''b''\<rparr>, \<lparr>sn_tick = 8, sn_state = ''d''\<rparr>]"
proof -
  let ?ss = "[\<lparr>sn_tick = 3, sn_state = ''a''\<rparr>, \<lparr>sn_tick = 5, sn_state = ''b''\<rparr>, \<lparr>sn_tick = 4, sn_state = ''c''\<rparr>,
       \<lparr>sn_tick = 8, sn_state = ''d''\<rparr>]"
  have "last_n (unat (2 :: u64)) (newer_than None ?ss) =
      [\<lparr>sn_tick = 5, sn_state = ''b''\<rparr>, \<lparr>sn_tick = 8, sn_state = ''d''\<rparr>]"
    by (simp add: last_n_def)
  with buffer_keeps_newest [of 2 ?ss] show ?thesis by simp
qed

end
