(* ===== verification/World.thy ===== *)
theory World
  imports Interpolator
begin

text \<open>
  The simulated world: the \<open>WorldState\<close> of \<open>bin/server.rs\<close>. Positions are fixed-point integers, so
  that stepping the world is deterministic; \<open>lerp\<close> is for the renderer. \<open>std\<close>'s \<open>DefaultHasher\<close> does not specify its
  algorithm: it is a function of the bytes written to it, an argument of \<open>calculate_hash\<close>.
\<close>

section \<open>State and operations\<close>

record world_state =
  positions :: "fixed_vec3 list"

type_synonym hasher = "bytes \<Rightarrow> u64"

text \<open>\<open>write_i32\<close> writes the four bytes of the integer.\<close>

definition vec_bytes :: "fixed_vec3 \<Rightarrow> bytes" where
  "vec_bytes v = to_le_bytes 4 (vx v) @ to_le_bytes 4 (vy v) @ to_le_bytes 4 (vz v)"

definition calculate_hash :: "hasher \<Rightarrow> world_state \<Rightarrow> u64" where
  "calculate_hash hash w = hash (concat (map vec_bytes (positions w)))"

text \<open>\<open>positions[0]\<close> panics when there is no position.\<close>

definition step_physics :: "profile \<Rightarrow> u32 \<Rightarrow> world_state \<Rightarrow> world_state option" where
  "step_physics p input w =
     (if input AND 0x01 \<noteq> 0 then
        (case positions w of
           [] \<Rightarrow> None
         | pos # rest \<Rightarrow> do {
             x \<leftarrow> add_s p (vx pos) 10;
             Some (w\<lparr>positions := pos\<lparr>vx := x\<rparr> # rest\<rparr>)
           })
      else Some w)"

definition lerp_coord :: "profile \<Rightarrow> i32 \<Rightarrow> i32 \<Rightarrow> f32 \<Rightarrow> i32 option" where
  "lerp_coord p a b factor = do {
     d \<leftarrow> sub_s p b a;
     add_s p a (f32_to_i32 (f32_round_int (f32_of_int (sint d) * factor)))
   }"

definition lerp_vec :: "profile \<Rightarrow> fixed_vec3 \<Rightarrow> fixed_vec3 \<Rightarrow> f32 \<Rightarrow> fixed_vec3 option" where
  "lerp_vec p a b factor = do {
     x \<leftarrow> lerp_coord p (vx a) (vx b) factor;
     y \<leftarrow> lerp_coord p (vy a) (vy b) factor;
     z \<leftarrow> lerp_coord p (vz a) (vz b) factor;
     Some \<lparr>vx = x, vy = y, vz = z\<rparr>
   }"

fun lerp_positions ::
  "profile \<Rightarrow> (fixed_vec3 \<times> fixed_vec3) list \<Rightarrow> f32 \<Rightarrow> fixed_vec3 list option" where
  "lerp_positions p [] factor = Some []"
| "lerp_positions p ((a, b) # ps) factor = do {
     v \<leftarrow> lerp_vec p a b factor;
     vs \<leftarrow> lerp_positions p ps factor;
     Some (v # vs)
   }"

definition world_lerp :: "profile \<Rightarrow> world_state \<Rightarrow> world_state \<Rightarrow> f32 \<Rightarrow> world_state option" where
  "world_lerp p a b factor = do {
     new_pos \<leftarrow> lerp_positions p (zip (positions a) (positions b)) factor;
     Some \<lparr>positions = new_pos\<rparr>
   }"

section \<open>Stepping and hashing\<close>

definition moved :: "u32 \<Rightarrow> world_state \<Rightarrow> world_state" where
  "moved input w =
     (if input AND 1 \<noteq> 0 then
        (case positions w of
           [] \<Rightarrow> w
         | pos # rest \<Rightarrow> w\<lparr>positions := pos\<lparr>vx := vx pos + 10\<rparr> # rest\<rparr>)
      else w)"

lemma step_physics_total:
  "positions w \<noteq> [] \<Longrightarrow> step_physics Release input w = Some (moved input w)"
  by (cases "positions w") (auto simp: step_physics_def moved_def)

lemma step_physics_SomeD: "step_physics p input w = Some w' \<Longrightarrow> w' = moved input w"
  by (auto simp: step_physics_def moved_def bind_Some_conv dest!: add_s_SomeD
      split: if_splits list.splits)

lemma moved_length [simp]: "length (positions (moved input w)) = length (positions w)"
  by (simp add: moved_def split: list.split)

lemma vec_bytes_length [simp]: "length (vec_bytes v) = 12"
  by (simp add: vec_bytes_def)

lemma vec_bytes_inject: "vec_bytes u = vec_bytes v \<longleftrightarrow> u = v"
  by (cases u; cases v) (auto simp: vec_bytes_def to_le_bytes_inject)

lemma concat_vec_bytes_inject:
  "concat (map vec_bytes us) = concat (map vec_bytes vs) \<longleftrightarrow> us = vs"
proof (induction us arbitrary: vs)
  case Nil
  have "vec_bytes v \<noteq> []" for v using vec_bytes_length [of v] by fastforce
  then show ?case by (cases vs) (auto simp: eq_commute)
next
  case (Cons u us)
  have "vec_bytes v \<noteq> []" for v using vec_bytes_length [of v] by fastforce
  then show ?case
    using Cons.IH by (cases vs) (auto simp: append_eq_append_conv vec_bytes_inject)
qed

text \<open>
  What is hashed determines the world: two worlds with the same hash are the same, or the hash
  function collides on their bytes.
\<close>

definition world_bytes :: "world_state \<Rightarrow> bytes" where
  "world_bytes w = concat (map vec_bytes (positions w))"

lemma calculate_hash_bytes: "calculate_hash hash w = hash (world_bytes w)"
  by (simp add: calculate_hash_def world_bytes_def)

lemma world_bytes_inject: "world_bytes v = world_bytes w \<longleftrightarrow> v = w"
  using concat_vec_bytes_inject [of "positions v" "positions w"]
  by (cases v; cases w) (simp add: world_bytes_def)

section \<open>Interpolation stays between the endpoints\<close>

lemma round_half_away_mono: "p \<le> q \<Longrightarrow> round_half_away p \<le> round_half_away q"
proof -
  assume le: "p \<le> q"
  consider "0 \<le> p" | "p < 0" "0 \<le> q" | "q < 0" using le by linarith
  then show ?thesis
  proof cases
    case 1
    with le show ?thesis by (auto simp: round_half_away_def intro: floor_mono)
  next
    case 2
    then have "0 \<le> \<lfloor>- p + 1 / 2\<rfloor>" "0 \<le> \<lfloor>q + 1 / 2\<rfloor>" by auto
    moreover have "round_half_away p = - \<lfloor>- p + 1 / 2\<rfloor>" "round_half_away q = \<lfloor>q + 1 / 2\<rfloor>"
      using 2 by (simp_all add: round_half_away_def)
    ultimately show ?thesis by linarith
  next
    case 3
    with le show ?thesis by (auto simp: round_half_away_def intro: floor_mono)
  qed
qed

lemma round_half_away_int [simp]: "round_half_away (of_int i) = i"
  by (rule round_half_away_near) simp

lemma trunc_rat_int [simp]: "trunc_rat (of_int i) = i"
  by (simp add: trunc_rat_def)

lemma f32_of_int_small:
  assumes "\<bar>d\<bar> < 2 ^ 24"
  shows "f32_of_int d = Fin (of_int d)"
proof -
  have "(of_int \<bar>d\<bar> :: rat) < of_int (2 ^ 24)" using assms by (simp only: of_int_less_iff)
  then have "\<bar>of_int d\<bar> < f32_max_exp" by (simp add: f32_max_exp_def)
  then show ?thesis using rnd_int [OF assms] by (simp add: f32_of_int_def f32_round_def)
qed

lemma f32_of_int_mult_1:
  assumes "\<bar>d\<bar> < 2 ^ 24"
  shows "f32_of_int d * Fin 1 = Fin (of_int d)"
  using f32_of_int_small [OF assms] by (simp add: f32_ops) (simp add: f32_of_int_def)

definition lerp_offset :: "int \<Rightarrow> f32 \<Rightarrow> i32" where
  "lerp_offset d f = f32_to_i32 (f32_round_int (f32_of_int d * f))"

lemma lerp_offset_between:
  assumes "\<bar>d\<bar> < 2 ^ 24" "f32_within 0 1 f"
  shows "\<exists>e. lerp_offset d f = word_of_int e \<and> min 0 d \<le> e \<and> e \<le> max 0 d"
proof -
  obtain q where q: "f = Fin q" "0 \<le> q" "q \<le> 1" using assms(2) by (rule f32_withinE)
  let ?lo = "of_int (min 0 d) :: rat" and ?hi = "of_int (max 0 d) :: rat"
  have prod: "?lo \<le> of_int d * q" "of_int d * q \<le> ?hi"
  proof -
    have "of_int d * q \<le> of_int d \<and> 0 \<le> of_int d * q" if "0 \<le> d"
      using q that by (simp add: mult_left_le)
    moreover have "of_int d \<le> of_int d * q \<and> of_int d * q \<le> 0" if "d \<le> 0"
      using q that mult_left_mono_neg [of q 1 "of_int d"] by (simp add: mult_nonpos_nonneg)
    ultimately show "?lo \<le> of_int d * q" "of_int d * q \<le> ?hi"
      by (cases "0 \<le> d"; simp add: min_def max_def)+
  qed
  have small: "\<bar>min 0 d\<bar> < 2 ^ 24" "\<bar>max 0 d\<bar> < 2 ^ 24" using assms(1) by auto
  have "\<bar>?lo\<bar> < f32_max_exp" "\<bar>?hi\<bar> < f32_max_exp"
    using f32_of_int_small [OF small(1)] f32_of_int_small [OF small(2)] rnd_int [OF small(1)]
      rnd_int [OF small(2)]
    by (auto simp: f32_of_int_def f32_round_def split: if_splits)
  then have r: "f32_round (of_int d * q) = Fin (rnd (of_int d * q))"
    and within: "f32_within ?lo ?hi (f32_round (of_int d * q))"
    using f32_round_within [OF prod] rnd_int small by (metis, metis)
  let ?e = "round_half_away (rnd (of_int d * q))"
  have "?lo \<le> rnd (of_int d * q)" "rnd (of_int d * q) \<le> ?hi"
    using within r by auto
  then have e: "min 0 d \<le> ?e" "?e \<le> max 0 d"
    using round_half_away_mono [of ?lo "rnd (of_int d * q)"]
      round_half_away_mono [of "rnd (of_int d * q)" ?hi] by (simp_all only: round_half_away_int)
  then have "max (- (2 ^ 31)) (min (2 ^ 31 - 1) ?e) = ?e" using assms(1) by auto
  then have "lerp_offset d f = word_of_int ?e"
    using f32_of_int_small [OF assms(1)] r
    by (simp add: lerp_offset_def q(1) f32_ops f32_to_i32_def)
  with e show ?thesis by blast
qed

lemma sint_in_range: "in_range_s TYPE(i32) i \<Longrightarrow> sint (word_of_int i :: i32) = i"
  by (simp add: in_range_s_def sint_sbintrunc' signed_take_bit_int_eq_self)

lemma lerp_coord_between:
  assumes "\<bar>sint b - sint a\<bar> < 2 ^ 24" "f32_within 0 1 f"
  shows "\<exists>c. lerp_coord p a b f = Some c \<and>
    min (sint a) (sint b) \<le> sint c \<and> sint c \<le> max (sint a) (sint b)"
proof -
  let ?d = "sint b - sint a"
  have "in_range_s TYPE(i32) ?d" using assms(1) by (auto simp: in_range_s_def)
  then have sub: "sub_s p b a = Some (b - a)" and d: "sint (b - a) = ?d"
    using sint_in_range [of ?d] by (simp_all add: sub_s_def)
  obtain e where e: "lerp_offset ?d f = word_of_int e" "min 0 ?d \<le> e" "e \<le> max 0 ?d"
    using lerp_offset_between [OF assms] by blast
  have lims: "- (2 ^ 31) \<le> sint a" "sint a < 2 ^ 31" "- (2 ^ 31) \<le> sint b" "sint b < 2 ^ 31"
    using sint_greater_eq [of a] sint_lt [of a] sint_greater_eq [of b] sint_lt [of b] by simp_all
  have bounds: "min (sint a) (sint b) \<le> sint a + e" "sint a + e \<le> max (sint a) (sint b)"
    using e(2,3) by auto
  have "in_range_s TYPE(i32) e" using e(2,3) assms(1) by (auto simp: in_range_s_def)
  then have se: "sint (word_of_int e :: i32) = e" by (rule sint_in_range)
  have "in_range_s TYPE(i32) (sint a + e)"
    using bounds lims by (auto simp: in_range_s_def)
  then have "add_s p a (word_of_int e) = Some (a + word_of_int e)"
    and "sint (a + word_of_int e) = sint a + e"
    using sint_in_range [of "sint a + e"] by (simp_all add: add_s_def se)
  with bounds show ?thesis
    by (simp add: lerp_coord_def sub d e(1) flip: lerp_offset_def)
qed

lemma lerp_coord_ends:
  assumes "\<bar>sint b - sint a\<bar> < 2 ^ 24"
  shows "lerp_coord p a b (Fin 0) = Some a" "lerp_coord p a b (Fin 1) = Some b"
proof -
  let ?d = "sint b - sint a"
  have "in_range_s TYPE(i32) ?d" using assms by (auto simp: in_range_s_def)
  then have sub: "sub_s p b a = Some (b - a)" and d: "sint (b - a) = ?d"
    using sint_in_range [of ?d] by (simp_all add: sub_s_def)
  have fd: "f32_of_int ?d = Fin (of_int ?d)" using assms by (rule f32_of_int_small)
  have prod: "f32_of_int ?d * Fin 1 = Fin (of_int ?d)" using assms by (rule f32_of_int_mult_1)
  have "max (- (2 ^ 31)) (min (2 ^ 31 - 1) ?d) = ?d" using assms by auto
  then have one: "f32_to_i32 (f32_round_int (f32_of_int ?d * Fin 1)) = word_of_int ?d"
    unfolding prod by (simp only: f32_round_int.simps round_half_away_int f32_to_i32_def
        f32_cast.simps trunc_rat_int)
  have "add_s p a (b - a) = Some b"
    by (simp add: add_s_def d in_range_s_def) (use sint_greater_eq [of b] sint_lt [of b] in simp)
  then show "lerp_coord p a b (Fin 1) = Some b"
    by (simp add: lerp_coord_def sub d one)
  have zero: "f32_to_i32 (f32_round_int (f32_of_int ?d * Fin 0)) = 0"
    using round_half_away_int [of 0] trunc_rat_int [of 0]
    by (simp add: fd f32_ops f32_to_i32_def f32_round_def not_le)
  have "add_s p a 0 = Some a"
    using sint_greater_eq [of a] sint_lt [of a] by (simp add: add_s_def in_range_s_def)
  then show "lerp_coord p a b (Fin 0) = Some a"
    by (simp add: lerp_coord_def sub d zero)
qed

section \<open>Properties\<close>

definition vec_between :: "fixed_vec3 \<Rightarrow> fixed_vec3 \<Rightarrow> fixed_vec3 \<Rightarrow> bool" where
  "vec_between a b v \<longleftrightarrow>
     (\<forall>coord \<in> {vx, vy, vz}. min (sint (coord a)) (sint (coord b)) \<le> sint (coord v) \<and>
        sint (coord v) \<le> max (sint (coord a)) (sint (coord b)))"

definition vec_near :: "fixed_vec3 \<Rightarrow> fixed_vec3 \<Rightarrow> bool" where
  "vec_near a b \<longleftrightarrow> (\<forall>coord \<in> {vx, vy, vz}. \<bar>sint (coord b) - sint (coord a)\<bar> < 2 ^ 24)"

lemma lerp_vec_between:
  assumes "vec_near a b" "f32_within 0 1 f"
  shows "\<exists>v. lerp_vec p a b f = Some v \<and> vec_between a b v"
proof -
  from assms(1) obtain x y z where
    "lerp_coord p (vx a) (vx b) f = Some x" "min (sint (vx a)) (sint (vx b)) \<le> sint x"
    "sint x \<le> max (sint (vx a)) (sint (vx b))"
    "lerp_coord p (vy a) (vy b) f = Some y" "min (sint (vy a)) (sint (vy b)) \<le> sint y"
    "sint y \<le> max (sint (vy a)) (sint (vy b))"
    "lerp_coord p (vz a) (vz b) f = Some z" "min (sint (vz a)) (sint (vz b)) \<le> sint z"
    "sint z \<le> max (sint (vz a)) (sint (vz b))"
    using lerp_coord_between [OF _ assms(2), of "vx b" "vx a" p]
      lerp_coord_between [OF _ assms(2), of "vy b" "vy a" p]
      lerp_coord_between [OF _ assms(2), of "vz b" "vz a" p]
    by (auto simp: vec_near_def)
  then show ?thesis by (auto simp: lerp_vec_def vec_between_def)
qed

lemma lerp_positions_between:
  assumes "list_all2 vec_near as bs" "f32_within 0 1 f"
  shows "\<exists>vs. lerp_positions p (zip as bs) f = Some vs \<and> length vs = length as \<and>
    (\<forall>j<length as. vec_between (as ! j) (bs ! j) (vs ! j))"
  using assms(1)
proof (induction as bs rule: list_all2_induct)
  case Nil
  then show ?case by simp
next
  case (Cons a as b bs)
  then obtain vs where vs: "lerp_positions p (zip as bs) f = Some vs" "length vs = length as"
    "\<forall>j<length as. vec_between (as ! j) (bs ! j) (vs ! j)" by blast
  obtain v where "lerp_vec p a b f = Some v" "vec_between a b v"
    using lerp_vec_between [OF Cons.hyps(1) assms(2)] by blast
  with vs show ?case by (auto simp: nth_Cons split: nat.split)
qed

text \<open>
  C30: a world interpolated for a tick is made from the two adjacent snapshots of the buffer around that
  tick, does not panic in either profile, and every coordinate of it lies between the coordinates of
  the two snapshots, when these are less than \<open>2 ^ 24\<close> apart and the factor is between 0 and 1.
\<close>

theorem interpolation_between_snapshots:
  assumes "interpolator_ok it" "Suc i < length (ib_buffer it)"
    and "sn_tick (ib_buffer it ! i) \<le> t" "t < sn_tick (ib_buffer it ! Suc i)" "f32_within 0 1 f"
    and "list_all2 vec_near (positions (sn_state (ib_buffer it ! i)))
      (positions (sn_state (ib_buffer it ! Suc i)))"
  shows "\<exists>w. interpolate (world_lerp p) it t f = Some (Some w) \<and>
    length (positions w) = length (positions (sn_state (ib_buffer it ! i))) \<and>
    (\<forall>j<length (positions w). vec_between (positions (sn_state (ib_buffer it ! i)) ! j)
      (positions (sn_state (ib_buffer it ! Suc i)) ! j) (positions w ! j))"
  using lerp_positions_between [OF assms(6,5), of p] interpolate_spec [OF assms(1-4), of "world_lerp p" f]
  by (auto simp: world_lerp_def)

theorem interpolation_between_snapshots_witness:
  "\<exists>w. interpolate (world_lerp Debug)
      (fold push_snapshot
        [\<lparr>sn_tick = 7, sn_state = \<lparr>positions = [\<lparr>vx = 10, vy = - 4, vz = 0\<rparr>]\<rparr>\<rparr>,
         \<lparr>sn_tick = 9, sn_state = \<lparr>positions = [\<lparr>vx = 30, vy = 4, vz = 0\<rparr>]\<rparr>\<rparr>] (interpolator_new 128))
      8 (Fin (1 / 2)) = Some (Some w) \<and> length (positions w) = 1 \<and>
    vec_between \<lparr>vx = 10, vy = - 4, vz = 0\<rparr> \<lparr>vx = 30, vy = 4, vz = 0\<rparr> (positions w ! 0)"
proof -
  let ?s = "\<lparr>sn_tick = 7, sn_state = \<lparr>positions = [\<lparr>vx = 10, vy = - 4, vz = 0\<rparr>]\<rparr>\<rparr>"
  let ?t = "\<lparr>sn_tick = 9, sn_state = \<lparr>positions = [\<lparr>vx = 30, vy = 4, vz = 0\<rparr>]\<rparr>\<rparr>"
  let ?it = "fold push_snapshot [?s, ?t] (interpolator_new 128)"
  have ok: "interpolator_ok ?it"
    using push_snapshot_ok [OF push_snapshot_ok [OF interpolator_new_ok]] by simp
  have buf: "ib_buffer ?it = [?s, ?t]"
    by (simp add: push_snapshot_def interpolator_new_def)
  have half: "f32_within 0 1 (Fin (1 / 2))" using rnd_dyadic [of 1 1] by simp
  have near: "list_all2 vec_near (positions (sn_state (ib_buffer ?it ! 0)))
      (positions (sn_state (ib_buffer ?it ! Suc 0)))"
    unfolding buf by (simp add: vec_near_def)
  have "\<exists>w. interpolate (world_lerp Debug) ?it 8 (Fin (1 / 2)) = Some (Some w) \<and>
      length (positions w) = length (positions (sn_state (ib_buffer ?it ! 0))) \<and>
      (\<forall>j<length (positions w). vec_between (positions (sn_state (ib_buffer ?it ! 0)) ! j)
        (positions (sn_state (ib_buffer ?it ! Suc 0)) ! j) (positions w ! j))"
    by (rule interpolation_between_snapshots [OF ok _ _ _ half near]) (unfold buf, simp_all)
  then show ?thesis unfolding buf by auto
qed

text \<open>
  The server's hash of a world detects every difference, unless the hash function itself collides:
  the bytes that are hashed determine the positions, including their number.
\<close>

theorem equal_hashes_mean_equal_worlds:
  "calculate_hash hash v = calculate_hash hash w \<longleftrightarrow>
    v = w \<or> (world_bytes v \<noteq> world_bytes w \<and> hash (world_bytes v) = hash (world_bytes w))"
  by (auto simp: calculate_hash_bytes world_bytes_inject)

end
