(* ===== verification/Transport.thy ===== *)
theory Transport
  imports World Connection
begin

text \<open>
  The socket and the transporter: \<open>crates/transport/src/reactor.rs\<close> and
  \<open>crates/transport/src/transporter.rs\<close>. The socket is \<open>tokio\<close>'s: the results of its
  successive \<open>try_recv_from\<close> calls are a list, the outcome of \<open>send_to\<close> is a parameter. The
  locale \<open>network_reactor\<close> is the contract of the trait \<open>NetworkReactor\<close>, which the model of
  \<open>TokioReactor\<close> satisfies.
\<close>

section \<open>The reactor\<close>

type_synonym packet = "bytes \<times> sock_addr"

datatype recv_result = Received bytes sock_addr | WouldBlock | RecvFailed string

text \<open>The receive buffer; a longer datagram is truncated to it.\<close>

definition recv_buffer_size :: nat where "recv_buffer_size = 2048"

record tokio_reactor =
  so_recv :: "recv_result list"
  so_sent :: "packet list"

text \<open>Binding gives a socket, here the results of its receive calls to come, or an error.\<close>

definition tokio_new ::
  "(sock_addr \<Rightarrow> string + recv_result list) \<Rightarrow> sock_addr \<Rightarrow> rift_error + tokio_reactor" where
  "tokio_new bind_socket addr =
     (case bind_socket addr of
        Inr calls \<Rightarrow> Inr \<lparr>so_recv = calls, so_sent = []\<rparr>
      | Inl e \<Rightarrow> Inl (NetworkError e))"

text \<open>
  The polling loop. It goes on as long as datagrams are received; \<open>None\<close> is a loop that the list
  of call results does not end.
\<close>

fun poll_loop ::
  "packet list \<Rightarrow> recv_result list \<Rightarrow> ((rift_error + packet list) \<times> recv_result list) option" where
  "poll_loop packets [] = None"
| "poll_loop packets (Received d addr # calls) =
     poll_loop (packets @ [(take recv_buffer_size d, addr)]) calls"
| "poll_loop packets (WouldBlock # calls) = Some (Inr packets, calls)"
| "poll_loop packets (RecvFailed e # calls) = Some (Inl (NetworkError e), calls)"

definition tokio_poll_packets ::
  "tokio_reactor \<Rightarrow> ((rift_error + packet list) \<times> tokio_reactor) option" where
  "tokio_poll_packets r = do {
     (res, calls) \<leftarrow> poll_loop [] (so_recv r);
     Some (res, r\<lparr>so_recv := calls\<rparr>)
   }"

definition tokio_send_packet ::
  "(bytes \<Rightarrow> sock_addr \<Rightarrow> string option) \<Rightarrow> bytes \<Rightarrow> sock_addr \<Rightarrow> tokio_reactor
    \<Rightarrow> (rift_error + unit) \<times> tokio_reactor" where
  "tokio_send_packet send_to data addr r =
     (case send_to data addr of
        None \<Rightarrow> (Inr (), r\<lparr>so_sent := so_sent r @ [(data, addr)]\<rparr>)
      | Some e \<Rightarrow> (Inl (NetworkError e), r))"

section \<open>The transporter\<close>

record ('t, 'r) transporter =
  tp_reactor :: 'r
  tp_interpolator :: "'t interpolator"

definition transporter_new :: "'r \<Rightarrow> usize \<Rightarrow> ('t, 'r) transporter" where
  "transporter_new r n = \<lparr>tp_reactor = r, tp_interpolator = interpolator_new n\<rparr>"

definition transporter_poll ::
  "('r \<Rightarrow> ((rift_error + packet list) \<times> 'r) option) \<Rightarrow> ('t, 'r) transporter
    \<Rightarrow> ((rift_error + packet list) \<times> ('t, 'r) transporter) option" where
  "transporter_poll poll tp = do {
     (res, r) \<leftarrow> poll (tp_reactor tp);
     Some (res, tp\<lparr>tp_reactor := r\<rparr>)
   }"

definition transporter_send ::
  "(bytes \<Rightarrow> sock_addr \<Rightarrow> 'r \<Rightarrow> (rift_error + unit) \<times> 'r) \<Rightarrow> bytes \<Rightarrow> sock_addr
    \<Rightarrow> ('t, 'r) transporter \<Rightarrow> (rift_error + unit) \<times> ('t, 'r) transporter" where
  "transporter_send send data addr tp =
     (let (res, r) = send data addr (tp_reactor tp) in (res, tp\<lparr>tp_reactor := r\<rparr>))"

section \<open>The contract of a reactor\<close>

text \<open>
  \<open>rounds\<close> is the number of polls that the socket can answer, \<open>arrivals\<close> the packets those
  polls deliver. A poll of a healthy reactor delivers a prefix of the arrivals; sending does not
  touch them.
\<close>

locale network_reactor =
  fixes poll :: "'r \<Rightarrow> ((rift_error + packet list) \<times> 'r) option"
    and send :: "bytes \<Rightarrow> sock_addr \<Rightarrow> 'r \<Rightarrow> (rift_error + unit) \<times> 'r"
    and healthy :: "'r \<Rightarrow> bool"
    and rounds :: "'r \<Rightarrow> nat"
    and arrivals :: "'r \<Rightarrow> packet list"
  assumes poll_healthy: "healthy r \<Longrightarrow> 0 < rounds r \<Longrightarrow>
      \<exists>ps r'. poll r = Some (Inr ps, r') \<and> healthy r' \<and>
        rounds r = Suc (rounds r') \<and> arrivals r = ps @ arrivals r'"
    and no_rounds: "healthy r \<Longrightarrow> rounds r = 0 \<Longrightarrow> arrivals r = []"
    and send_keeps: "send d a r = (res, r') \<Longrightarrow> healthy r' = healthy r \<and>
        rounds r' = rounds r \<and> arrivals r' = arrivals r"
begin

text \<open>Polling a transporter again and again, with sends in between.\<close>

fun poll_rounds :: "(bytes \<times> sock_addr) list list \<Rightarrow> ('t, 'r) transporter
    \<Rightarrow> (packet list list \<times> ('t, 'r) transporter) option" where
  "poll_rounds [] tp = Some ([], tp)"
| "poll_rounds (out # outs) tp =
     (case transporter_poll poll tp of
        Some (Inr ps, tp1) \<Rightarrow>
          map_option (apfst (Cons ps))
            (poll_rounds outs (fold (\<lambda>(d, a) tp. snd (transporter_send send d a tp)) out tp1))
      | _ \<Rightarrow> None)"

lemma sends_keep:
  "let r' = tp_reactor (fold (\<lambda>(d, a) tp. snd (transporter_send send d a tp)) out tp) in
    healthy r' = healthy (tp_reactor tp) \<and> rounds r' = rounds (tp_reactor tp) \<and>
    arrivals r' = arrivals (tp_reactor tp)"
proof (induction out arbitrary: tp)
  case Nil
  then show ?case by simp
next
  case (Cons x out)
  obtain d a where x: "x = (d, a)" by (cases x)
  obtain res r' where "send d a (tp_reactor tp) = (res, r')" by fastforce
  with send_keeps [OF this] Cons.IH [of "tp\<lparr>tp_reactor := r'\<rparr>"] show ?case
    by (simp add: x transporter_send_def Let_def)
qed

lemma poll_all:
  "healthy (tp_reactor tp) \<Longrightarrow> length outs = rounds (tp_reactor tp) \<Longrightarrow>
    \<exists>pss tp'. poll_rounds outs tp = Some (pss, tp') \<and> concat pss = arrivals (tp_reactor tp)"
proof (induction outs arbitrary: tp)
  case Nil
  then show ?case using no_rounds by simp
next
  case (Cons out outs)
  then obtain ps r' where r': "poll (tp_reactor tp) = Some (Inr ps, r')" "healthy r'"
    "rounds (tp_reactor tp) = Suc (rounds r')" "arrivals (tp_reactor tp) = ps @ arrivals r'"
    using poll_healthy [of "tp_reactor tp"] by auto
  let ?tp = "fold (\<lambda>(d, a) tp. snd (transporter_send send d a tp)) out (tp\<lparr>tp_reactor := r'\<rparr>)"
  have "healthy (tp_reactor ?tp)" "rounds (tp_reactor ?tp) = rounds r'"
    "arrivals (tp_reactor ?tp) = arrivals r'"
    using sends_keep [of out "tp\<lparr>tp_reactor := r'\<rparr>"] r'(2) by (simp_all add: Let_def)
  with Cons.IH [of ?tp] Cons.prems r' show ?case
    by (auto simp: transporter_poll_def)
qed

end

section \<open>The reactor of the program satisfies it\<close>

definition tokio_healthy :: "tokio_reactor \<Rightarrow> bool" where
  "tokio_healthy r \<longleftrightarrow>
     (\<forall>e. RecvFailed e \<notin> set (so_recv r)) \<and> (so_recv r = [] \<or> last (so_recv r) = WouldBlock)"

definition tokio_rounds :: "tokio_reactor \<Rightarrow> nat" where
  "tokio_rounds r = length (filter (\<lambda>c. c = WouldBlock) (so_recv r))"

fun received_packets :: "recv_result list \<Rightarrow> packet list" where
  "received_packets [] = []"
| "received_packets (Received d addr # calls) =
     (take recv_buffer_size d, addr) # received_packets calls"
| "received_packets (_ # calls) = received_packets calls"

definition tokio_arrivals :: "tokio_reactor \<Rightarrow> packet list" where
  "tokio_arrivals r = received_packets (so_recv r)"

lemma poll_loop_healthy:
  "\<forall>e. RecvFailed e \<notin> set calls \<Longrightarrow> WouldBlock \<in> set calls \<Longrightarrow>
    \<exists>ps rest pre. poll_loop acc calls = Some (Inr (acc @ ps), rest) \<and>
      calls = pre @ WouldBlock # rest \<and> WouldBlock \<notin> set pre \<and> ps = received_packets pre"
proof (induction acc calls rule: poll_loop.induct)
  case (2 packets d addr calls)
  then obtain ps rest pre where
    "poll_loop (packets @ [(take recv_buffer_size d, addr)]) calls =
      Some (Inr ((packets @ [(take recv_buffer_size d, addr)]) @ ps), rest)"
    "calls = pre @ WouldBlock # rest" "WouldBlock \<notin> set pre" "ps = received_packets pre"
    by auto
  then show ?case
    by (intro exI [of _ "(take recv_buffer_size d, addr) # ps"] exI [of _ rest]
        exI [of _ "Received d addr # pre"]) simp
next
  case (3 packets calls)
  then show ?case by (intro exI [of _ "[]"] exI [of _ calls]) simp
qed auto

lemma received_packets_append:
  "received_packets (a @ b) = received_packets a @ received_packets b"
  by (induction a rule: received_packets.induct) auto

interpretation tokio: network_reactor tokio_poll_packets "tokio_send_packet send_to"
  tokio_healthy tokio_rounds tokio_arrivals for send_to
proof
  fix r :: tokio_reactor
  assume h: "tokio_healthy r"
  show "tokio_arrivals r = []" if "tokio_rounds r = 0"
  proof -
    have "so_recv r = []"
      using h that last_in_set [of "so_recv r"]
      by (cases "so_recv r = []") (auto simp: tokio_healthy_def tokio_rounds_def filter_empty_conv)
    then show ?thesis by (simp add: tokio_arrivals_def)
  qed
  assume "0 < tokio_rounds r"
  then have "WouldBlock \<in> set (so_recv r)"
    by (auto simp: tokio_rounds_def filter_empty_conv)
  then obtain ps rest pre where p: "poll_loop [] (so_recv r) = Some (Inr ps, rest)"
    "so_recv r = pre @ WouldBlock # rest" "WouldBlock \<notin> set pre" "ps = received_packets pre"
    using poll_loop_healthy [of "so_recv r" "[]"] h by (auto simp: tokio_healthy_def)
  have "tokio_healthy (r\<lparr>so_recv := rest\<rparr>)"
    using h p(2) by (auto simp: tokio_healthy_def split: if_splits)
  moreover have "tokio_rounds r = Suc (tokio_rounds (r\<lparr>so_recv := rest\<rparr>))"
    using p(2,3) by (auto simp: tokio_rounds_def filter_empty_conv)
  moreover have "tokio_arrivals r = ps @ tokio_arrivals (r\<lparr>so_recv := rest\<rparr>)"
    using p by (simp add: tokio_arrivals_def received_packets_append)
  ultimately show "\<exists>ps r'. tokio_poll_packets r = Some (Inr ps, r') \<and> tokio_healthy r' \<and>
      tokio_rounds r = Suc (tokio_rounds r') \<and> tokio_arrivals r = ps @ tokio_arrivals r'"
    using p(1) by (intro exI conjI) (auto simp: tokio_poll_packets_def)
next
  fix d a and r r' :: tokio_reactor and res
  assume "tokio_send_packet send_to d a r = (res, r')"
  then show "tokio_healthy r' = tokio_healthy r \<and> tokio_rounds r' = tokio_rounds r \<and>
      tokio_arrivals r' = tokio_arrivals r"
    by (auto simp: tokio_send_packet_def tokio_healthy_def tokio_rounds_def tokio_arrivals_def
        split: option.splits)
qed

text \<open>An error while polling loses the packets that were received before it in the same poll.\<close>

lemma poll_error_drops:
  assumes "\<forall>c \<in> set pre. \<exists>d a. c = Received d a"
  shows "poll_loop acc (pre @ RecvFailed e # calls) = Some (Inl (NetworkError e), calls)"
  using assms
proof (induction pre arbitrary: acc)
  case Nil
  then show ?case by simp
next
  case (Cons c pre)
  then obtain d a where "c = Received d a" by auto
  with Cons show ?case by simp
qed

section \<open>Properties\<close>

text \<open>
  C34: a transporter that is polled as often as its socket can answer, with sends in between, hands over
  every datagram that arrived exactly once and in order of arrival, cut to the receive buffer, when no
  receive call fails.
\<close>

theorem transporter_delivers_all:
  assumes "tokio_healthy (tp_reactor tp)" "length outs = tokio_rounds (tp_reactor tp)"
  shows "\<exists>pss tp'. tokio.poll_rounds send_to outs tp = Some (pss, tp') \<and>
    concat pss = tokio_arrivals (tp_reactor tp)"
  using tokio.poll_all [OF assms] .

theorem transporter_delivers_all_witness:
  "\<exists>pss tp'. tokio.poll_rounds (\<lambda>d a. None) [[([1], \<lparr>sa_ip = [50], sa_port = 9\<rparr>)], []]
      (transporter_new \<lparr>so_recv = [Received [7] \<lparr>sa_ip = [49], sa_port = 8\<rparr>, WouldBlock,
        Received [8] \<lparr>sa_ip = [49], sa_port = 8\<rparr>, WouldBlock], so_sent = []\<rparr> 128
        :: (world_state, tokio_reactor) transporter) = Some (pss, tp') \<and>
    concat pss = [([7], \<lparr>sa_ip = [49], sa_port = 8\<rparr>), ([8], \<lparr>sa_ip = [49], sa_port = 8\<rparr>)]"
proof -
  let ?tp = "transporter_new \<lparr>so_recv = [Received [7] \<lparr>sa_ip = [49], sa_port = 8\<rparr>, WouldBlock,
        Received [8] \<lparr>sa_ip = [49], sa_port = 8\<rparr>, WouldBlock], so_sent = []\<rparr> 128
        :: (world_state, tokio_reactor) transporter"
  have "tokio_healthy (tp_reactor ?tp)" "tokio_rounds (tp_reactor ?tp) = 2"
    "tokio_arrivals (tp_reactor ?tp) =
      [([7], \<lparr>sa_ip = [49], sa_port = 8\<rparr>), ([8], \<lparr>sa_ip = [49], sa_port = 8\<rparr>)]"
    by (simp_all add: transporter_new_def tokio_healthy_def tokio_rounds_def tokio_arrivals_def
        recv_buffer_size_def)
  then show ?thesis
    using transporter_delivers_all [of ?tp "[[([1], \<lparr>sa_ip = [50], sa_port = 9\<rparr>)], []]" "\<lambda>d a. None"]
    by simp
qed

text \<open>
  When a receive call fails in the middle of a poll, the poll is an error and the datagrams that
  were already taken from the socket in that poll are gone: the next poll starts behind the failure.
\<close>

theorem failed_poll_loses_packets:
  assumes "so_recv r = map (\<lambda>(d, a). Received d a) ps @ RecvFailed e # calls"
  shows "tokio_poll_packets r = Some (Inl (NetworkError e), r\<lparr>so_recv := calls\<rparr>)"
proof -
  have "poll_loop [] (so_recv r) = Some (Inl (NetworkError e), calls)"
    unfolding assms by (rule poll_error_drops) (auto split: prod.split)
  then show ?thesis by (simp add: tokio_poll_packets_def)
qed

theorem failed_poll_loses_packets_witness:
  "tokio_poll_packets \<lparr>so_recv = [Received [7] \<lparr>sa_ip = [49], sa_port = 8\<rparr>, RecvFailed ''reset'', WouldBlock],
      so_sent = []\<rparr> = Some (Inl (NetworkError ''reset''), \<lparr>so_recv = [WouldBlock], so_sent = []\<rparr>)"
  using failed_poll_loses_packets [of "\<lparr>so_recv = [Received [7] \<lparr>sa_ip = [49], sa_port = 8\<rparr>,
      RecvFailed ''reset'', WouldBlock], so_sent = []\<rparr>" "[([7], \<lparr>sa_ip = [49], sa_port = 8\<rparr>)]"
      "''reset''" "[WouldBlock]"] by simp

end
