(* ===== verification/History.thy ===== *)
theory History
  imports Rust_Prelude
begin

text \<open>
  The ring buffer of simulation frames: \<open>crates/protocol/src/history.rs\<close>. A frame is stored in
  the slot given by the low bits of its tick; a lookup returns the frame of a slot only when it is
  the frame of the tick asked for. The locale \<open>frame_store\<close> is what the client's rollback
  relies on; the ring buffer is its interpretation.
\<close>

section \<open>The buffer\<close>

record ('t, 'i) frame_record =
  fr_tick :: u64
  fr_state :: 't
  fr_state_hash :: u64
  fr_input :: 'i

record ('t, 'i) history_buffer =
  hb_buffer :: "('t, 'i) frame_record option list"
  hb_mask :: usize

text \<open>\<open>usize::is_power_of_two\<close>\<close>

definition is_power_of_two :: "usize \<Rightarrow> bool" where
  "is_power_of_two c \<longleftrightarrow> list_ex (\<lambda>k. c = 2 ^ k) [0..<64]"

text \<open>\<open>assert!\<close> panics when the capacity is no power of two.\<close>

definition history_new :: "usize \<Rightarrow> ('t, 'i) history_buffer option" where
  "history_new capacity =
     (if is_power_of_two capacity
      then Some \<lparr>hb_buffer = replicate (unat capacity) None, hb_mask = capacity - 1\<rparr>
      else None)"

definition history_index :: "('t, 'i) history_buffer \<Rightarrow> u64 \<Rightarrow> nat" where
  "history_index h tick = unat (tick AND hb_mask h)"

text \<open>Indexing the vector panics out of range.\<close>

definition history_insert ::
  "('t, 'i) frame_record \<Rightarrow> ('t, 'i) history_buffer \<Rightarrow> ('t, 'i) history_buffer option" where
  "history_insert r h =
     (let index = history_index h (fr_tick r) in
      if index < length (hb_buffer h)
      then Some (h\<lparr>hb_buffer := (hb_buffer h)[index := Some r]\<rparr>)
      else None)"

definition history_get ::
  "('t, 'i) history_buffer \<Rightarrow> u64 \<Rightarrow> ('t, 'i) frame_record option option" where
  "history_get h tick =
     (let index = history_index h tick in
      if index < length (hb_buffer h)
      then Some (case hb_buffer h ! index of
                   None \<Rightarrow> None
                 | Some r \<Rightarrow> if fr_tick r = tick then Some r else None)
      else None)"

section \<open>The invariant\<close>

definition history_ok :: "nat \<Rightarrow> ('t, 'i) history_buffer \<Rightarrow> bool" where
  "history_ok k h \<longleftrightarrow> k < 64 \<and> length (hb_buffer h) = 2 ^ k \<and> hb_mask h = 2 ^ k - 1"

lemma history_index_mod:
  assumes "history_ok k h"
  shows "history_index h t = unat t mod 2 ^ k"
proof -
  have "t AND hb_mask h = take_bit k t"
    using assms by (simp add: history_ok_def take_bit_eq_mask mask_eq_exp_minus_1)
  then show ?thesis
    by (simp add: history_index_def unsigned_take_bit_eq flip: take_bit_eq_mod)
qed

lemma history_index_bound: "history_ok k h \<Longrightarrow> history_index h t < length (hb_buffer h)"
  by (simp add: history_index_mod) (simp add: history_ok_def)

lemma is_power_of_two_iff: "is_power_of_two c \<longleftrightarrow> (\<exists>k<64. c = 2 ^ k)"
  by (auto simp: is_power_of_two_def list_ex_iff)

lemma history_new_ok:
  "is_power_of_two c \<Longrightarrow>
    \<exists>k h. c = 2 ^ k \<and> k < 64 \<and> history_new c = Some h \<and> history_ok k h \<and>
      hb_buffer h = replicate (2 ^ k) None"
  by (auto simp: is_power_of_two_iff history_new_def history_ok_def unat_exp)

lemma history_get_total: "history_ok k h \<Longrightarrow> \<exists>r. history_get h t = Some r"
  by (simp add: history_get_def Let_def history_index_bound)

lemma history_insert_total:
  "history_ok k h \<Longrightarrow> \<exists>h'. history_insert r h = Some h' \<and> history_ok k h'"
  by (simp add: history_insert_def Let_def history_index_bound) (simp add: history_ok_def)

lemma history_insert_ok: "history_ok k h \<Longrightarrow> history_insert r h = Some h' \<Longrightarrow> history_ok k h'"
  by (auto simp: history_insert_def Let_def history_ok_def split: if_splits)

lemma history_get_insert:
  assumes ok: "history_ok k h" and ins: "history_insert r h = Some h'"
  shows "history_get h' t =
    (if unat t mod 2 ^ k = unat (fr_tick r) mod 2 ^ k
     then Some (if t = fr_tick r then Some r else None)
     else history_get h t)"
proof -
  have ok': "history_ok k h'" using ok ins by (rule history_insert_ok)
  have h': "hb_buffer h' = (hb_buffer h)[unat (fr_tick r) mod 2 ^ k := Some r]"
    using ins by (auto simp: history_insert_def Let_def history_index_mod [OF ok] split: if_splits)
  have len: "length (hb_buffer h) = 2 ^ k" using ok by (simp add: history_ok_def)
  show ?thesis
    unfolding history_get_def Let_def history_index_mod [OF ok] history_index_mod [OF ok'] h'
    by (auto simp: len)
qed

lemma history_get_tick: "history_get h t = Some (Some r) \<Longrightarrow> fr_tick r = t"
  by (auto simp: history_get_def Let_def split: if_splits option.splits)

section \<open>The contract of a frame store\<close>

locale frame_store =
  fixes insert_frame :: "('t, 'i) frame_record \<Rightarrow> 'h \<Rightarrow> 'h option"
    and get_frame :: "'h \<Rightarrow> u64 \<Rightarrow> ('t, 'i) frame_record option option"
    and invar :: "'h \<Rightarrow> bool"
    and slot :: "u64 \<Rightarrow> nat"
  assumes insert_total: "invar h \<Longrightarrow> \<exists>h'. insert_frame r h = Some h' \<and> invar h'"
    and get_total: "invar h \<Longrightarrow> \<exists>r. get_frame h t = Some r"
    and get_insert: "invar h \<Longrightarrow> insert_frame r h = Some h' \<Longrightarrow>
      get_frame h' t = (if slot t = slot (fr_tick r)
        then Some (if t = fr_tick r then Some r else None) else get_frame h t)"
    and get_tick: "get_frame h t = Some (Some r) \<Longrightarrow> fr_tick r = t"
begin

lemma insert_invar: "invar h \<Longrightarrow> insert_frame r h = Some h' \<Longrightarrow> invar h'"
  using insert_total [of h r] by auto

lemma inserts_total: "invar h \<Longrightarrow> \<exists>h'. for_each insert_frame rs h = Some h' \<and> invar h'"
  by (rule for_each_total) (auto intro: insert_total)

text \<open>After a run of insertions, a lookup sees the last frame that went to its slot.\<close>

lemma get_after_inserts:
  assumes "invar h" and "for_each insert_frame rs h = Some h'"
  shows "get_frame h' t =
    (case find (\<lambda>r. slot (fr_tick r) = slot t) (rev rs) of
       None \<Rightarrow> get_frame h t
     | Some r \<Rightarrow> Some (if fr_tick r = t then Some r else None))"
  using assms
proof (induction rs arbitrary: h' rule: rev_induct)
  case Nil
  then show ?case by simp
next
  case (snoc r rs)
  from snoc.prems(2) obtain g where g: "for_each insert_frame rs h = Some g"
    and ins: "insert_frame r g = Some h'"
    by (auto simp: for_each_append split: option.splits)
  have "invar g"
    using inserts_total [OF snoc.prems(1), of rs] g by auto
  with snoc.IH [OF snoc.prems(1) g] get_insert [OF _ ins, of t] show ?case
    by (auto simp: eq_commute)
qed

text \<open>A frame stays readable until another frame with its slot is stored.\<close>

lemma get_retained:
  assumes "invar h" and "for_each insert_frame (rs @ r # qs) h = Some h'"
    and "\<forall>q \<in> set qs. slot (fr_tick q) \<noteq> slot (fr_tick r)"
  shows "get_frame h' (fr_tick r) = Some (Some r)"
proof -
  have "find (\<lambda>q. slot (fr_tick q) = slot (fr_tick r)) (rev qs) = None"
    using assms(3) by (auto simp: find_None_iff)
  then have "find (\<lambda>q. slot (fr_tick q) = slot (fr_tick r)) (rev (rs @ r # qs)) = Some r"
    by (simp add: find_append)
  with get_after_inserts [OF assms(1,2), of "fr_tick r"] show ?thesis by simp
qed

end

interpretation ring: frame_store history_insert history_get "history_ok k"
  "\<lambda>t. unat t mod 2 ^ k" for k
  by unfold_locales
    (auto simp: history_insert_total history_get_total history_get_insert dest: history_get_tick)

section \<open>Properties\<close>

text \<open>
  C31: after the frames of consecutive ticks were stored in a fresh buffer of capacity \<open>c\<close>, a lookup
  finds exactly the frames of the last \<open>c\<close> of these ticks and nothing for the older ones.
\<close>

theorem history_window:
  assumes "history_new c = Some h" "for_each history_insert rs h = Some h'"
    and ticks: "\<forall>j < length rs. fr_tick (rs ! j) = t + of_nat j"
    and range: "unat t + length rs \<le> 2 ^ 64" and i: "i < length rs"
  shows "history_get h' (t + of_nat i) =
    Some (if length rs \<le> i + unat c then Some (rs ! i) else None)"
proof -
  obtain k where k: "c = 2 ^ k" "k < 64" "history_ok k h"
    using history_new_ok [of c] assms(1) by (auto simp: history_new_def split: if_splits)
  have cap: "unat c = 2 ^ k" using k by (simp add: unat_exp)
  have un: "unat (t + of_nat j :: u64) = unat t + j" if "j < length rs" for j
  proof -
    have "unat (of_nat j :: u64) = j"
      using that range by (simp add: unat_of_nat take_bit_nat_eq_self)
    then show ?thesis using that range by (simp add: unat_add_no_wrap)
  qed
  let ?slot = "\<lambda>u :: u64. unat u mod 2 ^ k"
  have rs: "rs = take i rs @ rs ! i # drop (Suc i) rs" using i by (rule id_take_nth_drop)
  show ?thesis
  proof (cases "length rs \<le> i + unat c")
    case True
    have "?slot (fr_tick q) \<noteq> ?slot (fr_tick (rs ! i))" if "q \<in> set (drop (Suc i) rs)" for q
    proof -
      obtain d where d: "q = rs ! (Suc i + d)" "Suc i + d < length rs"
        using \<open>q \<in> _\<close> by (auto simp: in_set_conv_nth)
      then have "Suc d < 2 ^ k" using True cap by simp
      then have "\<not> 2 ^ k dvd Suc d" using dvd_imp_le by fastforce
      moreover have "fr_tick q = t + of_nat (Suc i + d)" "fr_tick (rs ! i) = t + of_nat i"
        using d i ticks by blast+
      ultimately show ?thesis
        using un [OF d(2)] un [OF i] mod_eq_dvd_iff_nat [of "unat t + i" "unat t + (Suc i + d)" "2 ^ k"]
        by (auto simp del: of_nat_add of_nat_Suc)
    qed
    then have "history_get h' (fr_tick (rs ! i)) = Some (Some (rs ! i))"
      using ring.get_retained [OF k(3), of "take i rs" "rs ! i" "drop (Suc i) rs" h'] assms(2) rs
      by metis
    then show ?thesis using True ticks i by simp
  next
    case False
    let ?P = "\<lambda>r. ?slot (fr_tick r) = ?slot (t + of_nat i)"
    have late: "i + 2 ^ k < length rs" using False cap by simp
    then have "?P (rs ! (i + 2 ^ k))" using ticks un [of "i + 2 ^ k"] un [OF i]
      by (simp add: add.assoc [symmetric] del: of_nat_add)
    moreover have "rs ! (i + 2 ^ k) \<in> set (rev (drop (Suc i) rs))"
    proof -
      obtain n where n: "2 ^ k = Suc n" by (cases "2 ^ k :: nat") auto
      have "n < length (drop (Suc i) rs)" using late by (simp add: n)
      then have "drop (Suc i) rs ! n \<in> set (drop (Suc i) rs)" by (rule nth_mem)
      moreover have "drop (Suc i) rs ! n = rs ! (i + 2 ^ k)" using late by (simp add: n)
      ultimately show ?thesis by simp
    qed
    ultimately obtain q where q: "q \<in> set (drop (Suc i) rs)" "find ?P (rev (drop (Suc i) rs)) = Some q"
      using find_member [of "rs ! (i + 2 ^ k)" "rev (drop (Suc i) rs)" ?P] by auto
    then have "find ?P (rev rs) = Some q"
      using find_append [of ?P "rev (drop (Suc i) rs)" "rev (take (Suc i) rs)"]
      by (simp flip: rev_append)
    moreover obtain d where "q = rs ! (Suc i + d)" "Suc i + d < length rs"
      using q(1) by (auto simp: in_set_conv_nth)
    then have "unat (fr_tick q) \<noteq> unat (t + of_nat i)"
      using ticks un [of "Suc i + d"] un [OF i] by (simp del: of_nat_add of_nat_Suc)
    then have "fr_tick q \<noteq> t + of_nat i" by auto
    ultimately show ?thesis
      using ring.get_after_inserts [OF k(3) assms(2), of "t + of_nat i"] False by simp
  qed
qed

theorem history_window_witness:
  "\<exists>h h' :: (string, nat) history_buffer. history_new 2 = Some h \<and>
    for_each history_insert
      [\<lparr>fr_tick = 7, fr_state = ''a'', fr_state_hash = 0, fr_input = 1 :: nat\<rparr>,
       \<lparr>fr_tick = 8, fr_state = ''b'', fr_state_hash = 0, fr_input = 2\<rparr>,
       \<lparr>fr_tick = 9, fr_state = ''c'', fr_state_hash = 0, fr_input = 3\<rparr>] h = Some h' \<and>
    history_get h' (7 + of_nat 0) = Some None"
proof -
  let ?rs = "[\<lparr>fr_tick = 7, fr_state = ''a'', fr_state_hash = 0, fr_input = 1 :: nat\<rparr>,
       \<lparr>fr_tick = 8, fr_state = ''b'', fr_state_hash = 0, fr_input = 2\<rparr>,
       \<lparr>fr_tick = 9, fr_state = ''c'', fr_state_hash = 0, fr_input = 3\<rparr>]"
  have "is_power_of_two 2" unfolding is_power_of_two_iff by (intro exI [of _ 1]) simp
  then obtain k and h :: "(string, nat) history_buffer"
    where h: "history_new 2 = Some h" "history_ok k h"
    using history_new_ok by blast
  then obtain h' where h': "for_each history_insert ?rs h = Some h'"
    using ring.inserts_total by blast
  have "history_get h' (7 + of_nat 0) = Some (if length ?rs \<le> 0 + unat (2 :: u64) then Some (?rs ! 0) else None)"
    by (rule history_window [OF h(1) h'])
      (auto simp: less_Suc_eq nth_Cons')
  with h h' show ?thesis by auto
qed

end
