(* ===== verification/Client_World.thy ===== *)
theory Client_World
  imports World
begin

text \<open>
  The \<open>WorldState\<close> of \<open>bin/client.rs\<close>. The two binaries share no code for it: each repeats the
  struct and its methods. The client can only predict the server when both copies compute the same
  worlds and hashes, which is what this theory shows; everything else about the world is in \<open>World\<close>.
\<close>

definition client_calculate_hash :: "hasher \<Rightarrow> world_state \<Rightarrow> u64" where
  "client_calculate_hash hash w =
     hash (concat (map (\<lambda>pos. to_le_bytes 4 (vx pos) @ to_le_bytes 4 (vy pos) @ to_le_bytes 4 (vz pos))
       (positions w)))"

definition client_step_physics :: "profile \<Rightarrow> u32 \<Rightarrow> world_state \<Rightarrow> world_state option" where
  "client_step_physics p input w =
     (if input AND 0x01 \<noteq> 0 then do {
        pos \<leftarrow> (case positions w of [] \<Rightarrow> None | pos # _ \<Rightarrow> Some pos);
        x \<leftarrow> add_s p (vx pos) 10;
        Some (w\<lparr>positions := (positions w)[0 := pos\<lparr>vx := x\<rparr>]\<rparr>)
      }
      else Some w)"

fun client_lerp_loop ::
  "profile \<Rightarrow> f32 \<Rightarrow> (fixed_vec3 \<times> fixed_vec3) list \<Rightarrow> fixed_vec3 list \<Rightarrow> fixed_vec3 list option" where
  "client_lerp_loop p factor [] new_pos = Some new_pos"
| "client_lerp_loop p factor ((a, b) # pairs) new_pos = do {
     dx \<leftarrow> sub_s p (vx b) (vx a);
     x \<leftarrow> add_s p (vx a) (f32_to_i32 (f32_round_int (f32_of_int (sint dx) * factor)));
     dy \<leftarrow> sub_s p (vy b) (vy a);
     y \<leftarrow> add_s p (vy a) (f32_to_i32 (f32_round_int (f32_of_int (sint dy) * factor)));
     dz \<leftarrow> sub_s p (vz b) (vz a);
     z \<leftarrow> add_s p (vz a) (f32_to_i32 (f32_round_int (f32_of_int (sint dz) * factor)));
     client_lerp_loop p factor pairs (new_pos @ [\<lparr>vx = x, vy = y, vz = z\<rparr>])
   }"

definition client_lerp :: "profile \<Rightarrow> world_state \<Rightarrow> world_state \<Rightarrow> f32 \<Rightarrow> world_state option" where
  "client_lerp p a b factor = do {
     new_pos \<leftarrow> client_lerp_loop p factor (zip (positions a) (positions b)) [];
     Some \<lparr>positions = new_pos\<rparr>
   }"

section \<open>Agreement with the server\<close>

lemma client_calculate_hash_eq [simp]: "client_calculate_hash = calculate_hash"
  by (simp add: fun_eq_iff client_calculate_hash_def calculate_hash_def vec_bytes_def [abs_def])

lemma client_step_physics_eq [simp]: "client_step_physics = step_physics"
  by (simp add: fun_eq_iff client_step_physics_def step_physics_def split: list.split)

lemma client_lerp_loop_eq:
  "client_lerp_loop p factor pairs acc = map_option ((@) acc) (lerp_positions p pairs factor)"
proof (induction pairs arbitrary: acc)
  case (Cons ab pairs)
  obtain a b where "ab = (a, b)" by (cases ab)
  with Cons.IH show ?case
    by (auto simp: lerp_vec_def lerp_coord_def map_option_case split: Option.bind_split option.split)
qed simp

lemma client_lerp_eq [simp]: "client_lerp = world_lerp"
  by (simp add: fun_eq_iff client_lerp_def world_lerp_def client_lerp_loop_eq bind_map_option comp_def)

end
