(* ===== verification/Client.thy ===== *)
theory Client
  imports Delivery Transport History Client_World
begin

text \<open>
  The loops of \<open>bin/client.rs\<close>: one call of \<open>sync_step\<close> is one iteration of the loop that waits
  for the first snapshot, one call of \<open>client_tick\<close> one iteration of the main loop, in which the
  client reconciles its prediction with the server's snapshots, decides how many steps to predict
  and sends its inputs. Clock readings, poll results and hash map orders are in a record. Logging and
  the idle thread pool are left out.
\<close>

section \<open>State\<close>

record client =
  cl_manager :: manager
  cl_world :: world_state
  cl_history :: "(world_state, u32) history_buffer"
  cl_dispatch :: "u64 \<rightharpoonup> instant"
  cl_predicted_tick :: u64
  cl_last_server_tick :: u64
  cl_rollbacks :: u32
  cl_rtt_ms :: u128
  cl_last_seen_packet :: instant
  cl_last_ema :: u128
  cl_interpolator :: "world_state interpolator"

definition client_new :: "instant \<Rightarrow> client option" where
  "client_new now = do {
     history \<leftarrow> history_new 128;
     Some \<lparr>cl_manager = manager_new, cl_world = \<lparr>positions = [\<lparr>vx = 0, vy = 0, vz = 0\<rparr>]\<rparr>,
           cl_history = history, cl_dispatch = Map.empty, cl_predicted_tick = 0,
           cl_last_server_tick = 0, cl_rollbacks = 0, cl_rtt_ms = 0, cl_last_seen_packet = now,
           cl_last_ema = 0, cl_interpolator = interpolator_new 128\<rparr>
   }"

lemma client_history_new:
  "history_new 128 = Some \<lparr>hb_buffer = replicate 128 None, hb_mask = 127\<rparr>"
  "history_ok 7 \<lparr>hb_buffer = replicate 128 None, hb_mask = 127\<rparr>"
proof -
  have "is_power_of_two 128"
    unfolding is_power_of_two_iff by (intro exI [of _ 7]) simp
  then show "history_new 128 = Some \<lparr>hb_buffer = replicate 128 None, hb_mask = 127\<rparr>"
    by (simp add: history_new_def)
  show "history_ok 7 \<lparr>hb_buffer = replicate 128 None, hb_mask = 127\<rparr>"
    by (simp add: history_ok_def)
qed

record client_env =
  ce_poll :: "rift_error + packet list"
  ce_clock :: "nat \<Rightarrow> clock_readings"
  ce_packet_now :: "nat \<Rightarrow> instant"
  ce_poll_now :: instant
  ce_check_now :: instant
  ce_send_now :: instant
  ce_step_now :: "nat \<Rightarrow> instant"
  ce_flush_now :: instant
  ce_seen_now :: instant
  ce_flush_order :: "sock_addr list"

section \<open>Snapshots\<close>

text \<open>The slice of the header panics on a snapshot packet that is too short.\<close>

definition snapshot_of :: "bytes \<Rightarrow> snapshot_header option option" where
  "snapshot_of app_data =
     (case general_packet_header_read app_data of
        None \<Rightarrow> Some None
      | Some gen_hdr \<Rightarrow>
          if gh_packet_type gen_hdr = packet_type_code Snapshot then do {
            let gen_size = general_packet_header_size;
            hdr \<leftarrow> slice gen_size (gen_size + snapshot_header_size) app_data;
            Some (snapshot_header_read hdr)
          }
          else Some None)"

definition read_position :: "bytes \<Rightarrow> fixed_vec3 option" where
  "read_position app_data = do {
     let state_offset = general_packet_header_size + snapshot_header_size;
     x \<leftarrow> slice state_offset (state_offset + 4) app_data;
     y \<leftarrow> slice (state_offset + 4) (state_offset + 8) app_data;
     z \<leftarrow> slice (state_offset + 8) (state_offset + 12) app_data;
     Some \<lparr>vx = from_le_bytes x, vy = from_le_bytes y, vz = from_le_bytes z\<rparr>
   }"

definition input_message :: "u64 \<Rightarrow> u32 \<Rightarrow> bytes" where
  "input_message tick bitmask =
     general_packet_header_as_bytes \<lparr>gh_packet_type = packet_type_code Input\<rparr> @
     input_packet_as_bytes \<lparr>ip_tick = tick, ip_input_bitmask = bitmask\<rparr>"

lemma input_message_length: "length (input_message t b) = 13"
  by (simp add: input_message_def general_packet_header_as_bytes_def input_packet_as_bytes_def)

section \<open>The synchronisation loop\<close>

definition sync_app_data :: "profile \<Rightarrow> bytes \<Rightarrow> client \<times> bool \<Rightarrow> (client \<times> bool) option" where
  "sync_app_data p app_data cs = do {
     hdr \<leftarrow> snapshot_of app_data;
     (case hdr of
        None \<Rightarrow> Some cs
      | Some snap \<Rightarrow> do {
          new_pos \<leftarrow> read_position app_data;
          predicted \<leftarrow> add_u p (sh_tick snap) 3;
          let world = \<lparr>positions = [new_pos]\<rparr>;
          Some ((fst cs)\<lparr>cl_world := world, cl_last_server_tick := sh_tick snap,
                  cl_predicted_tick := predicted,
                  cl_interpolator := push_snapshot \<lparr>sn_tick = sh_tick snap, sn_state = world\<rparr>
                    (cl_interpolator (fst cs))\<rparr>, True)
        })
   }"

fun sync_packets ::
  "profile \<Rightarrow> libs \<Rightarrow> (nat \<Rightarrow> clock_readings) \<Rightarrow> nat \<Rightarrow> packet list \<Rightarrow> client \<times> bool
    \<Rightarrow> (client \<times> bool) option" where
  "sync_packets p L clock i [] cs = Some cs"
| "sync_packets p L clock i ((packet, sender) # packets) cs = do {
     (m, r) \<leftarrow> handle_packet p L (clock i) sender packet (cl_manager (fst cs));
     let cs1 = ((fst cs)\<lparr>cl_manager := m\<rparr>, snd cs);
     cs2 \<leftarrow> (case r of None \<Rightarrow> Some cs1 | Some app_data \<Rightarrow> sync_app_data p app_data cs1);
     sync_packets p L clock (Suc i) packets cs2
   }"

definition sync_timeout :: duration where
  "sync_timeout = 10 ^ 9"

definition sync_step ::
  "profile \<Rightarrow> libs \<Rightarrow> sock_addr \<Rightarrow> client_env \<Rightarrow> client \<Rightarrow> (client \<times> bool \<times> packet list) option" where
  "sync_step p L server_addr env c = do {
     (c1, synced) \<leftarrow> (case ce_poll env of
         Inr packets \<Rightarrow>
           sync_packets p L (ce_clock env) 0 packets
             (if packets \<noteq> [] then c\<lparr>cl_last_seen_packet := ce_poll_now env\<rparr> else c, False)
       | Inl e \<Rightarrow> Some (c, False));
     (if \<not> synced \<and> sync_timeout < duration_since (ce_check_now env) (cl_last_seen_packet c1)
      then do {
        m \<leftarrow> send_to_client p (ce_send_now env) (ce_send_now env) server_addr
               (input_message 0 0) True False (cl_manager c1);
        (m1, out) \<leftarrow> flush_all p L (ce_flush_now env) (ce_flush_order env) m;
        Some (c1\<lparr>cl_manager := m1, cl_last_seen_packet := ce_seen_now env\<rparr>, False, out)
      }
      else Some (c1, synced, []))
   }"

section \<open>Reconciliation\<close>

definition frame_of :: "hasher \<Rightarrow> u64 \<Rightarrow> world_state \<Rightarrow> (world_state, u32) frame_record" where
  "frame_of hash tick w =
     \<lparr>fr_tick = tick, fr_state = w, fr_state_hash = client_calculate_hash hash w, fr_input = 0x01\<rparr>"

text \<open>One round of the \<open>while\<close> loop of a rollback, for the tick already advanced.\<close>

definition replay_frame ::
  "profile \<Rightarrow> hasher \<Rightarrow> u64 \<Rightarrow> world_state \<times> (world_state, u32) history_buffer
    \<Rightarrow> (world_state \<times> (world_state, u32) history_buffer) option" where
  "replay_frame p hash tick wh = do {
     local \<leftarrow> history_get (snd wh) tick;
     w \<leftarrow> client_step_physics p (case local of None \<Rightarrow> 0 | Some r \<Rightarrow> fr_input r) (fst wh);
     h \<leftarrow> history_insert (frame_of hash tick w) (snd wh);
     Some (w, h)
   }"

function replay ::
  "profile \<Rightarrow> hasher \<Rightarrow> u64 \<Rightarrow> u64 \<Rightarrow> world_state \<times> (world_state, u32) history_buffer
    \<Rightarrow> (u64 \<times> world_state \<times> (world_state, u32) history_buffer) option" where
  "replay p hash limit predicted wh =
     (if predicted < limit then
        (case replay_frame p hash (predicted + 1) wh of
           None \<Rightarrow> None
         | Some wh1 \<Rightarrow> replay p hash limit (predicted + 1) wh1)
      else Some (predicted, wh))"
  by pat_completeness auto

termination
proof (relation "measure (\<lambda>(p, hash, limit, predicted, wh). unat limit - unat predicted)")
  fix p hash wh wh1 and limit predicted :: u64
  assume lt: "predicted < limit"
  with lt show "((p, hash, limit, predicted + 1, wh1), p, hash, limit, predicted, wh)
      \<in> measure (\<lambda>(p, hash, limit, predicted, wh). unat limit - unat predicted)"
    by (simp add: unat_Suc_below word_less_nat_alt)
qed auto

declare replay.simps [simp del]

definition rollback :: "profile \<Rightarrow> hasher \<Rightarrow> u64 \<Rightarrow> fixed_vec3 \<Rightarrow> client \<Rightarrow> client option" where
  "rollback p hash snap_tick new_pos c = do {
     n \<leftarrow> add_u p (cl_rollbacks c) 1;
     limit \<leftarrow> add_u p snap_tick 3;
     (predicted, w, h) \<leftarrow> replay p hash limit snap_tick (\<lparr>positions = [new_pos]\<rparr>, cl_history c);
     Some (c\<lparr>cl_rollbacks := n, cl_world := w, cl_history := h, cl_predicted_tick := predicted\<rparr>)
   }"

definition as_millis :: "duration \<Rightarrow> u128" where
  "as_millis d = word_of_int (d div 10 ^ 6)"

definition note_rtt :: "instant \<Rightarrow> u64 \<Rightarrow> client \<Rightarrow> client" where
  "note_rtt now last_input_tick c =
     (case cl_dispatch c last_input_tick of
        None \<Rightarrow> c
      | Some sent_time \<Rightarrow>
          c\<lparr>cl_dispatch := (cl_dispatch c)(last_input_tick := None),
            cl_rtt_ms := as_millis (duration_since now sent_time)\<rparr>)"

definition reconcile ::
  "profile \<Rightarrow> hasher \<Rightarrow> instant \<Rightarrow> bytes \<Rightarrow> client \<Rightarrow> client option" where
  "reconcile p hash now app_data c = do {
     hdr \<leftarrow> snapshot_of app_data;
     (case hdr of
        None \<Rightarrow> Some c
      | Some snap \<Rightarrow> do {
          let c1 = note_rtt now (sh_last_input_tick snap) (c\<lparr>cl_last_server_tick := sh_tick snap\<rparr>);
          new_pos \<leftarrow> read_position app_data;
          let c2 = c1\<lparr>cl_interpolator :=
            push_snapshot \<lparr>sn_tick = sh_tick snap, sn_state = \<lparr>positions = [new_pos]\<rparr>\<rparr>
              (cl_interpolator c1)\<rparr>;
          local \<leftarrow> history_get (cl_history c2) (sh_tick snap);
          (case local of
             None \<Rightarrow> Some c2
           | Some r \<Rightarrow>
               if fr_state_hash r \<noteq> sh_state_hash snap
               then rollback p hash (sh_tick snap) new_pos c2
               else Some c2)
        })
   }"

fun reconcile_packets ::
  "profile \<Rightarrow> libs \<Rightarrow> hasher \<Rightarrow> client_env \<Rightarrow> nat \<Rightarrow> packet list \<Rightarrow> client \<Rightarrow> client option" where
  "reconcile_packets p L hash env i [] c = Some c"
| "reconcile_packets p L hash env i ((packet, sender) # packets) c = do {
     (m, r) \<leftarrow> handle_packet p L (ce_clock env i) sender packet (cl_manager c);
     let c1 = c\<lparr>cl_manager := m\<rparr>;
     c2 \<leftarrow> (case r of
         None \<Rightarrow> Some c1
       | Some app_data \<Rightarrow> reconcile p hash (ce_packet_now env i) app_data c1);
     reconcile_packets p L hash env (Suc i) packets c2
   }"

section \<open>Prediction\<close>

definition target_tick :: "profile \<Rightarrow> u64 \<Rightarrow> u128 \<Rightarrow> u64 option" where
  "target_tick p last_server_tick rtt_ms = do {
     let ping_ticks = ucast (rtt_ms div 2) div 16;
     t \<leftarrow> add_u p last_server_tick ping_ticks;
     add_u p t 3
   }"

definition steps_this_loop :: "profile \<Rightarrow> u64 \<Rightarrow> u64 \<Rightarrow> nat option" where
  "steps_this_loop p predicted target =
     (if predicted < target then Some 2
      else do {
        limit \<leftarrow> add_u p target 2;
        Some (if limit < predicted then 0 else 1)
      })"

definition predict_step ::
  "profile \<Rightarrow> hasher \<Rightarrow> sock_addr \<Rightarrow> client_env \<Rightarrow> nat \<Rightarrow> client \<Rightarrow> client option" where
  "predict_step p hash server_addr env i c = do {
     tick \<leftarrow> add_u p (cl_predicted_tick c) 1;
     w \<leftarrow> client_step_physics p 0x01 (cl_world c);
     h \<leftarrow> history_insert (frame_of hash tick w) (cl_history c);
     m \<leftarrow> send_to_client p (ce_send_now env) (ce_send_now env) server_addr
            (input_message tick 0x01) False False (cl_manager c);
     Some (c\<lparr>cl_predicted_tick := tick, cl_world := w, cl_history := h, cl_manager := m,
             cl_dispatch := (cl_dispatch c)(tick \<mapsto> ce_step_now env i)\<rparr>)
   }"

definition prune_dispatch :: "client \<Rightarrow> client" where
  "prune_dispatch c =
     (if 128 < card (dom (cl_dispatch c))
      then c\<lparr>cl_dispatch := map_retain (\<lambda>k _. cl_last_server_tick c \<le> k) (cl_dispatch c)\<rparr>
      else c)"

text \<open>The telemetry pulse updates the averaged round trip and resets the rollback counter.\<close>

definition telemetry :: "nat \<Rightarrow> client \<Rightarrow> client" where
  "telemetry steps c =
     (if 0 < steps \<and> cl_predicted_tick c mod 60 = 0 then
        (if 0 < cl_rtt_ms c
         then c\<lparr>cl_last_ema :=
               f32_to_u128 (f32_of_int (uint (cl_rtt_ms c)) * f32_lit (1 / 10) +
                 f32_of_int (uint (cl_last_ema c)) * f32_lit (9 / 10)),
                cl_rollbacks := 0\<rparr>
         else c\<lparr>cl_rollbacks := 0\<rparr>)
      else c)"

definition client_tick ::
  "profile \<Rightarrow> libs \<Rightarrow> hasher \<Rightarrow> sock_addr \<Rightarrow> client_env \<Rightarrow> client \<Rightarrow> (client \<times> packet list) option" where
  "client_tick p L hash server_addr env c = do {
     c1 \<leftarrow> (case ce_poll env of
         Inr packets \<Rightarrow> reconcile_packets p L hash env 0 packets c
       | Inl e \<Rightarrow> Some c);
     target \<leftarrow> target_tick p (cl_last_server_tick c1) (cl_rtt_ms c1);
     steps \<leftarrow> steps_this_loop p (cl_predicted_tick c1) target;
     c2 \<leftarrow> for_each (predict_step p hash server_addr env) [0..<steps] c1;
     let c3 = prune_dispatch c2;
     (m, out) \<leftarrow> flush_all p L (ce_flush_now env) (ce_flush_order env) (cl_manager c3);
     Some (telemetry steps (c3\<lparr>cl_manager := m\<rparr>), out)
   }"

end
