(* ===== verification/Conn_Invariant.thy ===== *)
theory Conn_Invariant
  imports Delivery
begin

text \<open>
  Invariants of single connections, lifted to the manager of \<open>crates/connection/src/manager.rs\<close>.
  The locale \<open>connection_invariant\<close> asks of a property of connections what the operations of
  \<open>crates/connection/src/connection.rs\<close> do to it; every operation of the manager then keeps it for
  all connections, and everything that a flush sends has the property that goes with it.
\<close>

definition all_connections :: "(connection \<Rightarrow> bool) \<Rightarrow> manager \<Rightarrow> bool" where
  "all_connections ok m \<longleftrightarrow> (\<forall>a c. m a = Some c \<longrightarrow> ok c)"

lemma all_connections_simps [simp]:
  "all_connections ok manager_new"
  "all_connections ok m \<Longrightarrow> all_connections ok (m(a \<mapsto> c)) \<longleftrightarrow> ok c"
  "all_connections ok m \<Longrightarrow> all_connections ok (m(a := None))"
  by (auto simp: all_connections_def manager_new_def)

lemma all_connectionsD: "all_connections ok m \<Longrightarrow> m a = Some c \<Longrightarrow> ok c"
  by (auto simp: all_connections_def)

lemma receive_reliable_unacked:
  assumes "general_packet_header_read data = Some g" "gh_packet_type g = packet_type_code Reliable"
    and "receive_reliable p L now data c = Some (c', r)"
  shows "set (unacknowledged_packets (conn_state c')) \<subseteq> set (unacknowledged_packets (conn_state c))"
  using receive_reliable_shape [OF assms] process_incoming_header_frame
  by (cases "c' = c") fastforce+

lemma queue_pending_send_cases:
  assumes "queue_pending_send p d r c = Some c'"
  obtains "c' = c" | n where "c' = c\<lparr>pending_queue := pending_queue c @ [\<lparr>ps_data = d, ps_reliable = r\<rparr>],
    pending_bytes := n\<rparr>"
  using assms by (auto simp: queue_pending_send_def Let_def bind_Some_conv split: if_splits)

section \<open>The contract\<close>

locale connection_invariant =
  fixes ok :: "connection \<Rightarrow> bool"
    and send :: "pending_send \<Rightarrow> bool"
    and wire :: "bytes \<Rightarrow> bool"
  assumes new: "ok (connection_new a srv pl t1 t2)"
    and kept: "ok c \<Longrightarrow> pending_queue c' = pending_queue c \<Longrightarrow>
      set (unacknowledged_packets (conn_state c')) \<subseteq> set (unacknowledged_packets (conn_state c)) \<Longrightarrow> ok c'"
    and queued: "ok c \<Longrightarrow> send ps \<Longrightarrow> pending_queue c' = pending_queue c @ [ps] \<Longrightarrow>
      conn_state c' = conn_state c \<Longrightarrow> ok c'"
    and reliable: "ps_reliable ps \<Longrightarrow> send ps"
    and updated: "ok c \<Longrightarrow> connection_update p L now c = Some (c', ws) \<Longrightarrow> ok c' \<and> list_all wire ws"
begin

lemma accept_keeps:
  assumes "all_connections ok m" "accept_sender p t addr m = Some c"
  shows "ok c"
proof (cases "m addr")
  case None
  have "ok (greeted t addr)"
    by (rule queued [OF new reliable]) (simp_all add: greeted_def Let_def)
  with assms(2) None show ?thesis by (simp add: accept_sender_new)
next
  case (Some c0)
  then have "c = c0\<lparr>last_seen := cr_last_seen t\<rparr>" using assms(2) by (simp add: accept_sender_known)
  then show ?thesis using kept [OF all_connectionsD [OF assms(1) Some], of c] by simp
qed

lemma handle_packet_keeps:
  assumes "all_connections ok m" "handle_packet p L t addr data m = Some (m', r)"
  shows "all_connections ok m'"
  using assms(2)
proof (cases rule: handle_packet_cases)
  case (rejected c)
  then show ?thesis using assms(1) accept_keeps by simp
next
  case (reliable c c1 g)
  have "ok c1"
    by (rule kept [OF accept_keeps [OF assms(1) reliable(1)] receive_reliable_ok(2) [OF reliable(3-5)]
      receive_reliable_unacked [OF reliable(3-5)]])
  with reliable(2) assms(1) show ?thesis by simp
next
  case (disconnect g)
  with assms(1) show ?thesis by simp
qed

lemma send_to_client_keeps:
  assumes "all_connections ok m" "send \<lparr>ps_data = d, ps_reliable = r\<rparr>"
    and "send_to_client p t1 t2 a d r srv m = Some m'"
  shows "all_connections ok m'"
proof -
  define c where "c = (case m a of Some c \<Rightarrow> c
    | None \<Rightarrow> connection_new a srv static_pipeline t1 t2)"
  have c: "ok c" using all_connectionsD [OF assms(1)] new by (simp add: c_def split: option.split)
  obtain c1 where q: "queue_pending_send p d r c = Some c1" "m' = m(a \<mapsto> c1)"
    using assms(3)
    by (cases "m a") (auto simp: c_def send_to_client_def bind_Some_conv fresh_connection_eq)
  have "ok c1"
    using q(1) by (cases rule: queue_pending_send_cases) (auto intro: queued [OF c assms(2)] simp: c)
  with q(2) assms(1) show ?thesis by simp
qed

lemma flush_all_keeps:
  assumes "flush_all p L now addrs m = Some (m', out)" "all_connections ok m"
  shows "all_connections ok m' \<and> (\<forall>(w, a) \<in> set out. wire w)"
  using assms
proof (induction addrs arbitrary: m m' out)
  case (Cons a addrs)
  show ?case
  proof (cases "m a")
    case None
    then show ?thesis using Cons by simp
  next
    case (Some c)
    with Cons.prems(1) obtain c1 ws out1 where u: "connection_update p L now c = Some (c1, ws)"
      and rec: "flush_all p L now addrs (m(a \<mapsto> c1)) = Some (m', out1)"
      and out: "out = map (\<lambda>w. (w, a)) ws @ out1"
      by (auto simp: bind_Some_conv)
    have "ok c1" "list_all wire ws" using updated [OF all_connectionsD [OF Cons.prems(2) Some] u] by auto
    moreover from this have "all_connections ok (m(a \<mapsto> c1))" using Cons.prems(2) by simp
    note Cons.IH [OF rec this]
    ultimately show ?thesis by (auto simp: out list_all_iff)
  qed
qed simp

lemma evict_keeps: "all_connections ok m \<Longrightarrow> all_connections ok (evict_stale_connections now timeout m)"
  by (auto simp: all_connections_def evict_stale_connections_def map_retain_def split: option.splits if_splits)

end

section \<open>No empty unreliable packet is queued\<close>

text \<open>
  The first instance: queues that a flush gets through, none of whose unreliable packets is empty.
\<close>

definition queue_sendable :: "connection \<Rightarrow> bool" where
  "queue_sendable c \<longleftrightarrow> list_all sendable (pending_queue c)"

lemma drain_queue_empties: "drain_queue p L now q c = Some (c', ws) \<Longrightarrow> pending_queue c' = []"
  by (induction q arbitrary: c c' ws) (auto simp: bind_Some_conv split: option.splits prod.splits)

lemma connection_update_empties: "connection_update p L now c = Some (c', ws) \<Longrightarrow> pending_queue c' = []"
  by (auto simp: connection_update_def swap_pipeline_def bind_Some_conv split: option.splits
      dest!: drain_queue_empties)

interpretation sendable_inv: connection_invariant queue_sendable sendable "\<lambda>_. True"
  by unfold_locales
    (auto simp: queue_sendable_def sendable_def list_all_iff dest: connection_update_empties)

end
