(* ===== verification/Server.thy ===== *)
theory Server
  imports Delivery Transport Conn_Invariant
begin

text \<open>
  The main loop of \<open>bin/server.rs\<close>: one call of \<open>server_tick\<close> is one iteration. What an
  iteration takes from outside, the result of the poll, the readings of the clock and the orders in
  which hash maps are iterated, is the record \<open>tick_env\<close>; what it sends is a result, in order. The
  logging and the thread pool, which the loop never gives a task, are left out.
\<close>

section \<open>State\<close>

record client_session =
  input_buffer :: "u64 \<rightharpoonup> u32"
  last_known_input :: u32
  latest_input_tick :: u64

type_synonym sessions = "sock_addr \<rightharpoonup> client_session"

record server =
  sv_manager :: manager
  sv_world :: world_state
  sv_tick :: u64
  sv_sessions :: sessions
  sv_interpolator :: "world_state interpolator"

definition server_new :: server where
  "server_new =
     \<lparr>sv_manager = manager_new, sv_world = \<lparr>positions = [\<lparr>vx = 0, vy = 0, vz = 0\<rparr>]\<rparr>,
      sv_tick = 0, sv_sessions = Map.empty, sv_interpolator = interpolator_new 128\<rparr>"

text \<open>The clock is read once per handled packet, by \<open>evict_stale_connections\<close> and by \<open>flush_all\<close>.\<close>

record tick_env =
  te_poll :: "rift_error + packet list"
  te_clock :: "nat \<Rightarrow> clock_readings"
  te_send_now :: instant
  te_evict_now :: instant
  te_flush_now :: instant
  te_input_order :: "sock_addr list"
  te_broadcast_order :: "sock_addr list"
  te_flush_order :: "sock_addr list"

section \<open>Input\<close>

definition session_new :: client_session where
  "session_new = \<lparr>input_buffer = Map.empty, last_known_input = 0, latest_input_tick = 0\<rparr>"

text \<open>An input packet from the application layer; the aligned buffer is a copy of its bytes.\<close>

definition record_input :: "input_packet \<Rightarrow> client_session \<Rightarrow> client_session" where
  "record_input pkt s =
     s\<lparr>input_buffer := (input_buffer s)(ip_tick pkt \<mapsto> ip_input_bitmask pkt),
       latest_input_tick := ip_tick pkt\<rparr>"

definition accept_input :: "sock_addr \<Rightarrow> bytes \<Rightarrow> sessions \<Rightarrow> sessions option" where
  "accept_input sender app_data ss =
     (case general_packet_header_read app_data of
        None \<Rightarrow> Some ss
      | Some gen_hdr \<Rightarrow>
          if gh_packet_type gen_hdr = packet_type_code Input then
            let offset = general_packet_header_size; pkt_size = input_packet_size in
            if offset + pkt_size \<le> length app_data then do {
              buf \<leftarrow> slice offset (offset + pkt_size) app_data;
              Some (case input_packet_read buf of
                      None \<Rightarrow> ss
                    | Some input_pkt \<Rightarrow>
                        let session = (case ss sender of None \<Rightarrow> session_new | Some s \<Rightarrow> s)
                        in ss(sender \<mapsto> record_input input_pkt session))
            }
            else Some ss
          else Some ss)"

text \<open>The loop over the polled packets; \<open>i\<close> counts them.\<close>

fun ingest ::
  "profile \<Rightarrow> libs \<Rightarrow> (nat \<Rightarrow> clock_readings) \<Rightarrow> nat \<Rightarrow> packet list \<Rightarrow> manager \<Rightarrow> sessions
    \<Rightarrow> (manager \<times> sessions) option" where
  "ingest p L clock i [] m ss = Some (m, ss)"
| "ingest p L clock i ((packet, sender) # packets) m ss = do {
     (m1, r) \<leftarrow> handle_packet p L (clock i) sender packet m;
     ss1 \<leftarrow> (case r of None \<Rightarrow> Some ss | Some app_data \<Rightarrow> accept_input sender app_data ss);
     ingest p L clock (Suc i) packets m1 ss1
   }"

text \<open>\<open>or_insert\<close> of a fresh session for every active connection.\<close>

definition ensure_sessions :: "manager \<Rightarrow> sessions \<Rightarrow> sessions" where
  "ensure_sessions m ss =
     (\<lambda>a. case ss a of Some s \<Rightarrow> Some s
        | None \<Rightarrow> (case m a of None \<Rightarrow> None | Some c \<Rightarrow> Some session_new))"

definition step_session :: "u64 \<Rightarrow> client_session \<Rightarrow> client_session" where
  "step_session tick s =
     (let s1 = (case input_buffer s tick of
                  None \<Rightarrow> s
                | Some input \<Rightarrow> s\<lparr>input_buffer := (input_buffer s)(tick := None),
                                 last_known_input := input\<rparr>)
      in s1\<lparr>input_buffer := map_retain (\<lambda>t _. tick < t) (input_buffer s1)\<rparr>)"

fun gather_inputs :: "u64 \<Rightarrow> sock_addr list \<Rightarrow> sessions \<Rightarrow> u32 \<Rightarrow> sessions \<times> u32" where
  "gather_inputs tick [] ss inputs = (ss, inputs)"
| "gather_inputs tick (a # addrs) ss inputs =
     (case ss a of
        None \<Rightarrow> gather_inputs tick addrs ss inputs
      | Some s \<Rightarrow>
          let s1 = step_session tick s
          in gather_inputs tick addrs (ss(a \<mapsto> s1)) (inputs OR last_known_input s1))"

section \<open>Broadcast and cleanup\<close>

definition snapshot_packet :: "u64 \<Rightarrow> u64 \<Rightarrow> client_session \<Rightarrow> world_state \<Rightarrow> bytes" where
  "snapshot_packet tick hash s w =
     general_packet_header_as_bytes \<lparr>gh_packet_type = packet_type_code Snapshot\<rparr> @
     snapshot_header_as_bytes
       \<lparr>sh_tick = tick, sh_state_hash = hash, sh_last_input_tick = latest_input_tick s\<rparr> @
     concat (map vec_bytes (positions w))"

definition broadcast_to ::
  "profile \<Rightarrow> instant \<Rightarrow> u64 \<Rightarrow> u64 \<Rightarrow> world_state \<Rightarrow> sessions \<Rightarrow> sock_addr \<Rightarrow> manager \<Rightarrow> manager option" where
  "broadcast_to p now tick hash w ss a m =
     (case ss a of
        None \<Rightarrow> Some m
      | Some session \<Rightarrow>
          (case m a of
             None \<Rightarrow> Some m
           | Some _ \<Rightarrow>
               send_to_client p now now a (snapshot_packet tick hash session w) False True m))"

definition eviction_timeout :: duration where
  "eviction_timeout = 5 * 10 ^ 9"

definition retain_active :: "manager \<Rightarrow> sessions \<Rightarrow> sessions" where
  "retain_active m ss = map_retain (\<lambda>a _. m a \<noteq> None) ss"

section \<open>One iteration\<close>

definition server_receive ::
  "profile \<Rightarrow> libs \<Rightarrow> tick_env \<Rightarrow> server \<Rightarrow> (u64 \<times> manager \<times> sessions) option" where
  "server_receive p L env s = do {
     tick \<leftarrow> add_u p (sv_tick s) 1;
     (m, ss) \<leftarrow> (case te_poll env of
         Inr packets \<Rightarrow> ingest p L (te_clock env) 0 packets (sv_manager s) (sv_sessions s)
       | Inl e \<Rightarrow> Some (sv_manager s, sv_sessions s));
     Some (tick, m, ensure_sessions m ss)
   }"

definition server_simulate ::
  "profile \<Rightarrow> libs \<Rightarrow> hasher \<Rightarrow> tick_env \<Rightarrow> server \<Rightarrow> u64 \<Rightarrow> manager \<Rightarrow> sessions
    \<Rightarrow> (server \<times> packet list) option" where
  "server_simulate p L hash env s tick m ss =
     (let (ss1, inputs) = gather_inputs tick (te_input_order env) ss 0 in do {
        world \<leftarrow> step_physics p inputs (sv_world s);
        let h = calculate_hash hash world;
        let interp = push_snapshot \<lparr>sn_tick = tick, sn_state = world\<rparr> (sv_interpolator s);
        m1 \<leftarrow> for_each (broadcast_to p (te_send_now env) tick h world ss1)
                (te_broadcast_order env) m;
        let m2 = evict_stale_connections (te_evict_now env) eviction_timeout m1;
        let ss2 = retain_active m2 ss1;
        (m3, out) \<leftarrow> flush_all p L (te_flush_now env) (te_flush_order env) m2;
        Some (\<lparr>sv_manager = m3, sv_world = world, sv_tick = tick, sv_sessions = ss2,
               sv_interpolator = interp\<rparr>, out)
      })"

definition server_tick ::
  "profile \<Rightarrow> libs \<Rightarrow> hasher \<Rightarrow> tick_env \<Rightarrow> server \<Rightarrow> (server \<times> packet list) option" where
  "server_tick p L hash env s = do {
     (tick, m, ss) \<leftarrow> server_receive p L env s;
     server_simulate p L hash env s tick m ss
   }"

text \<open>
  The telemetry pulse at the end of an iteration, on the state that the iteration left: what it logs.
  The sum runs over the sessions in the order in which their map is iterated.
\<close>

record pulse =
  pu_srv_tick :: u64
  pu_hash :: u64
  pu_clients :: nat
  pu_buffered_inputs :: usize

definition total_buffered_inputs :: "profile \<Rightarrow> sock_addr list \<Rightarrow> sessions \<Rightarrow> usize option" where
  "total_buffered_inputs p order ss =
     for_each (\<lambda>a n. case ss a of None \<Rightarrow> Some n
       | Some s \<Rightarrow> add_u p n (of_nat (card (dom (input_buffer s))))) order 0"

definition server_telemetry ::
  "profile \<Rightarrow> hasher \<Rightarrow> sock_addr list \<Rightarrow> server \<Rightarrow> pulse option option" where
  "server_telemetry p hash order s =
     (if sv_tick s mod 60 = 0 then do {
        total \<leftarrow> total_buffered_inputs p order (sv_sessions s);
        Some (Some \<lparr>pu_srv_tick = sv_tick s, pu_hash = calculate_hash hash (sv_world s),
                    pu_clients = card (dom (sv_sessions s)), pu_buffered_inputs = total\<rparr>)
      }
      else Some None)"

definition server_iteration ::
  "profile \<Rightarrow> libs \<Rightarrow> hasher \<Rightarrow> tick_env \<Rightarrow> sock_addr list \<Rightarrow> server
    \<Rightarrow> (server \<times> packet list \<times> pulse option) option" where
  "server_iteration p L hash env order s = do {
     (s', out) \<leftarrow> server_tick p L hash env s;
     pulse \<leftarrow> server_telemetry p hash order s';
     Some (s', out, pulse)
   }"

section \<open>Receiving\<close>

definition readings_ok_all :: "tick_env \<Rightarrow> bool" where
  "readings_ok_all env \<longleftrightarrow> (\<forall>i. readings_ok (te_clock env i)) \<and> 0 \<le> te_flush_now env"

definition all_sendable :: "manager \<Rightarrow> bool" where
  "all_sendable m \<longleftrightarrow> (\<forall>a c. m a = Some c \<longrightarrow> list_all sendable (pending_queue c))"

lemma accept_input_total: "\<exists>ss'. accept_input sender d ss = Some ss'"
  by (auto simp: accept_input_def slice_def Let_def split: option.splits)

lemma all_sendable_eq: "all_sendable = all_connections queue_sendable"
  by (simp add: fun_eq_iff all_sendable_def all_connections_def queue_sendable_def)

lemmas handle_packet_sendable = sendable_inv.handle_packet_keeps [folded all_sendable_eq]

lemma ingest_ok:
  assumes "\<forall>i. readings_ok (clock i)" "manager_ok m" "all_sendable m"
  shows "\<exists>m' ss'. ingest Release L clock i packets m ss = Some (m', ss')"
    and "ingest p L clock i packets m ss = Some (m', ss') \<Longrightarrow> manager_ok m' \<and> all_sendable m'"
proof -
  show "\<exists>m' ss'. ingest Release L clock i packets m ss = Some (m', ss')"
    using assms(2)
  proof (induction packets arbitrary: i m ss)
    case (Cons x packets)
    obtain packet sender where x: "x = (packet, sender)" by (cases x)
    obtain m1 r where h: "handle_packet Release L (clock i) sender packet m = Some (m1, r)"
      using handle_packet_total [OF Cons.prems] by (metis surj_pair)
    then have "manager_ok m1" using handle_packet_ok [OF Cons.prems] assms(1) by blast
    moreover obtain ss1 where "(case r of None \<Rightarrow> Some ss | Some d \<Rightarrow> accept_input sender d ss) = Some ss1"
      using accept_input_total [of sender "the r" ss] by (cases r) auto
    ultimately show ?case using Cons.IH [of m1 "Suc i" ss1] h x by auto
  qed simp
  show "ingest p L clock i packets m ss = Some (m', ss') \<Longrightarrow> manager_ok m' \<and> all_sendable m'"
    using assms(2,3)
  proof (induction packets arbitrary: i m ss)
    case (Cons x packets)
    obtain packet sender where x: "x = (packet, sender)" by (cases x)
    with Cons.prems(1) obtain m1 r ss1 where
      h: "handle_packet p L (clock i) sender packet m = Some (m1, r)"
      and rec: "ingest p L clock (Suc i) packets m1 ss1 = Some (m', ss')"
      by (auto simp: bind_Some_conv)
    have "manager_ok m1" using handle_packet_ok [OF Cons.prems(2) _ h] assms(1) by blast
    moreover have "all_sendable m1" by (rule handle_packet_sendable [OF Cons.prems(3) h])
    ultimately show ?case using Cons.IH [OF rec] by blast
  qed simp
qed

section \<open>The inputs of a tick\<close>

text \<open>
  The loop over the sessions steps every session and combines their inputs bit by bit, in whatever
  order the map is iterated.
\<close>

definition stepped :: "u64 \<Rightarrow> sessions \<Rightarrow> sessions" where
  "stepped tick ss = (\<lambda>a. map_option (step_session tick) (ss a))"

definition input_bit :: "u64 \<Rightarrow> sessions \<Rightarrow> nat \<Rightarrow> bool" where
  "input_bit tick ss i \<longleftrightarrow>
     (\<exists>a s. ss a = Some s \<and> bit (last_known_input (step_session tick s)) i)"

lemma gather_inputs_spec:
  "distinct addrs \<Longrightarrow> gather_inputs tick addrs ss acc = (ss', inputs) \<Longrightarrow>
    ss' = (\<lambda>a. if a \<in> set addrs then stepped tick ss a else ss a) \<and>
    (\<forall>i. bit inputs i \<longleftrightarrow> bit acc i \<or>
      (\<exists>a \<in> set addrs. \<exists>s. ss a = Some s \<and> bit (last_known_input (step_session tick s)) i))"
proof (induction addrs arbitrary: ss acc)
  case Nil
  then show ?case by simp
next
  case (Cons a addrs)
  show ?case
  proof (cases "ss a")
    case None
    with Cons show ?thesis by (auto simp: stepped_def fun_eq_iff)
  next
    case (Some s)
    let ?s = "step_session tick s"
    have "gather_inputs tick addrs (ss(a \<mapsto> ?s)) (acc OR last_known_input ?s) = (ss', inputs)"
      using Cons.prems(2) Some by (simp add: Let_def)
    from Cons.IH [OF _ this] Cons.prems(1)
    have "ss' = (\<lambda>b. if b \<in> set addrs then stepped tick (ss(a \<mapsto> ?s)) b else (ss(a \<mapsto> ?s)) b)"
      and bits: "\<forall>i. bit inputs i \<longleftrightarrow> bit (acc OR last_known_input ?s) i \<or>
        (\<exists>b \<in> set addrs. \<exists>t. (ss(a \<mapsto> ?s)) b = Some t \<and> bit (last_known_input (step_session tick t)) i)"
      by auto
    then have "ss' = (\<lambda>b. if b \<in> set (a # addrs) then stepped tick ss b else ss b)"
      using Cons.prems(1) Some by (auto simp: stepped_def fun_eq_iff)
    moreover have "(\<exists>b \<in> set addrs. \<exists>t. (ss(a \<mapsto> ?s)) b = Some t \<and> P t) \<longleftrightarrow>
        (\<exists>b \<in> set addrs. \<exists>t. ss b = Some t \<and> P t)" for P
      using Cons.prems(1) by auto
    ultimately show ?thesis using bits Some by (auto simp: bit_or_iff)
  qed
qed

lemma gather_inputs_iter:
  assumes "iter_order addrs ss" "gather_inputs tick addrs ss 0 = (ss', inputs)"
  shows "ss' = stepped tick ss" and "bit inputs i \<longleftrightarrow> input_bit tick ss i"
proof -
  note spec = gather_inputs_spec [OF iter_order_distinct [OF assms(1)] assms(2)]
  show "ss' = stepped tick ss"
    using spec assms(1) by (auto simp: iter_order_def stepped_def fun_eq_iff)
  show "bit inputs i \<longleftrightarrow> input_bit tick ss i"
    using spec assms(1) by (auto simp: iter_order_def input_bit_def)
qed

lemma gather_inputs_order:
  assumes "iter_order as ss" "iter_order bs ss"
  shows "gather_inputs tick as ss 0 = gather_inputs tick bs ss 0"
proof -
  obtain ss1 i1 where 1: "gather_inputs tick as ss 0 = (ss1, i1)" by fastforce
  obtain ss2 i2 where 2: "gather_inputs tick bs ss 0 = (ss2, i2)" by fastforce
  have "i1 = i2"
    by (rule bit_word_eqI) (simp add: gather_inputs_iter(2) [OF assms(1) 1]
        gather_inputs_iter(2) [OF assms(2) 2])
  with 1 2 gather_inputs_iter(1) [OF assms(1) 1] gather_inputs_iter(1) [OF assms(2) 2]
  show ?thesis by simp
qed

section \<open>The broadcast\<close>

definition queued :: "bytes \<Rightarrow> connection \<Rightarrow> connection" where
  "queued data c =
     (if 1024 * 1024 < queued_bytes (pending_queue c) + length data then c
      else c\<lparr>pending_queue := pending_queue c @ [\<lparr>ps_data = data, ps_reliable = False\<rparr>],
             pending_bytes := of_nat (queued_bytes (pending_queue c) + length data)\<rparr>)"

lemma queued_frame [simp]:
  "endpoint (queued d c) = endpoint c" "last_seen (queued d c) = last_seen c"
  by (simp_all add: queued_def)

lemma queued_ok: "connection_ok c \<Longrightarrow> length d < 2 ^ 63 \<Longrightarrow> connection_ok (queued d c)"
  using queue_pending_send_eq [of c d Release False] queue_pending_send_ok [of c d Release False "queued d c"]
  by (simp add: queued_def connection_ok_def)

lemma send_to_client_known:
  assumes "manager_ok m" "m a = Some c" "length d < 2 ^ 63"
  shows "send_to_client p t1 t2 a d False srv m = Some (m(a \<mapsto> queued d c))"
  using queue_pending_send_eq [of c d p False] manager_okD [OF assms(1,2)] assms(2,3)
  by (simp add: send_to_client_def queued_def connection_ok_def)

definition broadcasted :: "(client_session \<Rightarrow> bytes) \<Rightarrow> sessions \<Rightarrow> manager \<Rightarrow> manager" where
  "broadcasted pkt ss m = (\<lambda>a. case ss a of None \<Rightarrow> m a
     | Some s \<Rightarrow> map_option (queued (pkt s)) (m a))"

lemma broadcast_all:
  assumes "distinct addrs" "manager_ok m"
    and len: "\<And>s. length (snapshot_packet tick h s w) < 2 ^ 63"
  shows "for_each (broadcast_to p now tick h w ss) addrs m =
    Some (\<lambda>a. if a \<in> set addrs then broadcasted (\<lambda>s. snapshot_packet tick h s w) ss m a else m a)"
  using assms(1,2)
proof (induction addrs arbitrary: m)
  case Nil
  then show ?case by simp
next
  case (Cons a addrs)
  let ?m = "m(a := broadcasted (\<lambda>s. snapshot_packet tick h s w) ss m a)"
  have b1: "broadcast_to p now tick h w ss a m = Some ?m"
    using Cons.prems(2) len
    by (auto simp: broadcast_to_def broadcasted_def send_to_client_known split: option.split)
  have ok: "manager_ok ?m"
    using Cons.prems(2) len
    by (auto simp: manager_ok_def broadcasted_def intro: queued_ok split: option.splits)
  have same: "broadcasted (\<lambda>s. snapshot_packet tick h s w) ss ?m b =
      broadcasted (\<lambda>s. snapshot_packet tick h s w) ss m b" if "b \<noteq> a" for b
    using that by (simp add: broadcasted_def split: option.split)
  have eq: "(\<lambda>b. if b \<in> set addrs then broadcasted (\<lambda>s. snapshot_packet tick h s w) ss ?m b else ?m b) =
      (\<lambda>b. if b \<in> set (a # addrs) then broadcasted (\<lambda>s. snapshot_packet tick h s w) ss m b else m b)"
  proof (rule ext)
    fix b
    show "(if b \<in> set addrs then broadcasted (\<lambda>s. snapshot_packet tick h s w) ss ?m b else ?m b) =
        (if b \<in> set (a # addrs) then broadcasted (\<lambda>s. snapshot_packet tick h s w) ss m b else m b)"
      using Cons.prems(1) same [of b] by (cases "b = a") simp_all
  qed
  have "distinct addrs" using Cons.prems(1) by simp
  from Cons.IH [OF this ok] show ?case
    by (simp only: for_each.simps b1 option.case eq)
qed

lemma broadcast_iter:
  assumes "iter_order addrs ss" "manager_ok m"
    and "\<And>s. length (snapshot_packet tick h s w) < 2 ^ 63"
  shows "for_each (broadcast_to p now tick h w ss) addrs m =
    Some (broadcasted (\<lambda>s. snapshot_packet tick h s w) ss m)"
proof -
  have "(\<lambda>a. if a \<in> set addrs then broadcasted (\<lambda>s. snapshot_packet tick h s w) ss m a else m a) =
      broadcasted (\<lambda>s. snapshot_packet tick h s w) ss m"
    using assms(1) by (auto simp: iter_order_def broadcasted_def fun_eq_iff split: option.split)
  with broadcast_all [OF iter_order_distinct [OF assms(1)] assms(2,3), of p now ss] show ?thesis
    by simp
qed

lemma broadcasted_ok:
  "manager_ok m \<Longrightarrow> (\<And>s. length (pkt s) < 2 ^ 63) \<Longrightarrow> manager_ok (broadcasted pkt ss m)"
  by (auto simp: manager_ok_def broadcasted_def intro: queued_ok split: option.splits)

lemma broadcasted_dom [simp]: "dom (broadcasted pkt ss m) = dom m"
  by (auto simp: broadcasted_def split: option.splits)

lemma broadcasted_sendable:
  "all_sendable m \<Longrightarrow> (\<And>s. pkt s \<noteq> []) \<Longrightarrow> all_sendable (broadcasted pkt ss m)"
  by (auto simp: all_sendable_def broadcasted_def queued_def sendable_def split: option.splits)

section \<open>Properties\<close>

text \<open>
  The input that is in effect after the ticks \<open>a + 1\<close> to \<open>a + n\<close>: the one for the latest of these
  ticks, or the one known before.
\<close>

primrec due_input :: "client_session \<Rightarrow> u64 \<Rightarrow> nat \<Rightarrow> u32" where
  "due_input s a 0 = last_known_input s"
| "due_input s a (Suc n) =
     (case input_buffer s (a + of_nat (Suc n)) of None \<Rightarrow> due_input s a n | Some b \<Rightarrow> b)"

primrec step_session_run :: "u64 \<Rightarrow> nat \<Rightarrow> client_session \<Rightarrow> client_session" where
  "step_session_run a 0 s = s"
| "step_session_run a (Suc n) s = step_session (a + of_nat (Suc n)) (step_session_run a n s)"

lemma step_session_fields:
  "last_known_input (step_session u s) =
    (case input_buffer s u of None \<Rightarrow> last_known_input s | Some b \<Rightarrow> b)"
  "input_buffer (step_session u s) t = (if u < t then input_buffer s t else None)"
  "latest_input_tick (step_session u s) = latest_input_tick s"
  by (auto simp: step_session_def Let_def map_retain_def split: option.splits)

text \<open>
  C24: a session that is stepped through consecutive ticks applies each buffered input exactly at its
  tick and keeps it until a newer one is due; inputs for later ticks stay buffered, and inputs whose
  tick has passed are gone, whatever the order in which they were inserted.
\<close>

theorem session_applies_inputs_at_their_tick:
  assumes "unat a + n < 2 ^ 64"
  shows "last_known_input (step_session_run a n s) = due_input s a n \<and>
    (0 < n \<longrightarrow> (\<forall>t. input_buffer (step_session_run a n s) t =
      (if a + of_nat n < t then input_buffer s t else None))) \<and>
    latest_input_tick (step_session_run a n s) = latest_input_tick s"
  using assms
proof (induction n)
  case 0
  then show ?case by simp
next
  case (Suc n)
  let ?u = "a + of_nat (Suc n)"
  have un: "unat (a + of_nat k :: u64) = unat a + k" if "k \<le> Suc n" for k
    using that Suc.prems unat_of_nat_small [of k] by (simp add: unat_add_no_wrap)
  have lt: "a + of_nat n < ?u"
    using un [of n] un [of "Suc n"] by (simp add: word_less_nat_alt)
  have buf: "input_buffer (step_session_run a n s) t = input_buffer s t" if "?u \<le> t" for t
    using Suc that lt by (cases n) (auto simp del: of_nat_Suc)
  have "last_known_input (step_session_run a (Suc n) s) = due_input s a (Suc n)"
    using Suc buf [of ?u] by (simp add: step_session_fields del: of_nat_Suc split: option.split)
  moreover have "input_buffer (step_session_run a (Suc n) s) t =
      (if ?u < t then input_buffer s t else None)" for t
    using buf [of t] by (simp add: step_session_fields del: of_nat_Suc)
  ultimately show ?case
    using Suc by (simp add: step_session_fields del: of_nat_Suc)
qed

theorem session_applies_inputs_at_their_tick_witness:
  "last_known_input (step_session_run 10 2
      \<lparr>input_buffer = [12 \<mapsto> 5, 11 \<mapsto> 1, 20 \<mapsto> 7], last_known_input = 0, latest_input_tick = 20\<rparr>) = 5 \<and>
    input_buffer (step_session_run 10 2
      \<lparr>input_buffer = [12 \<mapsto> 5, 11 \<mapsto> 1, 20 \<mapsto> 7], last_known_input = 0, latest_input_tick = 20\<rparr>) 20 = Some 7"
proof -
  let ?s = "\<lparr>input_buffer = [12 \<mapsto> 5, 11 \<mapsto> 1, 20 \<mapsto> 7], last_known_input = 0, latest_input_tick = 20\<rparr>"
  have "due_input ?s 10 2 = 5"
    unfolding numeral_2_eq_2 due_input.simps by simp
  with session_applies_inputs_at_their_tick [of 10 2 ?s] show ?thesis by simp
qed

end
