(* ===== verification/Server_Tick.thy ===== *)
theory Server_Tick
  imports Server
begin

text \<open>
  What an iteration of the server promises: whatever bytes arrive, it does not panic when overflow is
  not checked; sessions and connections stay in step; and its result does not depend on the orders in
  which the hash maps are iterated, which is what makes the simulation deterministic.
\<close>

section \<open>The invariant\<close>

definition server_ok :: "server \<Rightarrow> bool" where
  "server_ok s \<longleftrightarrow> manager_ok (sv_manager s) \<and> all_sendable (sv_manager s) \<and>
     length (positions (sv_world s)) = 1 \<and> interpolator_ok (sv_interpolator s) \<and>
     dom (sv_sessions s) = dom (sv_manager s)"

text \<open>The orders are orders of the maps that are iterated.\<close>

definition env_orders :: "tick_env \<Rightarrow> manager \<Rightarrow> sessions \<Rightarrow> bool" where
  "env_orders env m ss \<longleftrightarrow>
     iter_order (te_input_order env) ss \<and> iter_order (te_broadcast_order env) ss \<and>
     iter_order (te_flush_order env) (evict_stale_connections (te_evict_now env) eviction_timeout m)"

lemma all_sendable_new: "all_sendable manager_new"
  by (simp add: all_sendable_def manager_new_def)

lemma server_new_ok: "server_ok server_new"
  using manager_ok_new all_sendable_new
  by (simp add: server_ok_def server_new_def interpolator_new_ok) (simp add: manager_new_def)

lemma stepped_dom [simp]: "dom (stepped tick ss) = dom ss"
  by (auto simp: stepped_def)

lemma ensure_sessions_dom: "dom (ensure_sessions m ss) = dom ss \<union> dom m"
  by (auto simp: ensure_sessions_def split: option.splits)

lemma retain_active_dom: "dom m \<subseteq> dom ss \<Longrightarrow> dom (retain_active m ss) = dom m"
  by (auto simp: retain_active_def map_retain_def split: option.splits if_splits)

lemma evict_dom_subset: "dom (evict_stale_connections now timeout m) \<subseteq> dom m"
  unfolding evict_stale_connections_def by (rule map_retain_subset)

lemma flushed_dom:
  "\<forall>a. \<not> flush_panics p L now m a \<Longrightarrow> dom (flushed p L now m) = dom m"
  by (force simp: flushed_def flush_panics_def split: option.splits)

lemma evict_broadcasted_dom:
  "dom (evict_stale_connections now timeout (broadcasted pkt ss m)) =
    dom (evict_stale_connections now timeout m)"
  by (auto simp: evict_stale_connections_def map_retain_def broadcasted_def split: option.splits)

lemma evict_sendable: "all_sendable m \<Longrightarrow> all_sendable (evict_stale_connections now timeout m)"
  by (auto simp: all_sendable_def evict_stale_connections_def)

lemma flush_not_panics:
  assumes "libs_ok L" "manager_ok m" "all_sendable m" "0 \<le> now"
  shows "\<not> flush_panics Release L now m a"
proof (cases "m a")
  case None
  then show ?thesis by (simp add: flush_panics_def)
next
  case (Some c)
  obtain st out where "process_retransmissions Release now (conn_state c) = Some (st, out)"
    using process_retransmissions_total by (metis surj_pair)
  moreover have "connection_ok c" "list_all sendable (pending_queue c)"
    using assms(2,3) Some by (auto simp: manager_ok_def all_sendable_def)
  ultimately have "connection_update Release L now c \<noteq> None"
    using connection_update_spec [OF assms(1) _ _ assms(4)] by (fastforce simp: nonce_room_def)
  with Some show ?thesis by (simp add: flush_panics_def)
qed

lemma snapshot_packet_length:
  "length (positions w) = 1 \<Longrightarrow> length (snapshot_packet tick h s w) = 37"
  by (cases "positions w")
    (auto simp: snapshot_packet_def general_packet_header_as_bytes_def snapshot_header_as_bytes_def)

lemma flushed_ok:
  assumes "libs_ok L" "manager_ok m" "0 \<le> now"
  shows "manager_ok (flushed p L now m)" "all_sendable (flushed p L now m)"
proof -
  have "connection_ok c' \<and> endpoint c' = a \<and> pending_queue c' = []"
    if "flushed p L now m a = Some c'" for a c'
  proof -
    from that obtain c out where c: "m a = Some c" and up: "connection_update p L now c = Some (c', out)"
      by (auto simp: flushed_def split: option.splits)
    have ok: "connection_ok c" "endpoint c = a" using manager_okD [OF assms(2) c] by simp_all
    with connection_update_ok(1,2) [OF assms(1) ok(1) assms(3) up] connection_update_endpoint [OF up]
    show ?thesis by simp
  qed
  then show "manager_ok (flushed p L now m)" "all_sendable (flushed p L now m)"
    by (auto simp: manager_ok_def all_sendable_def)
qed

section \<open>The simulation step in closed form\<close>

text \<open>The connections after the broadcast and the eviction.\<close>

definition prepared :: "hasher \<Rightarrow> tick_env \<Rightarrow> u64 \<Rightarrow> world_state \<Rightarrow> manager \<Rightarrow> sessions \<Rightarrow> manager" where
  "prepared hash env tick w m ss =
     evict_stale_connections (te_evict_now env) eviction_timeout
       (broadcasted (\<lambda>s. snapshot_packet tick (calculate_hash hash w) s w) (stepped tick ss) m)"

lemma server_simulate_eq:
  assumes "manager_ok m" "length (positions (sv_world s)) = 1" "env_orders env m ss"
    and inputs: "gather_inputs tick (te_input_order env) ss 0 = (ss1, inputs)"
  shows "server_simulate p L hash env s tick m ss = do {
      w \<leftarrow> step_physics p inputs (sv_world s);
      (if \<exists>a. flush_panics p L (te_flush_now env) (prepared hash env tick w m ss) a then None
       else Some
         (\<lparr>sv_manager = flushed p L (te_flush_now env) (prepared hash env tick w m ss),
           sv_world = w, sv_tick = tick,
           sv_sessions = retain_active (prepared hash env tick w m ss) (stepped tick ss),
           sv_interpolator = push_snapshot \<lparr>sn_tick = tick, sn_state = w\<rparr> (sv_interpolator s)\<rparr>,
          concat (map (\<lambda>a. map (\<lambda>x. (x, a))
            (wire_of p L (te_flush_now env) (prepared hash env tick w m ss) a)) (te_flush_order env))))
    }"
proof (cases "step_physics p inputs (sv_world s)")
  case None
  then show ?thesis by (simp add: server_simulate_def inputs)
next
  case (Some w)
  have ss1: "ss1 = stepped tick ss"
    using gather_inputs_iter(1) [OF _ inputs] assms(3) by (simp add: env_orders_def)
  have "length (positions w) = 1"
    using step_physics_SomeD [OF Some] assms(2) by simp
  then have len: "length (snapshot_packet tick h t w) < 2 ^ 63" for h t
    by (simp add: snapshot_packet_length)
  have "iter_order (te_broadcast_order env) ss1"
    using assms(3) by (simp add: env_orders_def iter_order_def ss1)
  from broadcast_iter [OF this assms(1) len]
  have b: "for_each (broadcast_to p (te_send_now env) tick (calculate_hash hash w) w ss1)
      (te_broadcast_order env) m =
      Some (broadcasted (\<lambda>s. snapshot_packet tick (calculate_hash hash w) s w) ss1 m)" .
  have "iter_order (te_flush_order env) (prepared hash env tick w m ss)"
    using assms(3) by (simp add: env_orders_def iter_order_def prepared_def evict_broadcasted_dom)
  from flush_all_iter [OF this]
  show ?thesis
    by (simp add: server_simulate_def inputs [unfolded ss1] Some b [unfolded ss1] Let_def flip: prepared_def)
qed

section \<open>Preservation and totality\<close>

lemma server_receive_ok:
  assumes "server_ok s" "readings_ok_all env" "server_receive p L env s = Some (tick, m, ss)"
  shows "manager_ok m" "all_sendable m" "dom m \<subseteq> dom ss" "tick = sv_tick s + 1"
proof -
  obtain ss0 where r: "(case te_poll env of
      Inr packets \<Rightarrow> ingest p L (te_clock env) 0 packets (sv_manager s) (sv_sessions s)
    | Inl e \<Rightarrow> Some (sv_manager s, sv_sessions s)) = Some (m, ss0)" "ss = ensure_sessions m ss0"
    "add_u p (sv_tick s) 1 = Some tick"
    using assms(3) by (auto simp: server_receive_def bind_Some_conv)
  have "manager_ok m \<and> all_sendable m"
    using r(1) assms(1,2) ingest_ok(2) [of "te_clock env" "sv_manager s" p L 0 _ "sv_sessions s" m ss0]
    by (cases "te_poll env") (auto simp: server_ok_def readings_ok_all_def)
  then show "manager_ok m" "all_sendable m" by simp_all
  show "dom m \<subseteq> dom ss" by (simp add: r(2) ensure_sessions_dom)
  show "tick = sv_tick s + 1" using r(3) by (rule add_u_SomeD)
qed

lemma server_receive_total:
  assumes "server_ok s" "readings_ok_all env"
  shows "\<exists>r. server_receive Release L env s = Some r"
proof (cases "te_poll env")
  case (Inl e)
  then show ?thesis by (simp add: server_receive_def)
next
  case (Inr packets)
  obtain m ss where "ingest Release L (te_clock env) 0 packets (sv_manager s) (sv_sessions s) =
      Some (m, ss)"
    using ingest_ok(1) assms by (metis server_ok_def readings_ok_all_def)
  with Inr show ?thesis by (simp add: server_receive_def)
qed

lemma prepared_ok:
  assumes "manager_ok m" "all_sendable m" "length (positions w) = 1"
  shows "manager_ok (prepared hash env tick w m ss)" "all_sendable (prepared hash env tick w m ss)"
    "dom (prepared hash env tick w m ss) \<subseteq> dom m"
proof -
  have len: "length (snapshot_packet tick h t w) < 2 ^ 63" "snapshot_packet tick h t w \<noteq> []" for h t
    using snapshot_packet_length [OF assms(3), of tick h t] by auto
  show "manager_ok (prepared hash env tick w m ss)"
    unfolding prepared_def by (intro evict_ok broadcasted_ok assms len)
  show "all_sendable (prepared hash env tick w m ss)"
    unfolding prepared_def by (intro evict_sendable broadcasted_sendable assms len)
  show "dom (prepared hash env tick w m ss) \<subseteq> dom m"
    unfolding prepared_def by (rule order_trans [OF evict_dom_subset]) simp
qed

lemma server_simulate_ok:
  assumes "libs_ok L" "manager_ok m" "all_sendable m" "dom m \<subseteq> dom ss" "0 \<le> te_flush_now env"
    and "length (positions (sv_world s)) = 1" "interpolator_ok (sv_interpolator s)"
    and "env_orders env m ss" "server_simulate p L hash env s tick m ss = Some (s', out)"
  shows "server_ok s'"
proof -
  obtain ss1 inputs where g: "gather_inputs tick (te_input_order env) ss 0 = (ss1, inputs)"
    by fastforce
  obtain w where w: "step_physics p inputs (sv_world s) = Some w"
    using assms(9) by (auto simp: server_simulate_eq [OF assms(2,6,8) g] bind_Some_conv)
  let ?m = "prepared hash env tick w m ss"
  have s': "\<forall>a. \<not> flush_panics p L (te_flush_now env) ?m a"
    "s' = \<lparr>sv_manager = flushed p L (te_flush_now env) ?m, sv_world = w, sv_tick = tick,
       sv_sessions = retain_active ?m (stepped tick ss),
       sv_interpolator = push_snapshot \<lparr>sn_tick = tick, sn_state = w\<rparr> (sv_interpolator s)\<rparr>"
    using assms(9) by (auto simp: server_simulate_eq [OF assms(2,6,8) g] w split: if_splits)
  have len: "length (positions w) = 1" using step_physics_SomeD [OF w] assms(6) by simp
  note prep = prepared_ok [OF assms(2,3) len, of hash env tick ss]
  have "dom (retain_active ?m (stepped tick ss)) = dom ?m"
    using prep(3) assms(4) by (intro retain_active_dom) auto
  then show ?thesis
    using s' len prep flushed_ok [OF assms(1) prep(1) assms(5)] push_snapshot_ok [OF assms(7)]
    by (simp add: server_ok_def flushed_dom)
qed

lemma server_simulate_total:
  assumes "libs_ok L" "manager_ok m" "all_sendable m" "0 \<le> te_flush_now env"
    and "length (positions (sv_world s)) = 1" "env_orders env m ss"
  shows "\<exists>r. server_simulate Release L hash env s tick m ss = Some r"
proof -
  obtain ss1 inputs where g: "gather_inputs tick (te_input_order env) ss 0 = (ss1, inputs)"
    by fastforce
  have w: "step_physics Release inputs (sv_world s) = Some (moved inputs (sv_world s))"
    using assms(5) by (intro step_physics_total) auto
  have "length (positions (moved inputs (sv_world s))) = 1" using assms(5) by simp
  from flush_not_panics [OF assms(1) prepared_ok(1,2) [OF assms(2,3) this] assms(4)]
  show ?thesis by (simp add: server_simulate_eq [OF assms(2,5,6) g] w)
qed

text \<open>The state that an iteration leaves, in terms of what it received.\<close>

lemma server_tick_shape:
  assumes "server_ok s" "readings_ok_all env" "server_receive p L env s = Some (tick, m, ss)"
    and "env_orders env m ss" "server_tick p L hash env s = Some (s', out)"
  shows "\<exists>inputs. (\<forall>i. bit inputs i \<longleftrightarrow> input_bit tick ss i) \<and>
    sv_world s' = moved inputs (sv_world s) \<and> sv_tick s' = tick \<and>
    dom (sv_manager s') = dom (prepared hash env tick (sv_world s') m ss) \<and>
    sv_sessions s' = retain_active (prepared hash env tick (sv_world s') m ss) (stepped tick ss) \<and>
    sv_interpolator s' =
      push_snapshot \<lparr>sn_tick = tick, sn_state = sv_world s'\<rparr> (sv_interpolator s)"
proof -
  note rok = server_receive_ok [OF assms(1-3)]
  have len: "length (positions (sv_world s)) = 1" using assms(1) by (simp add: server_ok_def)
  obtain ss1 inputs where g: "gather_inputs tick (te_input_order env) ss 0 = (ss1, inputs)" by fastforce
  have sim: "server_simulate p L hash env s tick m ss = Some (s', out)"
    using assms(3,5) by (simp add: server_tick_def)
  obtain w where w: "step_physics p inputs (sv_world s) = Some w"
    using sim by (auto simp: server_simulate_eq [OF rok(1) len assms(4) g] bind_Some_conv)
  let ?m = "prepared hash env tick w m ss"
  have s': "\<forall>a. \<not> flush_panics p L (te_flush_now env) ?m a"
    "s' = \<lparr>sv_manager = flushed p L (te_flush_now env) ?m, sv_world = w, sv_tick = tick,
       sv_sessions = retain_active ?m (stepped tick ss),
       sv_interpolator = push_snapshot \<lparr>sn_tick = tick, sn_state = w\<rparr> (sv_interpolator s)\<rparr>"
    using sim by (auto simp: server_simulate_eq [OF rok(1) len assms(4) g] w split: if_splits)
  have "\<forall>i. bit inputs i \<longleftrightarrow> input_bit tick ss i"
    using gather_inputs_iter(2) [OF _ g] assms(4) by (simp add: env_orders_def)
  moreover have "w = moved inputs (sv_world s)" using w by (rule step_physics_SomeD)
  ultimately show ?thesis using s' by (auto simp: flushed_dom)
qed

text \<open>What an iteration sends to each address.\<close>

lemma server_tick_out:
  assumes "server_ok s" "readings_ok_all env" "server_receive p L env s = Some (tick, m, ss)"
    and "env_orders env m ss" "server_tick p L hash env s = Some (s', out)"
  shows "map fst (filter (\<lambda>(w, b). b = a) out) =
    wire_of p L (te_flush_now env) (prepared hash env tick (sv_world s') m ss) a"
proof -
  note rok = server_receive_ok [OF assms(1-3)]
  have len: "length (positions (sv_world s)) = 1" using assms(1) by (simp add: server_ok_def)
  obtain ss1 inputs where g: "gather_inputs tick (te_input_order env) ss 0 = (ss1, inputs)" by fastforce
  have "server_simulate p L hash env s tick m ss = Some (s', out)"
    using assms(3,5) by (simp add: server_tick_def)
  then have out: "out = concat (map (\<lambda>a. map (\<lambda>x. (x, a))
      (wire_of p L (te_flush_now env) (prepared hash env tick (sv_world s') m ss) a)) (te_flush_order env))"
    by (auto simp: server_simulate_eq [OF rok(1) len assms(4) g] bind_Some_conv split: if_splits)
  have "iter_order (te_flush_order env) (prepared hash env tick (sv_world s') m ss)"
    using assms(4) by (simp add: env_orders_def iter_order_def prepared_def evict_broadcasted_dom)
  then show ?thesis
    unfolding out
    by (subst filter_addr_concat) (auto simp: iter_order_def comp_def intro!: wire_of_None)
qed

text \<open>An iteration keeps the invariant, and without overflow checks it does not panic.\<close>

lemma server_tick_ok:
  assumes "libs_ok L" "server_ok s" "readings_ok_all env" "server_receive p L env s = Some (tick, m, ss)"
    and "env_orders env m ss" "server_tick p L hash env s = Some (s', out)"
  shows "server_ok s'"
proof -
  note rok = server_receive_ok [OF assms(2-4)]
  have "server_simulate p L hash env s tick m ss = Some (s', out)"
    using assms(4,6) by (simp add: server_tick_def)
  moreover have "0 \<le> te_flush_now env" "length (positions (sv_world s)) = 1"
    "interpolator_ok (sv_interpolator s)"
    using assms(2,3) by (simp_all add: server_ok_def readings_ok_all_def)
  ultimately show ?thesis
    using server_simulate_ok [OF assms(1) rok(1-3) _ _ _ assms(5)] by blast
qed

lemma server_tick_total:
  assumes "libs_ok L" "server_ok s" "readings_ok_all env"
    and "\<forall>tick m ss. server_receive Release L env s = Some (tick, m, ss) \<longrightarrow> env_orders env m ss"
  obtains tick m ss s' out where "server_receive Release L env s = Some (tick, m, ss)"
    "env_orders env m ss" "server_tick Release L hash env s = Some (s', out)"
proof -
  obtain tick m ss where r: "server_receive Release L env s = Some (tick, m, ss)"
    using server_receive_total [OF assms(2,3)] by (metis prod.collapse)
  note rok = server_receive_ok [OF assms(2,3) r]
  have w: "length (positions (sv_world s)) = 1" "0 \<le> te_flush_now env"
    using assms(2,3) by (simp_all add: server_ok_def readings_ok_all_def)
  have orders: "env_orders env m ss" using assms(4) r by blast
  obtain s' out where "server_simulate Release L hash env s tick m ss = Some (s', out)"
    using server_simulate_total [OF assms(1) rok(1,2) w(2,1) orders, of hash tick]
    by (metis surj_pair)
  then show thesis using that r orders by (simp add: server_tick_def)
qed

section \<open>Determinism\<close>

text \<open>Two environments that differ in the iteration orders only.\<close>

definition same_inputs :: "tick_env \<Rightarrow> tick_env \<Rightarrow> bool" where
  "same_inputs env env' \<longleftrightarrow>
     te_poll env' = te_poll env \<and> te_clock env' = te_clock env \<and>
     te_evict_now env' = te_evict_now env \<and> te_flush_now env' = te_flush_now env"

lemma server_receive_same: "same_inputs env env' \<Longrightarrow> server_receive p L env' s = server_receive p L env s"
  by (simp add: server_receive_def same_inputs_def cong: sum.case_cong)

lemma server_simulate_order:
  assumes "manager_ok m" "length (positions (sv_world s)) = 1"
    and "env_orders env m ss" "env_orders env' m ss" "same_inputs env env'"
    and "server_simulate p L hash env s tick m ss = Some (s1, out1)"
  shows "\<exists>out2. server_simulate p L hash env' s tick m ss = Some (s1, out2) \<and>
    (\<forall>a. filter (\<lambda>(w, b). b = a) out2 = filter (\<lambda>(w, b). b = a) out1)"
proof -
  obtain ss1 inputs where g: "gather_inputs tick (te_input_order env) ss 0 = (ss1, inputs)"
    by fastforce
  then have g': "gather_inputs tick (te_input_order env') ss 0 = (ss1, inputs)"
    using gather_inputs_order [of "te_input_order env" ss "te_input_order env'" tick] assms(3,4)
    by (simp add: env_orders_def)
  have prep: "prepared hash env' tick w m ss = prepared hash env tick w m ss" for w
    using assms(5) by (simp add: prepared_def same_inputs_def)
  have now: "te_flush_now env' = te_flush_now env" using assms(5) by (simp add: same_inputs_def)
  obtain w where w: "step_physics p inputs (sv_world s) = Some w"
    using assms(6) by (auto simp: server_simulate_eq [OF assms(1-3) g] bind_Some_conv)
  let ?m = "prepared hash env tick w m ss"
  let ?wire = "wire_of p L (te_flush_now env) ?m"
  have ok: "\<not> (\<exists>a. flush_panics p L (te_flush_now env) ?m a)"
    using assms(6) by (auto simp: server_simulate_eq [OF assms(1-3) g] w split: if_splits)
  have per: "filter (\<lambda>(w, b). b = a) (concat (map (\<lambda>a. map (\<lambda>x. (x, a)) (?wire a)) order)) =
      map (\<lambda>x. (x, a)) (?wire a)"
    if "iter_order order ?m" for order a
    using that by (intro filter_addr_concat) (auto simp: iter_order_def intro!: wire_of_None)
  have orders: "iter_order (te_flush_order env) ?m" "iter_order (te_flush_order env') ?m"
    using assms(3-5)
    by (simp_all add: env_orders_def iter_order_def prepared_def evict_broadcasted_dom same_inputs_def)
  show ?thesis
    using assms(6) ok per [OF orders(1)] per [OF orders(2)]
    unfolding server_simulate_eq [OF assms(1-3) g] server_simulate_eq [OF assms(1,2,4) g'] w prep now
    by auto
qed

section \<open>Properties\<close>

text \<open>
  Whatever datagrams a poll delivers, or if it fails, an iteration of the server does not panic
  when overflow is not checked: it returns, advances the tick by one, and keeps every connection well
  formed and the sessions in step with the connections.
\<close>

theorem server_survives_any_input:
  assumes "libs_ok L" "server_ok s" "readings_ok_all env"
    and "\<forall>tick m ss. server_receive Release L env s = Some (tick, m, ss) \<longrightarrow> env_orders env m ss"
  shows "\<exists>s' out. server_tick Release L hash env s = Some (s', out) \<and> server_ok s' \<and>
    sv_tick s' = sv_tick s + 1"
proof -
  obtain tick m ss s' out where run: "server_receive Release L env s = Some (tick, m, ss)"
    "env_orders env m ss" "server_tick Release L hash env s = Some (s', out)"
    using server_tick_total [OF assms] .
  moreover have "server_ok s'" by (rule server_tick_ok [OF assms(1-3) run])
  moreover have "sv_tick s' = sv_tick s + 1"
    using server_tick_shape [OF assms(2,3) run] server_receive_ok(4) [OF assms(2,3) run(1)] by blast
  ultimately show ?thesis by blast
qed

text \<open>For the witnesses: a poll that delivers one byte of each of two unknown clients.\<close>

abbreviation example_a :: sock_addr where "example_a \<equiv> \<lparr>sa_ip = [49], sa_port = 80\<rparr>"
abbreviation example_b :: sock_addr where "example_b \<equiv> \<lparr>sa_ip = [49], sa_port = 81\<rparr>"

definition example_env :: "sock_addr list \<Rightarrow> tick_env" where
  "example_env order =
     \<lparr>te_poll = Inr [([9], example_a), ([9], example_b)],
      te_clock = (\<lambda>i. \<lparr>cr_new_state = 0, cr_new_seen = 0, cr_last_seen = 0, cr_elapsed = 5, cr_incoming = 0\<rparr>),
      te_send_now = 0, te_evict_now = 0, te_flush_now = 0,
      te_input_order = order, te_broadcast_order = order, te_flush_order = order\<rparr>"

lemma example_env_receive:
  assumes "server_receive p L (example_env order) server_new = Some (tick, m, ss)"
  shows "dom m = {example_a, example_b}" "dom ss = {example_a, example_b}"
    "\<forall>a c. m a = Some c \<longrightarrow> last_seen c = 0"
proof -
  let ?t = "\<lparr>cr_new_state = 0, cr_new_seen = 0, cr_last_seen = 0, cr_elapsed = 5, cr_incoming = 0\<rparr>"
  let ?m = "[example_a \<mapsto> greeted ?t example_a, example_b \<mapsto> greeted ?t example_b]"
  have "m = ?m" "ss = ensure_sessions ?m Map.empty"
    using assms
    by (auto simp: server_receive_def example_env_def server_new_def bind_Some_conv handle_packet_def
        accept_sender_new manager_new_def general_packet_header_read_def)
  moreover have "last_seen (greeted ?t a) = 0" for a by (simp add: greeted_def Let_def)
  ultimately show "dom m = {example_a, example_b}" "dom ss = {example_a, example_b}"
    "\<forall>a c. m a = Some c \<longrightarrow> last_seen c = 0"
    by (auto simp: ensure_sessions_dom split: if_splits)
qed

lemma example_env_orders:
  assumes "server_receive p L (example_env order) server_new = Some (tick, m, ss)"
    and "distinct order" "set order = {example_a, example_b}"
  shows "env_orders (example_env order) m ss"
proof -
  note r = example_env_receive [OF assms(1)]
  have "evict_stale_connections 0 eviction_timeout m a = m a" for a
    using r(3) by (cases "m a")
      (simp_all add: evict_stale_connections_def duration_since_def eviction_timeout_def map_retain_def)
  then have "dom (evict_stale_connections 0 eviction_timeout m) = dom m" by auto
  with r assms(2,3) show ?thesis by (simp add: env_orders_def iter_order_def example_env_def)
qed

lemma example_env_readings: "readings_ok_all (example_env order)"
  by (simp add: readings_ok_all_def readings_ok_def clock_ok_def example_env_def)

theorem server_survives_any_input_witness:
  "\<exists>s' out. server_tick Release plain_libs from_le_bytes (example_env [example_a, example_b]) server_new =
      Some (s', out) \<and> server_ok s' \<and> sv_tick s' = 1"
proof -
  have "\<forall>tick m ss. server_receive Release plain_libs (example_env [example_a, example_b]) server_new =
      Some (tick, m, ss) \<longrightarrow> env_orders (example_env [example_a, example_b]) m ss"
    using example_env_orders [of Release plain_libs "[example_a, example_b]"] by auto
  from server_survives_any_input [OF plain_libs_ok server_new_ok example_env_readings this, of from_le_bytes]
  show ?thesis by (simp add: server_new_def)
qed

text \<open>
  C2: two runs of an iteration that get the same packets and the same clock, but iterate their hash
  maps in different orders, reach the same server state and send every client the same datagrams in
  the same order, in either build profile.
\<close>

theorem server_tick_deterministic:
  assumes "server_ok s" "readings_ok_all env" "same_inputs env env'"
    and "\<forall>tick m ss. server_receive p L env s = Some (tick, m, ss) \<longrightarrow>
      env_orders env m ss \<and> env_orders env' m ss"
    and "server_tick p L hash env s = Some (s1, out1)"
  shows "\<exists>out2. server_tick p L hash env' s = Some (s1, out2) \<and>
    (\<forall>a. filter (\<lambda>(w, b). b = a) out2 = filter (\<lambda>(w, b). b = a) out1)"
proof -
  obtain tick m ss where r: "server_receive p L env s = Some (tick, m, ss)"
    and sim: "server_simulate p L hash env s tick m ss = Some (s1, out1)"
    using assms(5) by (auto simp: server_tick_def bind_Some_conv)
  have "length (positions (sv_world s)) = 1" using assms(1) by (simp add: server_ok_def)
  from server_simulate_order [OF server_receive_ok(1) [OF assms(1,2) r] this _ _ assms(3) sim]
    assms(4) r server_receive_same [OF assms(3), of p L s]
  show ?thesis by (auto simp: server_tick_def)
qed

theorem server_tick_deterministic_witness:
  "\<exists>s1 out1 out2. server_tick Release plain_libs from_le_bytes (example_env [example_a, example_b]) server_new =
      Some (s1, out1) \<and>
    server_tick Release plain_libs from_le_bytes (example_env [example_b, example_a]) server_new =
      Some (s1, out2)"
proof -
  let ?env = "example_env [example_a, example_b]" and ?env' = "example_env [example_b, example_a]"
  have same: "same_inputs ?env ?env'" by (simp add: same_inputs_def example_env_def)
  have orders: "env_orders ?env m ss \<and> env_orders ?env' m ss"
    if "server_receive Release plain_libs ?env server_new = Some (tick, m, ss)" for tick m ss
    using that example_env_orders [of Release plain_libs "[example_a, example_b]"]
      example_env_orders [of Release plain_libs "[example_b, example_a]"]
      server_receive_same [OF same, of Release plain_libs server_new] by auto
  obtain tick m ss where r: "server_receive Release plain_libs ?env server_new = Some (tick, m, ss)"
    using server_receive_total [OF server_new_ok example_env_readings] by (metis prod.collapse)
  note rok = server_receive_ok [OF server_new_ok example_env_readings r]
  have "\<exists>x. server_simulate Release plain_libs from_le_bytes ?env server_new tick m ss = Some x"
    by (rule server_simulate_total [OF plain_libs_ok rok(1,2)])
      (use orders [OF r] in \<open>simp_all add: example_env_def server_new_def\<close>)
  then obtain s1 out1 where "server_tick Release plain_libs from_le_bytes ?env server_new = Some (s1, out1)"
    using r by (auto simp: server_tick_def)
  with server_tick_deterministic [OF server_new_ok example_env_readings same _ this] orders
  show ?thesis by blast
qed

text \<open>
  C3: what an iteration does: the world moves by the combined inputs of all sessions for this tick,
  every session is stepped to this tick, exactly the connections that were heard of within the last
  five seconds survive, and exactly their sessions are kept.
\<close>

theorem server_tick_effect:
  assumes "server_ok s" "readings_ok_all env" "server_receive p L env s = Some (tick, m, ss)"
    and "env_orders env m ss" "server_tick p L hash env s = Some (s', out)"
  shows "sv_tick s' = sv_tick s + 1 \<and>
    (\<exists>inputs. (\<forall>i. bit inputs i \<longleftrightarrow> input_bit (sv_tick s') ss i) \<and>
      sv_world s' = moved inputs (sv_world s) \<and>
      sv_interpolator s' =
        push_snapshot \<lparr>sn_tick = sv_tick s', sn_state = sv_world s'\<rparr> (sv_interpolator s)) \<and>
    dom (sv_manager s') = {a. \<exists>c. m a = Some c \<and>
      duration_since (te_evict_now env) (last_seen c) < 5 * 10 ^ 9} \<and>
    (\<forall>a. sv_sessions s' a = (if a \<in> dom (sv_manager s')
      then map_option (step_session (sv_tick s')) (ss a) else None))"
proof -
  note rok = server_receive_ok [OF assms(1-3)]
  obtain inputs where shape: "\<forall>i. bit inputs i \<longleftrightarrow> input_bit tick ss i"
    "sv_world s' = moved inputs (sv_world s)" "sv_tick s' = tick"
    "dom (sv_manager s') = dom (prepared hash env tick (sv_world s') m ss)"
    "sv_sessions s' = retain_active (prepared hash env tick (sv_world s') m ss) (stepped tick ss)"
    "sv_interpolator s' =
      push_snapshot \<lparr>sn_tick = tick, sn_state = sv_world s'\<rparr> (sv_interpolator s)"
    using server_tick_shape [OF assms] by blast
  let ?m = "prepared hash env tick (sv_world s') m ss"
  have "dom ?m = {a. \<exists>c. m a = Some c \<and>
      duration_since (te_evict_now env) (last_seen c) < 5 * 10 ^ 9}"
    unfolding prepared_def evict_broadcasted_dom
    by (auto simp: evict_stale_connections_def eviction_timeout_def map_retain_def
        split: option.splits if_splits)
  moreover have "retain_active ?m (stepped tick ss) a =
      (if a \<in> dom ?m then map_option (step_session tick) (ss a) else None)" for a
    by (auto simp: retain_active_def map_retain_def stepped_def split: option.split)
  ultimately show ?thesis using shape rok(4) by auto
qed

theorem server_tick_effect_witness:
  "\<exists>s' out. server_tick Release plain_libs from_le_bytes (example_env [example_a, example_b]) server_new =
      Some (s', out) \<and> dom (sv_manager s') = {example_a, example_b} \<and> sv_tick s' = 1"
proof -
  let ?env = "example_env [example_a, example_b]"
  obtain tick m ss where r: "server_receive Release plain_libs ?env server_new = Some (tick, m, ss)"
    using server_receive_total [OF server_new_ok example_env_readings] by (metis prod.collapse)
  note rok = server_receive_ok [OF server_new_ok example_env_readings r]
  have orders: "env_orders ?env m ss" using example_env_orders [OF r] by simp
  have "\<exists>x. server_simulate Release plain_libs from_le_bytes ?env server_new tick m ss = Some x"
    by (rule server_simulate_total [OF plain_libs_ok rok(1,2) _ _ orders])
      (simp_all add: example_env_def server_new_def)
  then obtain s' out where t: "server_tick Release plain_libs from_le_bytes ?env server_new = Some (s', out)"
    using r by (auto simp: server_tick_def)
  have "{a. \<exists>c. m a = Some c \<and> duration_since (te_evict_now ?env) (last_seen c) < 5 * 10 ^ 9} = dom m"
    using example_env_receive(3) [OF r] by (auto simp: example_env_def duration_since_def)
  with server_tick_effect [OF server_new_ok example_env_readings r orders t] t example_env_receive(1) [OF r]
  show ?thesis by (simp add: server_new_def)
qed

end
