(* ===== verification/Client_Sync.thy ===== *)
theory Client_Sync
  imports Client Server_Tick
begin

text \<open>
  What connects the client to the server: the messages of one are read by the other as they were
  written, a rollback re-simulates the recorded inputs from the server's state, and the control of
  the predicted tick drives it into a band around its target.
\<close>

section \<open>Messages\<close>

lemma input_message_read:
  "accept_input sender (input_message t b) ss =
    Some (ss(sender \<mapsto> record_input \<lparr>ip_tick = t, ip_input_bitmask = b\<rparr>
      (case ss sender of None \<Rightarrow> session_new | Some s \<Rightarrow> s)))"
proof -
  let ?pkt = "\<lparr>ip_tick = t, ip_input_bitmask = b\<rparr>"
  have "length (input_packet_as_bytes ?pkt) = 12" by (simp add: input_packet_as_bytes_def)
  moreover have "input_packet_read (input_packet_as_bytes ?pkt) = Some ?pkt"
    using input_wire.read_exact [of ?pkt] by simp
  ultimately show ?thesis
    by (simp add: accept_input_def input_message_def general_packet_header_as_bytes_def
        general_packet_header_read_def slice_def)
qed

lemma snapshot_packet_read:
  assumes "positions w = [pos]"
  shows "snapshot_of (snapshot_packet t h s w) =
      Some (Some \<lparr>sh_tick = t, sh_state_hash = h, sh_last_input_tick = latest_input_tick s\<rparr>)"
    and "read_position (snapshot_packet t h s w) = Some pos"
proof -
  let ?hdr = "\<lparr>sh_tick = t, sh_state_hash = h, sh_last_input_tick = latest_input_tick s\<rparr>"
  have len: "length (snapshot_header_as_bytes ?hdr) = 24"
    by (simp add: snapshot_header_as_bytes_def)
  have read: "snapshot_header_read (snapshot_header_as_bytes ?hdr) = Some ?hdr"
    using snapshot_wire.read_exact [of ?hdr] by simp
  have pkt: "snapshot_packet t h s w = 3 # snapshot_header_as_bytes ?hdr @ vec_bytes pos"
    by (simp add: snapshot_packet_def general_packet_header_as_bytes_def assms)
  show "snapshot_of (snapshot_packet t h s w) = Some (Some ?hdr)"
    using len read by (simp add: snapshot_of_def pkt general_packet_header_read_def slice_def Let_def)
  have d: "drop 25 (snapshot_packet t h s w) = vec_bytes pos"
    using len by (simp add: pkt)
  have "drop 29 (snapshot_packet t h s w) = drop 4 (vec_bytes pos)"
    "drop 33 (snapshot_packet t h s w) = drop 8 (vec_bytes pos)"
    using drop_drop [of 4 25 "snapshot_packet t h s w"] drop_drop [of 8 25 "snapshot_packet t h s w"]
    unfolding d by simp_all
  note d = d this
  have "length (snapshot_packet t h s w) = 37" using len by (simp add: pkt)
  then show "read_position (snapshot_packet t h s w) = Some pos"
    by (simp add: read_position_def slice_def Let_def d) (simp add: vec_bytes_def)
qed

section \<open>Rollback\<close>

definition recorded_input :: "(world_state, u32) history_buffer \<Rightarrow> u64 \<Rightarrow> u32" where
  "recorded_input h t = (case history_get h t of Some (Some r) \<Rightarrow> fr_input r | _ \<Rightarrow> 0)"

primrec resimulated :: "(u64 \<Rightarrow> u32) \<Rightarrow> u64 \<Rightarrow> world_state \<Rightarrow> nat \<Rightarrow> world_state" where
  "resimulated inp t w 0 = w"
| "resimulated inp t w (Suc n) = moved (inp (t + of_nat (Suc n))) (resimulated inp t w n)"

lemma resimulated_length [simp]:
  "length (positions (resimulated inp t w n)) = length (positions w)"
  by (induction n) simp_all

text \<open>The state of a replay after \<open>i\<close> frames.\<close>

definition replayed ::
  "nat \<Rightarrow> hasher \<Rightarrow> u64 \<Rightarrow> world_state \<Rightarrow> (world_state, u32) history_buffer \<Rightarrow> nat
    \<Rightarrow> world_state \<times> (world_state, u32) history_buffer \<Rightarrow> bool" where
  "replayed k hash t w h i wh \<longleftrightarrow>
     fst wh = resimulated (recorded_input h) t w i \<and> history_ok k (snd wh) \<and>
     (\<forall>j\<in>{1..i}. history_get (snd wh) (t + of_nat j) =
        Some (Some (frame_of hash (t + of_nat j) (resimulated (recorded_input h) t w j)))) \<and>
     (\<forall>u. (\<forall>j\<in>{1..i}. unat u mod 2 ^ k \<noteq> unat (t + of_nat j) mod 2 ^ k) \<longrightarrow>
        history_get (snd wh) u = history_get h u)"

lemma unat_add_of_nat: "unat t + j < 2 ^ 64 \<Longrightarrow> unat (t + of_nat j :: u64) = unat t + j"
  using unat_of_nat_small [of j] by (simp add: unat_add_no_wrap)

lemma slots_differ:
  assumes "i < j" "j - i < m"
  shows "(a + i) mod m \<noteq> (a + j) mod (m :: nat)"
proof
  assume "(a + i) mod m = (a + j) mod m"
  then have "m dvd (a + j) - (a + i)"
    using mod_eq_dvd_iff_nat [of "a + i" "a + j" m] assms(1) by simp
  then show False using dvd_imp_le [of m "j - i"] assms by simp
qed

lemma replay_frame_step:
  assumes inv: "replayed k hash t w h i wh" and bounds: "Suc i \<le> 2 ^ k" "unat t + Suc i < 2 ^ 64"
    and w: "positions w \<noteq> []"
  shows "\<exists>wh'. replay_frame Release hash (t + of_nat (Suc i)) wh = Some wh' \<and>
    replayed k hash t w h (Suc i) wh'"
proof -
  let ?inp = "recorded_input h"
  let ?u = "t + of_nat (Suc i)"
  have fst: "fst wh = resimulated ?inp t w i" and ok: "history_ok k (snd wh)"
    and stored: "\<forall>j\<in>{1..i}. history_get (snd wh) (t + of_nat j) =
        Some (Some (frame_of hash (t + of_nat j) (resimulated ?inp t w j)))"
    and kept: "\<forall>u. (\<forall>j\<in>{1..i}. unat u mod 2 ^ k \<noteq> unat (t + of_nat j) mod 2 ^ k) \<longrightarrow>
        history_get (snd wh) u = history_get h u"
    using inv by (auto simp: replayed_def)
  have un: "unat (t + of_nat j) = unat t + j" if "j \<le> Suc i" for j
    using that bounds(2) by (intro unat_add_of_nat) simp
  have slots: "unat (t + of_nat j) mod 2 ^ k \<noteq> unat ?u mod 2 ^ k" if "j \<in> {1..i}" for j
  proof -
    have "j < Suc i" "Suc i - j < 2 ^ k" using that bounds(1) by auto
    from slots_differ [OF this, of "unat t"] show ?thesis
      using un [of j] un [of "Suc i"] that by simp
  qed
  have "history_get (snd wh) ?u = history_get h ?u"
    using kept slots by (metis (no_types))
  moreover obtain r where "history_get (snd wh) ?u = Some r"
    using history_get_total [OF ok] by blast
  ultimately have inp: "(case r of None \<Rightarrow> 0 | Some r \<Rightarrow> fr_input r) = ?inp ?u"
    and get: "history_get (snd wh) ?u = Some r"
    by (auto simp: recorded_input_def split: option.split)
  let ?w = "resimulated ?inp t w (Suc i)"
  have "positions (fst wh) \<noteq> []" using w fst by (metis length_0_conv resimulated_length)
  then have step: "step_physics Release (?inp ?u) (fst wh) = Some ?w"
    using step_physics_total [of "fst wh"] by (simp add: fst)
  obtain h' where ins: "history_insert (frame_of hash ?u ?w) (snd wh) = Some h'"
    and ok': "history_ok k h'"
    using history_insert_total [OF ok] by blast
  have get': "history_get h' v = (if unat v mod 2 ^ k = unat ?u mod 2 ^ k
      then Some (if v = ?u then Some (frame_of hash ?u ?w) else None)
      else history_get (snd wh) v)" for v
    using history_get_insert [OF ok ins, of v] by (simp add: frame_of_def)
  have "replay_frame Release hash ?u wh = Some (?w, h')"
    using get step ins by (simp add: replay_frame_def inp)
  moreover have "replayed k hash t w h (Suc i) (?w, h')"
    unfolding replayed_def fst_conv snd_conv
  proof (intro conjI ballI allI impI ok')
    show "?w = ?w" by (rule refl)
    fix j assume j: "j \<in> {1..Suc i}"
    show "history_get h' (t + of_nat j) =
        Some (Some (frame_of hash (t + of_nat j) (resimulated ?inp t w j)))"
    proof (cases "j = Suc i")
      case True
      then show ?thesis unfolding True using get' [of ?u] by simp
    next
      case False
      then have "j \<in> {1..i}" using j by simp
      with slots [of j] stored get' [of "t + of_nat j"] show ?thesis by simp
    qed
  next
    fix u :: u64
    assume "\<forall>j\<in>{1..Suc i}. unat u mod 2 ^ k \<noteq> unat (t + of_nat j) mod 2 ^ k"
    then have "\<forall>j\<in>{1..i}. unat u mod 2 ^ k \<noteq> unat (t + of_nat j) mod 2 ^ k"
      and "unat u mod 2 ^ k \<noteq> unat ?u mod 2 ^ k" by (auto simp del: of_nat_Suc)
    with kept get' [of u] show "history_get h' u = history_get h u" by simp
  qed
  ultimately show ?thesis by blast
qed

lemma replay_spec:
  assumes "replayed k hash t w h i wh" "i \<le> n" "n \<le> 2 ^ k" "unat t + n < 2 ^ 64"
    and "positions w \<noteq> []"
  shows "\<exists>wh'. replay Release hash (t + of_nat n) (t + of_nat i) wh = Some (t + of_nat n, wh') \<and>
    replayed k hash t w h n wh'"
  using assms(1,2)
proof (induction "n - i" arbitrary: i wh)
  case 0
  then have "i = n" by simp
  with 0 show ?case by (simp add: replay.simps)
next
  case (Suc d)
  then have i: "Suc i \<le> n" by simp
  obtain wh1 where step: "replay_frame Release hash (t + of_nat (Suc i)) wh = Some wh1"
    and inv: "replayed k hash t w h (Suc i) wh1"
    using replay_frame_step [OF Suc.prems(1) _ _ assms(5)] i assms(3,4) by auto
  obtain wh' where rec: "replay Release hash (t + of_nat n) (t + of_nat (Suc i)) wh1 =
      Some (t + of_nat n, wh')" "replayed k hash t w h n wh'"
  proof -
    have "d = n - Suc i" using Suc.hyps(2) by simp
    from Suc.hyps(1) [OF this inv i] show thesis using that by blast
  qed
  have "t + of_nat i < t + of_nat n"
    using i assms(4) by (simp add: word_less_nat_alt unat_add_of_nat)
  moreover have next_tick: "t + of_nat i + 1 = t + of_nat (Suc i)" by simp
  ultimately have "replay Release hash (t + of_nat n) (t + of_nat i) wh = Some (t + of_nat n, wh')"
    using step rec(1) unfolding replay.simps [of _ _ _ "t + of_nat i"] next_tick by simp
  with rec(2) show ?case by blast
qed

lemma replayed_start: "history_ok k h \<Longrightarrow> replayed k hash t w h 0 (w, h)"
  by (simp add: replayed_def)

text \<open>
  A rollback to the state of tick \<open>t\<close>: the client is three ticks ahead of it, its world is the
  server's state stepped with the inputs recorded for those ticks, and the history holds the new
  frames of those ticks and is otherwise as it was, where no slot was reused.
\<close>

lemma rollback_spec:
  assumes "history_ok k (cl_history c)" "2 \<le> k" "unat t + 3 < 2 ^ 64"
  shows "\<exists>h'. rollback Release hash t pos c = Some (c\<lparr>cl_rollbacks := cl_rollbacks c + 1,
      cl_world := resimulated (recorded_input (cl_history c)) t \<lparr>positions = [pos]\<rparr> 3,
      cl_history := h', cl_predicted_tick := t + 3\<rparr>) \<and>
    replayed k hash t \<lparr>positions = [pos]\<rparr> (cl_history c) 3
      (resimulated (recorded_input (cl_history c)) t \<lparr>positions = [pos]\<rparr> 3, h')"
proof -
  have "(3 :: nat) \<le> 2 ^ k"
    using power_increasing [OF assms(2), of "2 :: nat"] by simp
  then obtain wh' where r: "replay Release hash (t + 3) t (\<lparr>positions = [pos]\<rparr>, cl_history c) =
      Some (t + 3, wh')" and inv: "replayed k hash t \<lparr>positions = [pos]\<rparr> (cl_history c) 3 wh'"
    using replay_spec [OF replayed_start [OF assms(1)], of 3 t "\<lparr>positions = [pos]\<rparr>" hash] assms(3)
    by auto
  obtain w' h' where wh': "wh' = (w', h')" by (cases wh')
  have "w' = resimulated (recorded_input (cl_history c)) t \<lparr>positions = [pos]\<rparr> 3"
    using inv by (simp add: replayed_def wh')
  with r inv show ?thesis by (auto simp: rollback_def wh' Let_def)
qed

section \<open>Reconciliation\<close>

text \<open>What a snapshot leaves alone when it is not followed by a rollback.\<close>

definition same_prediction :: "client \<Rightarrow> client \<Rightarrow> bool" where
  "same_prediction c c' \<longleftrightarrow>
     cl_world c' = cl_world c \<and> cl_history c' = cl_history c \<and> cl_manager c' = cl_manager c \<and>
     cl_predicted_tick c' = cl_predicted_tick c \<and> cl_rollbacks c' = cl_rollbacks c"

lemma reconcile_snapshot:
  assumes "positions w = [pos]" "history_get (cl_history c) t = Some (Some r)"
  shows "\<exists>c2. cl_last_server_tick c2 = t \<and> same_prediction c c2 \<and>
    reconcile p hash now (snapshot_packet t (calculate_hash hash w) s w) c =
      (if fr_state_hash r \<noteq> calculate_hash hash w then rollback p hash t pos c2 else Some c2)"
proof -
  define c1 where "c1 = note_rtt now (latest_input_tick s) (c\<lparr>cl_last_server_tick := t\<rparr>)"
  define c2 where "c2 = c1\<lparr>cl_interpolator :=
    push_snapshot \<lparr>sn_tick = t, sn_state = \<lparr>positions = [pos]\<rparr>\<rparr> (cl_interpolator c1)\<rparr>"
  have f: "cl_last_server_tick c2 = t" "same_prediction c c2"
    by (simp_all add: c2_def c1_def note_rtt_def same_prediction_def split: option.split)
  then have "reconcile p hash now (snapshot_packet t (calculate_hash hash w) s w) c =
      (if fr_state_hash r \<noteq> calculate_hash hash w then rollback p hash t pos c2 else Some c2)"
    using snapshot_packet_read [OF assms(1), of t "calculate_hash hash w" s] assms(2)
    by (simp add: reconcile_def Let_def c2_def c1_def same_prediction_def)
  with f show ?thesis by blast
qed

lemma snapshot_deliverable: "deliverable \<lparr>ps_data = snapshot_packet t h s w, ps_reliable = False\<rparr>"
  by (simp add: deliverable_def snapshot_packet_def general_packet_header_as_bytes_def
      general_packet_header_read_def)

text \<open>What the synchronisation loop makes of a snapshot.\<close>

definition synchronised :: "client_env \<Rightarrow> manager \<Rightarrow> u64 \<Rightarrow> world_state \<Rightarrow> client \<Rightarrow> client" where
  "synchronised env m t w cl = cl
     \<lparr>cl_last_seen_packet := ce_poll_now env, cl_manager := m, cl_world := w, cl_last_server_tick := t,
      cl_predicted_tick := t + 3,
      cl_interpolator := push_snapshot \<lparr>sn_tick = t, sn_state = w\<rparr> (cl_interpolator cl)\<rparr>"

lemma sync_snapshot:
  assumes "carries L c (\<lparr>ps_data = snapshot_packet t h s w, ps_reliable = False\<rparr>, n) wire"
    and "cl_manager cl srv = Some d" "conn_pipeline d = conn_pipeline c" "positions w = [pos]"
    and "ce_poll env = Inr [(wire, srv)]"
  shows "\<exists>m. handle_packet Release L (ce_clock env 0) srv wire (cl_manager cl) =
      Some (m, Some (snapshot_packet t h s w)) \<and>
    sync_step Release L addr env cl = Some (synchronised env m t w cl, True, [])"
proof -
  obtain m where "handle_packet Release L (ce_clock env 0) srv wire (cl_manager cl) =
      Some (m, Some (snapshot_packet t h s w))"
    using handle_carried [OF assms(1) snapshot_deliverable, of "cl_manager cl" srv d "ce_clock env 0"]
      assms(2,3) by auto
  moreover have "\<lparr>positions = [pos]\<rparr> = w" using assms(4) by simp
  ultimately show ?thesis
    using snapshot_packet_read [OF assms(4), of t h s] assms(5)
    by (simp add: sync_step_def sync_app_data_def synchronised_def Let_def)
qed

section \<open>Snapshots that are too short\<close>

definition short_snapshot :: "bytes \<Rightarrow> bool" where
  "short_snapshot d \<longleftrightarrow> (case general_packet_header_read d of
     None \<Rightarrow> False | Some g \<Rightarrow> gh_packet_type g = packet_type_code Snapshot \<and> length d < 37)"

lemma short_snapshot_None:
  assumes "short_snapshot d"
  shows "reconcile p hash now d c = None" "sync_app_data p d cs = None"
proof -
  obtain g where g: "general_packet_header_read d = Some g"
    "gh_packet_type g = packet_type_code Snapshot" "length d < 37"
    using assms by (auto simp: short_snapshot_def split: option.splits)
  have "slice 33 37 d = None" using g(3) by (simp add: slice_eq_None)
  then have pos: "read_position d = None" by (auto simp: read_position_def Let_def split: bind_splits)
  have "snapshot_of d = None \<or> (\<exists>hdr. snapshot_of d = Some (Some hdr))"
    using g(1,2) snapshot_wire.read_total [of "take 24 (drop 1 d)"]
    by (auto simp: snapshot_of_def slice_def Let_def)
  then show "reconcile p hash now d c = None" "sync_app_data p d cs = None"
    by (auto simp: reconcile_def sync_app_data_def pos Let_def)
qed

lemma read_position_total: "37 \<le> length d \<Longrightarrow> \<exists>pos. read_position d = Some pos"
  by (simp add: read_position_def slice_def Let_def general_packet_header_size_def
      snapshot_header_size_def)

lemma snapshot_of_total:
  assumes "\<not> short_snapshot d"
  shows "\<exists>hdr. snapshot_of d = Some hdr \<and> (hdr \<noteq> None \<longrightarrow> 37 \<le> length d)"
  using assms
  by (auto simp: snapshot_of_def short_snapshot_def slice_def Let_def general_packet_header_size_def
      snapshot_header_size_def split: option.splits)

section \<open>Properties\<close>

text \<open>
  A snapshot that the server flushes to a client arrives as it was made: the client's manager hands
  on the same bytes, and the client reads from them the tick, the hash of the server's world, the
  latest input tick of its session and the position.
\<close>

theorem snapshot_reaches_client:
  assumes "carries L c (\<lparr>ps_data = snapshot_packet t h s w, ps_reliable = False\<rparr>, n) wire"
    and "m srv = Some d" "conn_pipeline d = conn_pipeline c" "positions w = [pos]"
  shows "\<exists>m'. handle_packet Release L clock srv wire m = Some (m', Some (snapshot_packet t h s w)) \<and>
    snapshot_of (snapshot_packet t h s w) =
      Some (Some \<lparr>sh_tick = t, sh_state_hash = h, sh_last_input_tick = latest_input_tick s\<rparr>) \<and>
    read_position (snapshot_packet t h s w) = Some pos"
proof -
  show ?thesis
    using handle_carried [OF assms(1) snapshot_deliverable, of m srv d clock] assms(2,3)
      snapshot_packet_read [OF assms(4)] by auto
qed

theorem snapshot_reaches_client_witness:
  "\<exists>wire m'. wire = 3 # to_le_bytes 8 (1 :: u64) @
      tl (snapshot_packet 9 77 session_new \<lparr>positions = [\<lparr>vx = 5, vy = 6, vz = 7\<rparr>]\<rparr>) \<and>
    handle_packet Release plain_libs
      \<lparr>cr_new_state = 0, cr_new_seen = 0, cr_last_seen = 0, cr_elapsed = 5, cr_incoming = 0\<rparr>
      example_a wire [example_a \<mapsto> connection_new example_a False NullPipeline 0 0] =
      Some (m', Some (snapshot_packet 9 77 session_new \<lparr>positions = [\<lparr>vx = 5, vy = 6, vz = 7\<rparr>]\<rparr>))"
proof -
  let ?w = "\<lparr>positions = [\<lparr>vx = 5, vy = 6, vz = 7\<rparr>]\<rparr>"
  let ?c = "connection_new example_a False NullPipeline 0 0"
  let ?pkt = "snapshot_packet 9 77 session_new ?w"
  let ?wire = "3 # to_le_bytes 8 (1 :: u64) @ tl ?pkt"
  have "?pkt = 3 # tl ?pkt"
    by (simp add: snapshot_packet_def general_packet_header_as_bytes_def)
  then have "carries plain_libs ?c (\<lparr>ps_data = ?pkt, ps_reliable = False\<rparr>, 1) ?wire"
    unfolding carries_def by (auto simp: null_inverse_process_def)
  from snapshot_reaches_client [OF this, of "[example_a \<mapsto> ?c]" example_a ?c "\<lparr>vx = 5, vy = 6, vz = 7\<rparr>"]
  show ?thesis by auto
qed

text \<open>
  C25: an input message that a client flushes is recorded by the server's session for that client under
  its tick, with its bits, and becomes the latest input tick, which the next snapshot reports back.
\<close>

theorem input_reaches_session:
  assumes "carries L c (\<lparr>ps_data = input_message t b, ps_reliable = False\<rparr>, n) wire"
    and "m cli = Some d" "conn_pipeline d = conn_pipeline c"
  shows "\<exists>m' s'. ingest Release L clock i [(wire, cli)] m ss = Some (m', ss(cli \<mapsto> s')) \<and>
    input_buffer s' t = Some b \<and> latest_input_tick s' = t \<and>
    (\<forall>u. u \<noteq> t \<longrightarrow> input_buffer s' u =
      input_buffer (case ss cli of None \<Rightarrow> session_new | Some s \<Rightarrow> s) u) \<and>
    last_known_input s' = last_known_input (case ss cli of None \<Rightarrow> session_new | Some s \<Rightarrow> s)"
proof -
  let ?ps = "\<lparr>ps_data = input_message t b, ps_reliable = False\<rparr>"
  have "deliverable ?ps"
    by (simp add: deliverable_def input_message_def general_packet_header_as_bytes_def
        general_packet_header_read_def)
  with handle_carried [OF assms(1), of m cli d "clock i"] assms(2,3)
  show ?thesis
    by (auto simp: input_message_read record_input_def
        intro!: exI [of _ "(case ss cli of None \<Rightarrow> session_new | Some s \<Rightarrow> s)
          \<lparr>input_buffer := (input_buffer (case ss cli of None \<Rightarrow> session_new | Some s \<Rightarrow> s))(t \<mapsto> b),
           latest_input_tick := t\<rparr>"])
qed

theorem input_reaches_session_witness:
  "\<exists>wire m' s'. wire = 4 # to_le_bytes 8 (0 :: u64) @ tl (input_message 12 1) \<and>
    ingest Release plain_libs
      (\<lambda>i. \<lparr>cr_new_state = 0, cr_new_seen = 0, cr_last_seen = 0, cr_elapsed = 5, cr_incoming = 0\<rparr>) 0
      [(wire, example_a)] [example_a \<mapsto> connection_new example_a True NullPipeline 0 0] Map.empty =
      Some (m', Map.empty(example_a \<mapsto> s')) \<and> input_buffer s' 12 = Some 1"
proof -
  let ?c = "connection_new example_a True NullPipeline 0 0"
  let ?wire = "4 # to_le_bytes 8 (0 :: u64) @ tl (input_message 12 1)"
  have "input_message 12 1 = 4 # tl (input_message 12 1)"
    by (simp add: input_message_def general_packet_header_as_bytes_def)
  then have "carries plain_libs ?c (\<lparr>ps_data = input_message 12 1, ps_reliable = False\<rparr>, 0) ?wire"
    unfolding carries_def by (auto simp: null_inverse_process_def)
  from input_reaches_session [OF this, of "[example_a \<mapsto> ?c]" example_a ?c _ 0 Map.empty]
  show ?thesis by fastforce
qed

text \<open>
  C7: when a snapshot for a recorded tick arrives, the client keeps its prediction if its recorded hash
  is the server's; otherwise it goes three ticks past the snapshot: its world is the server's state
  stepped with the inputs it had recorded for these ticks, and its history holds the new frames.
\<close>

theorem snapshot_confirms_or_corrects:
  assumes "history_ok k (cl_history c)" "2 \<le> k" "unat t + 3 < 2 ^ 64" "positions w = [pos]"
    and "history_get (cl_history c) t = Some (Some r)"
  shows "\<exists>c'. reconcile Release hash now (snapshot_packet t (calculate_hash hash w) s w) c = Some c' \<and>
    cl_last_server_tick c' = t \<and> cl_manager c' = cl_manager c \<and>
    (if fr_state_hash r = calculate_hash hash w
     then cl_world c' = cl_world c \<and> cl_history c' = cl_history c \<and>
       cl_predicted_tick c' = cl_predicted_tick c \<and> cl_rollbacks c' = cl_rollbacks c
     else cl_world c' = resimulated (recorded_input (cl_history c)) t w 3 \<and>
       cl_predicted_tick c' = t + 3 \<and> cl_rollbacks c' = cl_rollbacks c + 1 \<and>
       (\<forall>j\<in>{1..3}. history_get (cl_history c') (t + of_nat j) =
          Some (Some (frame_of hash (t + of_nat j)
            (resimulated (recorded_input (cl_history c)) t w j)))))"
proof -
  let ?d = "snapshot_packet t (calculate_hash hash w) s w"
  have w: "w = \<lparr>positions = [pos]\<rparr>" using assms(4) by simp
  obtain c2 where f: "cl_last_server_tick c2 = t" "same_prediction c c2"
    and rec: "reconcile Release hash now ?d c =
      (if fr_state_hash r \<noteq> calculate_hash hash w then rollback Release hash t pos c2 else Some c2)"
    using reconcile_snapshot [OF assms(4,5)] by blast
  show ?thesis
  proof (cases "fr_state_hash r = calculate_hash hash w")
    case True
    with rec f show ?thesis by (simp add: same_prediction_def)
  next
    case False
    have "history_ok k (cl_history c2)" using assms(1) f(2) by (simp add: same_prediction_def)
    from rollback_spec [OF this assms(2,3), of hash pos] False rec f show ?thesis
      by (auto simp: replayed_def w same_prediction_def)
  qed
qed

theorem snapshot_confirms_or_corrects_witness:
  "\<exists>h c0 c'. history_insert \<lparr>fr_tick = 5, fr_state = \<lparr>positions = [\<lparr>vx = 1, vy = 0, vz = 0\<rparr>]\<rparr>,
      fr_state_hash = 99, fr_input = 1\<rparr> \<lparr>hb_buffer = replicate 128 None, hb_mask = 127\<rparr> = Some h \<and>
    client_new 0 = Some c0 \<and>
    reconcile Release (\<lambda>bs. 42) 0 (snapshot_packet 5 42 session_new \<lparr>positions = [\<lparr>vx = 7, vy = 0, vz = 0\<rparr>]\<rparr>)
      (c0\<lparr>cl_history := h\<rparr>) = Some c' \<and> cl_predicted_tick c' = 5 + 3"
proof -
  let ?r = "\<lparr>fr_tick = 5, fr_state = \<lparr>positions = [\<lparr>vx = 1, vy = 0, vz = 0\<rparr>]\<rparr>,
      fr_state_hash = 99, fr_input = 1 :: u32\<rparr>"
  let ?h = "\<lparr>hb_buffer = replicate 128 None, hb_mask = 127\<rparr>"
  obtain c0 where c0: "client_new 0 = Some c0" by (simp add: client_new_def client_history_new(1))
  obtain h where h: "history_insert ?r ?h = Some h" "history_ok 7 h"
    using history_insert_total [OF client_history_new(2)] by blast
  have "history_get h 5 = Some (Some ?r)"
    using history_get_insert [OF client_history_new(2) h(1), of 5] by simp
  with snapshot_confirms_or_corrects [of 7 "c0\<lparr>cl_history := h\<rparr>" 5
      "\<lparr>positions = [\<lparr>vx = 7, vy = 0, vz = 0\<rparr>]\<rparr>" "\<lparr>vx = 7, vy = 0, vz = 0\<rparr>" ?r "\<lambda>bs. 42" 0 session_new] h(2)
  obtain c' where "reconcile Release (\<lambda>bs. 42) 0
      (snapshot_packet 5 42 session_new \<lparr>positions = [\<lparr>vx = 7, vy = 0, vz = 0\<rparr>]\<rparr>) (c0\<lparr>cl_history := h\<rparr>) = Some c'"
    "cl_predicted_tick c' = 5 + 3"
    by (auto simp: calculate_hash_def)
  with h(1) c0 show ?thesis by blast
qed

text \<open>
  A snapshot packet that is too short for its header and position makes the client panic, in both
  loops and in either build profile: the slices are taken without looking at the length.
\<close>

theorem short_snapshot_panics:
  assumes "general_packet_header_read d = Some g" "gh_packet_type g = packet_type_code Snapshot"
    and "length d < 37"
  shows "reconcile p hash now d c = None \<and> sync_app_data p d cs = None"
  using short_snapshot_None [of d] assms by (simp add: short_snapshot_def)

theorem short_snapshot_panics_witness:
  "\<forall>c cs. reconcile Release from_le_bytes 0 [3, 0, 0] c = None \<and> sync_app_data Release [3, 0, 0] cs = None"
  by (intro allI short_snapshot_panics [of _ "\<lparr>gh_packet_type = 3\<rparr>"])
    (simp_all add: general_packet_header_read_def)

text \<open>
  The first snapshot of the server ends the synchronisation loop: the client takes over the
  server's world, goes three ticks past the snapshot, gives the snapshot to the interpolator, and
  leaves its history alone; it sends nothing in that round.
\<close>

theorem first_snapshot_synchronises:
  assumes "carries L c (\<lparr>ps_data = snapshot_packet t h s w, ps_reliable = False\<rparr>, n) wire"
    and "cl_manager cl srv = Some d" "conn_pipeline d = conn_pipeline c" "positions w = [pos]"
    and "ce_poll env = Inr [(wire, srv)]"
  shows "\<exists>cl'. sync_step Release L addr env cl = Some (cl', True, []) \<and>
    cl_world cl' = w \<and> cl_last_server_tick cl' = t \<and> cl_predicted_tick cl' = t + 3 \<and>
    cl_interpolator cl' = push_snapshot \<lparr>sn_tick = t, sn_state = w\<rparr> (cl_interpolator cl) \<and>
    cl_history cl' = cl_history cl"
  using sync_snapshot [OF assms, of addr] by (auto simp: synchronised_def)

theorem first_snapshot_synchronises_witness:
  "\<exists>cl wire cl'. client_new 0 = Some cl \<and>
    wire = 3 # to_le_bytes 8 (1 :: u64) @
      tl (snapshot_packet 9 77 session_new \<lparr>positions = [\<lparr>vx = 5, vy = 6, vz = 7\<rparr>]\<rparr>) \<and>
    sync_step Release plain_libs example_a
      \<lparr>ce_poll = Inr [(wire, example_a)],
       ce_clock = (\<lambda>i. \<lparr>cr_new_state = 0, cr_new_seen = 0, cr_last_seen = 0, cr_elapsed = 5, cr_incoming = 0\<rparr>),
       ce_packet_now = (\<lambda>i. 0), ce_poll_now = 0, ce_check_now = 0, ce_send_now = 0,
       ce_step_now = (\<lambda>i. 0), ce_flush_now = 0, ce_seen_now = 0, ce_flush_order = []\<rparr>
      (cl\<lparr>cl_manager := [example_a \<mapsto> connection_new example_a False NullPipeline 0 0]\<rparr>) =
      Some (cl', True, []) \<and> cl_predicted_tick cl' = 9 + 3"
proof -
  let ?w = "\<lparr>positions = [\<lparr>vx = 5, vy = 6, vz = 7\<rparr>]\<rparr>"
  let ?c = "connection_new example_a False NullPipeline 0 0"
  let ?pkt = "snapshot_packet 9 77 session_new ?w"
  let ?wire = "3 # to_le_bytes 8 (1 :: u64) @ tl ?pkt"
  let ?env = "\<lparr>ce_poll = Inr [(?wire, example_a)],
       ce_clock = (\<lambda>i. \<lparr>cr_new_state = 0, cr_new_seen = 0, cr_last_seen = 0, cr_elapsed = 5, cr_incoming = 0\<rparr>),
       ce_packet_now = (\<lambda>i. 0), ce_poll_now = 0, ce_check_now = 0, ce_send_now = 0,
       ce_step_now = (\<lambda>i. 0), ce_flush_now = 0, ce_seen_now = 0, ce_flush_order = []\<rparr>"
  have pkt: "?pkt = 3 # tl ?pkt"
    by (simp add: snapshot_packet_def general_packet_header_as_bytes_def)
  then have carr: "carries plain_libs ?c (\<lparr>ps_data = ?pkt, ps_reliable = False\<rparr>, 1) ?wire"
    unfolding carries_def by (auto simp: null_inverse_process_def)
  obtain cl where cl: "client_new 0 = Some cl" by (simp add: client_new_def client_history_new(1))
  have "\<exists>cl'. sync_step Release plain_libs example_a ?env (cl\<lparr>cl_manager := [example_a \<mapsto> ?c]\<rparr>) =
      Some (cl', True, []) \<and> cl_world cl' = ?w \<and> cl_last_server_tick cl' = 9 \<and>
      cl_predicted_tick cl' = 9 + 3 \<and>
      cl_interpolator cl' = push_snapshot \<lparr>sn_tick = 9, sn_state = ?w\<rparr>
        (cl_interpolator (cl\<lparr>cl_manager := [example_a \<mapsto> ?c]\<rparr>)) \<and>
      cl_history cl' = cl_history (cl\<lparr>cl_manager := [example_a \<mapsto> ?c]\<rparr>)"
    by (rule first_snapshot_synchronises [OF carr, where d = ?c and pos = "\<lparr>vx = 5, vy = 6, vz = 7\<rparr>"])
      simp_all
  with cl show ?thesis by blast
qed

end
