(* ===== verification/Establish.thy ===== *)
theory Establish
  imports Client_Sync
begin

text \<open>
  How a session starts: a client that knows only the server's address, and a server that has never
  heard of the client, end with the same session key after one exchange. And what the first flush of
  the server does with the cipher nonces.
\<close>

section \<open>The two ends of the first exchange\<close>

definition hello :: bytes where
  "hello = input_message 0 0"

lemma length_hello: "length hello = 13"
  by (simp add: hello_def input_message_def general_packet_header_as_bytes_def
      input_packet_as_bytes_def)

lemma hello_handshake: "handshake_in hello = None"
  by (simp add: hello_def input_message_def general_packet_header_as_bytes_def)

text \<open>The client's connection once the hello is queued, and its flush.\<close>

definition caller :: "sock_addr \<Rightarrow> instant \<Rightarrow> instant \<Rightarrow> connection" where
  "caller srv t1 t2 =
     (connection_new srv False static_pipeline t1 t2)
       \<lparr>pending_queue := [\<lparr>ps_data = hello, ps_reliable = True\<rparr>], pending_bytes := 13\<rparr>"

lemma send_hello:
  "send_to_client p t1 t2 srv hello True False manager_new = Some [srv \<mapsto> caller srv t1 t2]"
  by (simp add: send_to_client_def manager_new_def fresh_connection_eq queue_pending_send_def Let_def
      connection_new_def caller_def checked_simps length_hello)

lemma caller_ok: "connection_ok (caller srv t1 t2)"
  by (simp add: caller_def connection_new_def connection_ok_defs pipeline_ok_def static_poc_key_def
      rtt_ok_new sent_ok_new length_hello)

lemma caller_flush:
  assumes "libs_ok L" "0 \<le> now"
  shows "\<exists>c' w. connection_update Release L now (caller srv t1 t2) = Some (c', [w]) \<and>
    carries L (caller srv t1 t2) (\<lparr>ps_data = hello, ps_reliable = True\<rparr>, ucast (1 :: u16)) w \<and>
    conn_pipeline c' = static_pipeline"
proof -
  let ?c = "caller srv t1 t2"
  have q: "pending_queue ?c = [\<lparr>ps_data = hello, ps_reliable = True\<rparr>]"
    and st: "next_outgoing_sequence (conn_state ?c) = 1" "conn_pipeline ?c = static_pipeline"
      "pending_pipeline_swap ?c = None" "unacknowledged_packets (conn_state ?c) = []"
    by (simp_all add: caller_def reliable_new_def)
  have "list_all sendable (pending_queue ?c)" by (simp add: q sendable_def)
  moreover have "nonce_room Release (pending_queue ?c) (tx_nonce ?c)" by (simp add: nonce_room_def)
  ultimately show ?thesis
    using connection_update_spec [OF assms(1) caller_ok _ assms(2) _ no_unacked_no_resends [OF st(4)],
        of Release] st
    by (fastforce simp: q list_all2_Cons1)
qed

text \<open>The server's connection after the hello is the greeting one, with one packet received.\<close>

lemma server_takes_hello:
  assumes "carries L c (\<lparr>ps_data = hello, ps_reliable = True\<rparr>, ucast (1 :: u16)) w"
    and "conn_pipeline c = static_pipeline" "m addr = None" "readings_ok t"
  shows "\<exists>d. handle_packet Release L t addr w m = Some (m(addr \<mapsto> d), Some hello) \<and>
    greeting (handshake_key (sa_ip addr) (cr_elapsed t)) d [] \<and> connection_ok d \<and>
    conn_pipeline d = static_pipeline"
proof -
  let ?g = "greeted t addr"
  obtain st b where st: "process_incoming_header Release
      \<lparr>rh_sequence = 1, rh_ack = highest_received_sequence (conn_state c),
       rh_ack_bitfield = received_sequence_bitfield (conn_state c)\<rparr> (cr_incoming t) (conn_state ?g) =
      Some (st, b)"
    using process_incoming_header_total by (metis surj_pair)
  have g: "conn_pipeline ?g = static_pipeline" "unacknowledged_packets (conn_state ?g) = []"
    by (simp_all add: greeted_def Let_def reliable_new_def)
  have "unacknowledged_packets st = []"
    using st g(2) update_receive_window_frame(1)
    by (fastforce simp: process_incoming_header_def)
  then have greet: "greeting (handshake_key (sa_ip addr) (cr_elapsed t)) (?g\<lparr>conn_state := st\<rparr>) []"
    using greeted_greeting [of addr t] by (simp add: greeting_def)
  have rtt: "rtt_ok st" "sent_ok st"
    using process_incoming_header_ok [OF _ _ _ st] greeted_ok(1) [of t addr] assms(4)
    by (simp_all add: connection_ok_def readings_ok_def)
  then have ok: "connection_ok (?g\<lparr>conn_state := st\<rparr>)"
    using greeted_ok(1) [of t addr] by (simp add: connection_ok_defs)
  obtain h body where "w = 1 # reliability_packet_header_as_bytes h @ body"
    by (rule carries_reliableD [OF assms(1)]) auto
  then have "general_packet_header_read w = Some \<lparr>gh_packet_type = 1\<rparr>"
    by (simp add: general_packet_header_read_def)
  moreover have "receive_reliable Release L (cr_incoming t) w ?g =
      Some (?g\<lparr>conn_state := st\<rparr>, Some hello)"
    using receive_carried_reliable [OF assms(1), of ?g Release "cr_incoming t" st b] st g(1) assms(2)
    by (simp add: hello_handshake)
  ultimately have "handle_packet Release L t addr w m =
      Some (m(addr \<mapsto> ?g\<lparr>conn_state := st\<rparr>), Some hello)"
    using assms(3) by (simp add: handle_packet_def accept_sender_new)
  with greet ok g(1) show ?thesis by auto
qed

text \<open>The first round of a client that has heard nothing for longer than the timeout.\<close>

lemma hello_step:
  assumes "libs_ok L" "client_new start = Some c0"
    and env1: "ce_poll env1 = Inr []" "sync_timeout < duration_since (ce_check_now env1) start"
      "ce_flush_order env1 = [srv]" "0 \<le> ce_flush_now env1"
  shows "\<exists>e w1. carries L (caller srv (ce_send_now env1) (ce_send_now env1))
      (\<lparr>ps_data = hello, ps_reliable = True\<rparr>, ucast (1 :: u16)) w1 \<and> conn_pipeline e = static_pipeline \<and>
    sync_step Release L srv env1 c0 = Some (c0\<lparr>cl_manager := [srv \<mapsto> e],
      cl_last_seen_packet := ce_seen_now env1\<rparr>, False, [(w1, srv)])"
proof -
  let ?t1 = "ce_send_now env1"
  have c0: "cl_manager c0 = manager_new" "cl_last_seen_packet c0 = start"
    using assms(2) by (auto simp: client_new_def client_history_new(1))
  obtain e w1 where e: "connection_update Release L (ce_flush_now env1) (caller srv ?t1 ?t1) = Some (e, [w1])"
    "carries L (caller srv ?t1 ?t1) (\<lparr>ps_data = hello, ps_reliable = True\<rparr>, ucast (1 :: u16)) w1"
    "conn_pipeline e = static_pipeline"
    using caller_flush [OF assms(1) env1(4)] by blast
  then have "sync_step Release L srv env1 c0 = Some (c0\<lparr>cl_manager := [srv \<mapsto> e],
      cl_last_seen_packet := ce_seen_now env1\<rparr>, False, [(w1, srv)])"
    using env1 send_hello [of Release ?t1 ?t1 srv] by (simp add: sync_step_def c0 hello_def)
  with e show ?thesis by blast
qed

section \<open>Properties\<close>

text \<open>
  C6: how a session starts. A client that was started and has heard nothing for a second sends its
  hello; a server that does not know the client creates a session, hands the hello to its application
  and answers; the answer makes the client authenticated and is not handed to its application. Each
  peer sends exactly one datagram, and both end with the pipeline of the same 32-byte session key.
\<close>

theorem session_established:
  assumes "libs_ok L" "client_new start = Some c0" "readings_ok t" "0 \<le> now2"
    and env1: "ce_poll env1 = Inr []" "sync_timeout < duration_since (ce_check_now env1) start"
      "ce_flush_order env1 = [srv]" "0 \<le> ce_flush_now env1"
    and env2: "duration_since (ce_check_now env2) (ce_poll_now env2) \<le> sync_timeout"
  shows "\<exists>c1 w1 sm1 sm2 w2 c2 s d key.
    sync_step Release L srv env1 c0 = Some (c1, False, [(w1, srv)]) \<and>
    handle_packet Release L t cli w1 manager_new = Some (sm1, Some hello) \<and>
    flush_all Release L now2 [cli] sm1 = Some (sm2, [(w2, cli)]) \<and>
    sync_step Release L srv (env2\<lparr>ce_poll := Inr [(w2, srv)]\<rparr>) c1 = Some (c2, False, []) \<and>
    sm2 cli = Some s \<and> cl_manager c2 srv = Some d \<and> is_authenticated d \<and> length key = 32 \<and>
    conn_pipeline s = key_pipeline key \<and> conn_pipeline d = key_pipeline key"
proof -
  let ?t1 = "ce_send_now env1" and ?t2 = "ce_clock env2 0"
  let ?key = "handshake_key (sa_ip cli) (cr_elapsed t)"
  obtain e w1 where e: "carries L (caller srv ?t1 ?t1) (\<lparr>ps_data = hello, ps_reliable = True\<rparr>, ucast (1 :: u16)) w1"
    "conn_pipeline e = static_pipeline"
    "sync_step Release L srv env1 c0 = Some (c0\<lparr>cl_manager := [srv \<mapsto> e],
      cl_last_seen_packet := ce_seen_now env1\<rparr>, False, [(w1, srv)])"
    using hello_step [OF assms(1,2) env1] by blast
  let ?c1 = "c0\<lparr>cl_manager := [srv \<mapsto> e], cl_last_seen_packet := ce_seen_now env1\<rparr>"
  obtain g where g: "handle_packet Release L t cli w1 manager_new = Some (manager_new(cli \<mapsto> g), Some hello)"
    "greeting ?key g []" "connection_ok g" "conn_pipeline g = static_pipeline"
    using server_takes_hello [OF e(1) _ _ assms(3), where m = manager_new and addr = cli]
    by (auto simp: caller_def manager_new_def)
  obtain s w2 e' where s: "connection_update Release L now2 g = Some (s, [w2])"
    "handle_packet Release L ?t2 srv w2 [srv \<mapsto> e] = Some ([srv \<mapsto> e'], None)"
    "is_authenticated e'" "conn_pipeline e' = key_pipeline ?key" "conn_pipeline s = key_pipeline ?key"
    using greeting_received [OF assms(1) g(3) assms(4) g(2), of "[srv \<mapsto> e]" srv e ?t2] e(2) g(4)
    by auto
  have "sync_step Release L srv (env2\<lparr>ce_poll := Inr [(w2, srv)]\<rparr>) ?c1 =
      Some (?c1\<lparr>cl_last_seen_packet := ce_poll_now env2, cl_manager := [srv \<mapsto> e']\<rparr>, False, [])"
    using s(2) env2 by (simp add: sync_step_def not_less)
  moreover have "flush_all Release L now2 [cli] (manager_new(cli \<mapsto> g)) =
      Some (manager_new(cli \<mapsto> g, cli \<mapsto> s), [(w2, cli)])"
    by (simp add: s(1))
  ultimately show ?thesis
    using e(3) g(1) s by fastforce
qed

definition silent_env :: "instant \<Rightarrow> sock_addr \<Rightarrow> client_env" where
  "silent_env now srv =
     \<lparr>ce_poll = Inr [],
      ce_clock = (\<lambda>i. \<lparr>cr_new_state = 0, cr_new_seen = 0, cr_last_seen = 0, cr_elapsed = 5, cr_incoming = 0\<rparr>),
      ce_packet_now = (\<lambda>i. now), ce_poll_now = now, ce_check_now = now, ce_send_now = now,
      ce_step_now = (\<lambda>i. now), ce_flush_now = now, ce_seen_now = now, ce_flush_order = [srv]\<rparr>"

theorem session_established_witness:
  "let srv = \<lparr>sa_ip = [49], sa_port = 80\<rparr>; cli = \<lparr>sa_ip = [50], sa_port = 4000\<rparr>;
    t = \<lparr>cr_new_state = 0, cr_new_seen = 0, cr_last_seen = 0, cr_elapsed = 5, cr_incoming = 0\<rparr>;
    env = silent_env (2 * 10 ^ 9) srv
   in \<exists>c0. client_new 0 = Some c0 \<and> (\<exists>c1 w1 sm1 sm2 w2 c2 s d key.
    sync_step Release plain_libs srv env c0 = Some (c1, False, [(w1, srv)]) \<and>
    handle_packet Release plain_libs t cli w1 manager_new = Some (sm1, Some hello) \<and>
    flush_all Release plain_libs 0 [cli] sm1 = Some (sm2, [(w2, cli)]) \<and>
    sync_step Release plain_libs srv (env\<lparr>ce_poll := Inr [(w2, srv)]\<rparr>) c1 = Some (c2, False, []) \<and>
    sm2 cli = Some s \<and> cl_manager c2 srv = Some d \<and> is_authenticated d \<and> length key = 32 \<and>
    conn_pipeline s = key_pipeline key \<and> conn_pipeline d = key_pipeline key)"
proof -
  obtain c0 where c0: "client_new 0 = Some c0" by (simp add: client_new_def client_history_new(1))
  have "readings_ok
      \<lparr>cr_new_state = 0, cr_new_seen = 0, cr_last_seen = 0, cr_elapsed = 5, cr_incoming = 0\<rparr>"
    by (simp add: readings_ok_def clock_ok_def)
  note start = session_established [OF plain_libs_ok c0 this order_refl]
  show ?thesis
    unfolding Let_def
    by (rule exI [of _ c0], rule conjI [OF c0], rule start)
      (simp_all add: silent_env_def sync_timeout_def duration_since_def)
qed

text \<open>
  C38: the server's first flush to a new client, which carries the handshake and a first unreliable
  packet, encrypts both under the same key with the same nonce 1: reliable packets use their sequence
  number as the nonce, unreliable ones the transmit nonce, and both start at 1 on a server.
\<close>

theorem first_flush_reuses_nonce:
  assumes "libs_ok L" "length payload < 2 ^ 20 - 100"
  shows "\<exists>c c' b1 b2. queue_pending_send Release (b # payload) False (greeted t addr) = Some c \<and>
    connection_update Release L now c =
      Some (c', [1 # reliability_packet_header_as_bytes
                   \<lparr>rh_sequence = 1, rh_ack = 0, rh_ack_bitfield = 0\<rparr> @ b1,
                 b # to_le_bytes 8 (1 :: u64) @ b2]) \<and>
    secure_process L \<lparr>sp_cipher = \<lparr>cipher_key = static_poc_key\<rparr>\<rparr>
      (handshake_message (handshake_key (sa_ip addr) (cr_elapsed t))) 1 = Inr b1 \<and>
    secure_process L \<lparr>sp_cipher = \<lparr>cipher_key = static_poc_key\<rparr>\<rparr> payload 1 = Inr b2"
proof -
  let ?g = "greeted t addr"
  let ?hs = "handshake_message (handshake_key (sa_ip addr) (cr_elapsed t))"
  have pl: "pipeline_ok static_pipeline" by (simp add: pipeline_ok_def static_poc_key_def)
  obtain b1 where b1: "pipeline_process L static_pipeline ?hs 1 = Inr b1"
    using pipeline_roundtrip [OF assms(1) pl, of ?hs 1] by auto
  have "length payload < 2 ^ 32" using assms(2) by simp
  then obtain b2 where b2: "pipeline_process L static_pipeline payload 1 = Inr b2"
    using pipeline_roundtrip [OF assms(1) pl, of payload 1] by auto
  let ?c = "?g\<lparr>pending_queue := pending_queue ?g @ [\<lparr>ps_data = b # payload, ps_reliable = False\<rparr>],
    pending_bytes := of_nat (queued_bytes (pending_queue ?g) + length (b # payload))\<rparr>"
  have "pending_ok ?g" using greeted_ok(1) [of t addr] by (simp add: connection_ok_def)
  moreover have "queued_bytes (pending_queue ?g) = 33" by (simp add: greeted_def Let_def)
  ultimately have "queue_pending_send Release (b # payload) False ?g = Some ?c"
    using queue_pending_send_eq [of ?g "b # payload" Release False] assms(2) by simp
  moreover have "\<exists>c'. connection_update Release L now ?c =
      Some (c', [1 # reliability_packet_header_as_bytes
                   \<lparr>rh_sequence = 1, rh_ack = 0, rh_ack_bitfield = 0\<rparr> @ b1,
                 b # to_le_bytes 8 (1 :: u64) @ b2])"
    using b1 b2
    by (simp add: connection_update_def process_retransmissions_def greeted_def connection_new_def
        reliable_new_def Let_def send_pending_def send_reliable_def send_unreliable_def
        get_tx_nonce_def slice_header general_packet_header_as_bytes_def)
  ultimately show ?thesis using b1 b2 by auto
qed

theorem first_flush_reuses_nonce_witness:
  "\<exists>b1. secure_process plain_libs \<lparr>sp_cipher = \<lparr>cipher_key = static_poc_key\<rparr>\<rparr>
      (handshake_message (handshake_key [49] 5)) 1 = Inr b1 \<and>
    (\<exists>c c' b2. queue_pending_send Release [3, 7] False (greeted
        \<lparr>cr_new_state = 0, cr_new_seen = 0, cr_last_seen = 0, cr_elapsed = 5, cr_incoming = 0\<rparr>
        \<lparr>sa_ip = [49], sa_port = 80\<rparr>) = Some c \<and>
      connection_update Release plain_libs 0 c =
        Some (c', [1 # reliability_packet_header_as_bytes
                     \<lparr>rh_sequence = 1, rh_ack = 0, rh_ack_bitfield = 0\<rparr> @ b1,
                   3 # to_le_bytes 8 (1 :: u64) @ b2]))"
  using first_flush_reuses_nonce [OF plain_libs_ok, of "[7]" 3
      "\<lparr>cr_new_state = 0, cr_new_seen = 0, cr_last_seen = 0, cr_elapsed = 5, cr_incoming = 0\<rparr>"
      "\<lparr>sa_ip = [49], sa_port = 80\<rparr>" 0]
  by auto

end
