(* ===== verification/Client_Loop.thy ===== *)
theory Client_Loop
  imports Client_Sync
begin

text \<open>
  The client's main loop as a whole: its invariant, and the control of the predicted tick, which
  reaches the band of two ticks above its target and stays there.
\<close>

section \<open>Tick control\<close>

abbreviation ping_ticks :: "u128 \<Rightarrow> nat" where
  "ping_ticks rtt \<equiv> unat (ucast (rtt div 2) div 16 :: u64)"

lemma target_tick_eq:
  assumes "unat srv + ping_ticks rtt + 3 < 2 ^ 64"
  shows "\<exists>t. target_tick p srv rtt = Some t \<and> unat t = unat srv + ping_ticks rtt + 3"
proof -
  let ?ping = "ucast (rtt div 2) div 16 :: u64"
  have u: "unat (srv + ?ping) = unat srv + unat ?ping" using assms by (simp add: unat_add_no_wrap)
  have "add_u p srv ?ping = Some (srv + ?ping)" using assms by (intro add_u_ok) simp
  moreover have "add_u p (srv + ?ping) 3 = Some (srv + ?ping + 3)"
    using assms u by (intro add_u_ok) simp
  moreover have "unat (srv + ?ping + 3) = unat srv + unat ?ping + 3"
    using assms u by (simp add: unat_add_no_wrap)
  ultimately show ?thesis by (simp add: target_tick_def Let_def)
qed

lemma steps_this_loop_eq:
  assumes "unat t + 2 < 2 ^ 64"
  shows "steps_this_loop p predicted t = Some
    (if unat predicted < unat t then 2 else if unat t + 2 < unat predicted then 0 else 1)"
  using assms
  by (simp add: steps_this_loop_def add_u_ok word_less_nat_alt unat_add_no_wrap)

text \<open>
  The control in a steady network: the round trip is constant and every loop sees the server one
  tick further.
\<close>

fun control_run :: "profile \<Rightarrow> u128 \<Rightarrow> nat \<Rightarrow> u64 \<Rightarrow> u64 \<Rightarrow> (u64 \<times> u64) option" where
  "control_run p rtt 0 srv predicted = Some (srv, predicted)"
| "control_run p rtt (Suc n) srv predicted = do {
     target \<leftarrow> target_tick p srv rtt;
     steps \<leftarrow> steps_this_loop p predicted target;
     control_run p rtt n (srv + 1) (predicted + of_nat steps)
   }"

definition tick_error :: "u128 \<Rightarrow> u64 \<Rightarrow> u64 \<Rightarrow> int" where
  "tick_error rtt srv predicted = int (unat predicted) - int (unat srv + ping_ticks rtt + 3)"

definition settled :: "int \<Rightarrow> nat \<Rightarrow> int" where
  "settled e n = (if e < 0 then min 0 (e + int n) else if 2 < e then max 2 (e - int n) else e)"

lemma settled_Suc:
  "settled (if e < 0 then e + 1 else if 2 < e then e - 1 else e) n = settled e (Suc n)"
  by (simp add: settled_def min_def max_def)

lemma settled_band: "nat \<bar>e\<bar> \<le> n \<Longrightarrow> 0 \<le> settled e n \<and> settled e n \<le> 2"
  by (auto simp: settled_def)

lemma error_step:
  assumes "st = (if x < t then 2 else if t + 2 < x then 0 else 1)"
  shows "int (x + st) - int (t + 1) =
    (let e = int x - int t in if e < 0 then e + 1 else if 2 < e then e - 1 else e)"
  using assms by (simp add: Let_def)

lemma control_run_spec:
  assumes "unat srv + ping_ticks rtt + 3 + n + 2 < 2 ^ 64" "unat predicted + 2 * n < 2 ^ 64"
  shows "\<exists>srv' predicted'. control_run p rtt n srv predicted = Some (srv', predicted') \<and>
    unat srv' = unat srv + n \<and>
    tick_error rtt srv' predicted' = settled (tick_error rtt srv predicted) n"
  using assms
proof (induction n arbitrary: srv predicted)
  case 0
  then show ?case by (simp add: settled_def)
next
  case (Suc n)
  obtain t where t: "target_tick p srv rtt = Some t" "unat t = unat srv + ping_ticks rtt + 3"
    using target_tick_eq [of srv rtt p] Suc.prems(1) by auto
  define st where "st = (if unat predicted < unat t then 2
    else if unat t + 2 < unat predicted then 0 else 1 :: nat)"
  have st: "steps_this_loop p predicted t = Some st"
    unfolding st_def using t(2) Suc.prems(1) by (intro steps_this_loop_eq) simp
  have st2: "st \<le> 2" by (simp add: st_def)
  have next_l: "unat (srv + 1) = unat srv + 1"
    using Suc.prems(1) by (simp add: unat_add_no_wrap)
  have next_p: "unat (predicted + of_nat st) = unat predicted + st"
    using Suc.prems(2) st2 by (intro unat_add_of_nat) simp
  have "tick_error rtt (srv + 1) (predicted + of_nat st) =
      (let e = tick_error rtt srv predicted in if e < 0 then e + 1 else if 2 < e then e - 1 else e)"
  proof -
    have "unat srv + 1 + ping_ticks rtt + 3 = unat t + 1" using t(2) by simp
    then show ?thesis
      unfolding tick_error_def next_l next_p t(2) [symmetric]
      by (simp only: error_step [OF st_def])
  qed
  moreover obtain srv' predicted' where
    "control_run p rtt n (srv + 1) (predicted + of_nat st) = Some (srv', predicted')"
    "unat srv' = unat (srv + 1) + n"
    "tick_error rtt srv' predicted' = settled (tick_error rtt (srv + 1) (predicted + of_nat st)) n"
    using Suc.IH [of "srv + 1" "predicted + of_nat st"] Suc.prems next_l next_p st2 by auto
  ultimately show ?case
    using t(1) st next_l by (simp add: settled_Suc Let_def)
qed

section \<open>The invariant\<close>

definition client_ok :: "client \<Rightarrow> bool" where
  "client_ok c \<longleftrightarrow> manager_ok (cl_manager c) \<and> all_sendable (cl_manager c) \<and>
     history_ok 7 (cl_history c) \<and> positions (cl_world c) \<noteq> [] \<and>
     interpolator_ok (cl_interpolator c)"

lemma client_new_ok: "\<exists>c. client_new now = Some c \<and> client_ok c"
  using manager_ok_new all_sendable_new
  by (simp add: client_new_def client_ok_def interpolator_new_ok client_history_new)

lemma send_to_client_sendable:
  assumes "all_sendable m" "d \<noteq> []" "send_to_client p t1 t2 a d r srv m = Some m'"
  shows "all_sendable m'"
  using sendable_inv.send_to_client_keeps [OF _ _ assms(3)] assms(1,2)
  by (simp add: all_sendable_eq sendable_def)

text \<open>One prediction step: it does not panic and stores the frame it predicted.\<close>

lemma predict_step_spec:
  assumes "client_ok c"
  shows "\<exists>c'. predict_step Release hash addr env i c = Some c' \<and> client_ok c' \<and>
    cl_predicted_tick c' = cl_predicted_tick c + 1 \<and> cl_world c' = moved 1 (cl_world c) \<and>
    cl_last_server_tick c' = cl_last_server_tick c \<and>
    history_get (cl_history c') (cl_predicted_tick c') =
      Some (Some (frame_of hash (cl_predicted_tick c') (cl_world c')))"
proof -
  let ?t = "cl_predicted_tick c + 1"
  let ?w = "moved 1 (cl_world c)"
  have ok: "manager_ok (cl_manager c)" "all_sendable (cl_manager c)" "history_ok 7 (cl_history c)"
    "positions (cl_world c) \<noteq> []" "interpolator_ok (cl_interpolator c)"
    using assms by (simp_all add: client_ok_def)
  have step: "step_physics Release 1 (cl_world c) = Some ?w"
    by (rule step_physics_total [OF ok(4)])
  obtain h where h: "history_insert (frame_of hash ?t ?w) (cl_history c) = Some h" "history_ok 7 h"
    using history_insert_total [OF ok(3)] by blast
  have get: "history_get h ?t = Some (Some (frame_of hash ?t ?w))"
    using history_get_insert [OF ok(3) h(1), of ?t] by (simp add: frame_of_def)
  obtain m where m: "send_to_client Release (ce_send_now env) (ce_send_now env) addr
      (input_message ?t 1) False False (cl_manager c) = Some m" "manager_ok m"
    using send_to_client_ok [OF ok(1), of "input_message ?t 1"] input_message_length [of ?t 1]
    by fastforce
  have "input_message ?t 1 \<noteq> []" using input_message_length [of ?t 1] by fastforce
  then have "all_sendable m" using send_to_client_sendable [OF ok(2) _ m(1)] by blast
  moreover have "positions ?w \<noteq> []" using ok(4) moved_length [of 1 "cl_world c"] by fastforce
  ultimately show ?thesis
    using step h m ok(5) get by (simp add: predict_step_def client_ok_def)
qed

lemma predict_loop:
  assumes "client_ok c"
  shows "\<exists>c'. for_each (predict_step Release hash addr env) is c = Some c' \<and> client_ok c' \<and>
    cl_predicted_tick c' = cl_predicted_tick c + of_nat (length is) \<and>
    cl_world c' = (moved 1 ^^ length is) (cl_world c) \<and>
    cl_last_server_tick c' = cl_last_server_tick c"
  using assms
proof (induction "is" arbitrary: c)
  case Nil
  then show ?case by simp
next
  case (Cons i "is")
  obtain c1 where c1: "predict_step Release hash addr env i c = Some c1" "client_ok c1"
    "cl_predicted_tick c1 = cl_predicted_tick c + 1" "cl_world c1 = moved 1 (cl_world c)"
    "cl_last_server_tick c1 = cl_last_server_tick c"
    using predict_step_spec [OF Cons.prems] by blast
  from Cons.IH [OF c1(2)] obtain c' where
    "for_each (predict_step Release hash addr env) is c1 = Some c'" "client_ok c'"
    "cl_predicted_tick c' = cl_predicted_tick c1 + of_nat (length is)"
    "cl_world c' = (moved 1 ^^ length is) (cl_world c1)"
    "cl_last_server_tick c' = cl_last_server_tick c1"
    by blast
  with c1 show ?case by (simp add: funpow_swap1)
qed

section \<open>Reconciliation keeps the invariant\<close>

lemma replay_ok:
  "replay p hash limit t wh = Some (t', wh') \<Longrightarrow> history_ok k (snd wh) \<Longrightarrow> positions (fst wh) \<noteq> [] \<Longrightarrow>
    history_ok k (snd wh') \<and> positions (fst wh') \<noteq> []"
proof (induction p hash limit t wh rule: replay.induct)
  case (1 p hash limit t wh)
  show ?case
  proof (cases "t < limit")
    case False
    with 1 show ?thesis by (simp add: replay.simps [of _ _ _ t])
  next
    case True
    with "1.prems"(1) obtain wh1 where f: "replay_frame p hash (t + 1) wh = Some wh1"
      and rec: "replay p hash limit (t + 1) wh1 = Some (t', wh')"
      by (auto simp: replay.simps [of _ _ _ t] split: option.splits)
    obtain input w h where "step_physics p input (fst wh) = Some w"
      "history_insert (frame_of hash (t + 1) w) (snd wh) = Some h" "wh1 = (w, h)"
      using f by (auto simp: replay_frame_def bind_Some_conv)
    moreover have "length (positions w) = length (positions (fst wh))"
      using calculation(1) by (auto dest!: step_physics_SomeD)
    ultimately have "history_ok k (snd wh1)" "positions (fst wh1) \<noteq> []"
      using "1.prems"(2,3) by (auto intro: history_insert_ok)
    with "1.IH" [OF True f rec] show ?thesis by blast
  qed
qed

lemma rollback_ok:
  assumes "client_ok c" "rollback p hash t pos c = Some c'"
  shows "client_ok c'"
proof -
  obtain n limit t' w h where "replay p hash limit t (\<lparr>positions = [pos]\<rparr>, cl_history c) = Some (t', w, h)"
    and c': "c' = c\<lparr>cl_rollbacks := n, cl_world := w, cl_history := h, cl_predicted_tick := t'\<rparr>"
    using assms(2) by (auto simp: rollback_def bind_Some_conv)
  from replay_ok [OF this(1), of 7] assms(1) show ?thesis
    by (simp add: c' client_ok_def)
qed

lemma note_rtt_ok [simp]: "client_ok (note_rtt now t c) = client_ok c"
  by (simp add: note_rtt_def client_ok_def split: option.split)

lemma client_ok_upd [simp]:
  "client_ok (c\<lparr>cl_last_server_tick := t\<rparr>) = client_ok c"
  "client_ok c \<Longrightarrow> client_ok (c\<lparr>cl_interpolator := push_snapshot s (cl_interpolator c)\<rparr>)"
  by (simp_all add: client_ok_def push_snapshot_ok)

lemma reconcile_cases:
  assumes "reconcile p hash now d c = Some c'"
  obtains "c' = c"
    | snap :: snapshot_header and pos c2 and recorded :: "(world_state, u32) frame_record option" where
      "c2 = (let c1 = note_rtt now (sh_last_input_tick snap) (c\<lparr>cl_last_server_tick := sh_tick snap\<rparr>)
        in c1\<lparr>cl_interpolator := push_snapshot
          \<lparr>sn_tick = sh_tick snap, sn_state = \<lparr>positions = [pos]\<rparr>\<rparr> (cl_interpolator c1)\<rparr>)"
      "(case recorded of None \<Rightarrow> Some c2
        | Some r \<Rightarrow> if fr_state_hash r \<noteq> sh_state_hash snap
            then rollback p hash (sh_tick snap) pos c2 else Some c2) = Some c'"
proof -
  obtain hdr where hdr: "snapshot_of d = Some hdr"
    using assms by (auto simp: reconcile_def bind_Some_conv)
  show thesis
  proof (cases hdr)
    case None
    with assms hdr show thesis by (intro that(1)) (simp add: reconcile_def)
  next
    case (Some snap)
    define c1 where "c1 = note_rtt now (sh_last_input_tick snap) (c\<lparr>cl_last_server_tick := sh_tick snap\<rparr>)"
    obtain pos where pos: "read_position d = Some pos"
      using assms hdr Some by (auto simp: reconcile_def bind_Some_conv Let_def)
    define c2 where "c2 = c1\<lparr>cl_interpolator :=
      push_snapshot \<lparr>sn_tick = sh_tick snap, sn_state = \<lparr>positions = [pos]\<rparr>\<rparr> (cl_interpolator c1)\<rparr>"
    obtain recorded where "history_get (cl_history c2) (sh_tick snap) = Some recorded"
      using assms unfolding c2_def
      by (auto simp: reconcile_def hdr Some pos Let_def bind_Some_conv simp flip: c1_def)
    then have "(case recorded of None \<Rightarrow> Some c2
        | Some r \<Rightarrow> if fr_state_hash r \<noteq> sh_state_hash snap
            then rollback p hash (sh_tick snap) pos c2 else Some c2) = Some c'"
      using assms unfolding c2_def
      by (simp add: reconcile_def hdr Some pos Let_def flip: c1_def)
    then show thesis
      by (intro that(2) [of c2 snap pos recorded]) (simp_all add: c2_def c1_def Let_def)
  qed
qed

lemma reconcile_ok:
  assumes "client_ok c" "reconcile p hash now d c = Some c'"
  shows "client_ok c'"
  using assms(2)
proof (cases rule: reconcile_cases)
  case (2 snap pos c2 recorded)
  have "client_ok c2" using assms(1) by (simp add: 2(1) Let_def)
  with 2(2) show ?thesis by (auto split: option.splits if_splits intro: rollback_ok)
qed (simp add: assms(1))

lemma reconcile_packets_ok:
  "client_ok c \<Longrightarrow> \<forall>i. readings_ok (ce_clock env i) \<Longrightarrow>
    reconcile_packets p L hash env i packets c = Some c' \<Longrightarrow> client_ok c'"
proof (induction packets arbitrary: i c)
  case Nil
  then show ?case by simp
next
  case (Cons x packets)
  obtain packet sender where x: "x = (packet, sender)" by (cases x)
  with Cons.prems(3) obtain m r c2 where
    h: "handle_packet p L (ce_clock env i) sender packet (cl_manager c) = Some (m, r)"
    and c2: "(case r of None \<Rightarrow> Some (c\<lparr>cl_manager := m\<rparr>)
      | Some d \<Rightarrow> reconcile p hash (ce_packet_now env i) d (c\<lparr>cl_manager := m\<rparr>)) = Some c2"
    and rec: "reconcile_packets p L hash env (Suc i) packets c2 = Some c'"
    by (auto simp: bind_Some_conv Let_def)
  have "client_ok (c\<lparr>cl_manager := m\<rparr>)"
    using Cons.prems(1,2) handle_packet_ok [OF _ _ h] handle_packet_sendable [OF _ h]
    by (simp add: client_ok_def)
  with c2 have "client_ok c2" by (cases r) (auto intro: reconcile_ok)
  from Cons.IH [OF this Cons.prems(2) rec] show ?case .
qed

section \<open>One iteration\<close>

definition client_env_ok :: "client_env \<Rightarrow> bool" where
  "client_env_ok env \<longleftrightarrow> (\<forall>i. readings_ok (ce_clock env i)) \<and> 0 \<le> ce_flush_now env"

lemma flush_all_total:
  assumes "libs_ok L" "manager_ok m" "all_sendable m" "0 \<le> now" "distinct addrs"
  shows "\<exists>m' out. flush_all Release L now addrs m = Some (m', out) \<and> manager_ok m' \<and> all_sendable m'"
proof -
  let ?m = "\<lambda>a. if a \<in> set addrs then flushed Release L now m a else m a"
  have "\<not> (\<exists>a \<in> set addrs. flush_panics Release L now m a)"
    using flush_not_panics [OF assms(1-4)] by blast
  moreover have "manager_ok ?m" "all_sendable ?m"
    using flushed_ok [OF assms(1,2,4), of Release] assms(2,3)
    by (auto simp: manager_ok_def all_sendable_def)
  ultimately show ?thesis by (simp add: flush_all_spec [OF assms(5)])
qed

lemma prune_dispatch_fields [simp]:
  "client_ok (prune_dispatch c) = client_ok c"
  "cl_predicted_tick (prune_dispatch c) = cl_predicted_tick c"
  "cl_world (prune_dispatch c) = cl_world c"
  "cl_manager (prune_dispatch c) = cl_manager c"
  by (simp_all add: prune_dispatch_def client_ok_def)

lemma telemetry_fields [simp]:
  "client_ok (telemetry n c) = client_ok c"
  "cl_predicted_tick (telemetry n c) = cl_predicted_tick c"
  "cl_world (telemetry n c) = cl_world c"
  by (simp_all add: telemetry_def client_ok_def)

lemma client_tick_spec:
  assumes "libs_ok L" "client_env_ok env" "client_ok c" "distinct (ce_flush_order env)"
    and c1: "(case ce_poll env of Inr packets \<Rightarrow> reconcile_packets Release L hash env 0 packets c
      | Inl e \<Rightarrow> Some c) = Some c1"
  shows "\<exists>c' out target steps. client_tick Release L hash addr env c = Some (c', out) \<and> client_ok c' \<and>
    target_tick Release (cl_last_server_tick c1) (cl_rtt_ms c1) = Some target \<and>
    steps_this_loop Release (cl_predicted_tick c1) target = Some steps \<and>
    cl_predicted_tick c' = cl_predicted_tick c1 + of_nat steps \<and>
    cl_world c' = (moved 1 ^^ steps) (cl_world c1)"
proof -
  have ok1: "client_ok c1"
    using c1 assms(2,3) reconcile_packets_ok [of c env Release L hash 0 _ c1]
    by (cases "ce_poll env") (auto simp: client_env_ok_def)
  obtain target where t: "target_tick Release (cl_last_server_tick c1) (cl_rtt_ms c1) = Some target"
    by (simp add: target_tick_def Let_def)
  obtain steps where s: "steps_this_loop Release (cl_predicted_tick c1) target = Some steps"
    by (cases "cl_predicted_tick c1 < target") (auto simp: steps_this_loop_def)
  obtain c2 where c2: "for_each (predict_step Release hash addr env) [0..<steps] c1 = Some c2"
    "client_ok c2" "cl_predicted_tick c2 = cl_predicted_tick c1 + of_nat steps"
    "cl_world c2 = (moved 1 ^^ steps) (cl_world c1)"
    using predict_loop [OF ok1, of hash addr env "[0..<steps]"] by auto
  have "manager_ok (cl_manager c2)" "all_sendable (cl_manager c2)"
    using c2(2) by (simp_all add: client_ok_def)
  then obtain m out where m: "flush_all Release L (ce_flush_now env) (ce_flush_order env) (cl_manager c2) =
      Some (m, out)" "manager_ok m" "all_sendable m"
    using flush_all_total [OF assms(1) _ _ _ assms(4), of "cl_manager c2" "ce_flush_now env"] assms(2)
    by (auto simp: client_env_ok_def)
  let ?c = "telemetry steps ((prune_dispatch c2)\<lparr>cl_manager := m\<rparr>)"
  have "client_ok (prune_dispatch c2)" using c2(2) by simp
  then have "client_ok ?c" using m(2,3) by (simp only: telemetry_fields) (simp add: client_ok_def)
  moreover have "client_tick Release L hash addr env c = Some (?c, out)"
    by (simp add: client_tick_def c1 t s c2(1) m(1) Let_def)
  ultimately show ?thesis using t s c2(3,4) by auto
qed

text \<open>An environment in which nothing arrives.\<close>

definition quiet_env :: client_env where
  "quiet_env =
     \<lparr>ce_poll = Inr [],
      ce_clock = (\<lambda>i. \<lparr>cr_new_state = 0, cr_new_seen = 0, cr_last_seen = 0, cr_elapsed = 5, cr_incoming = 0\<rparr>),
      ce_packet_now = (\<lambda>i. 0), ce_poll_now = 0, ce_check_now = 0, ce_send_now = 0,
      ce_step_now = (\<lambda>i. 0), ce_flush_now = 0, ce_seen_now = 0, ce_flush_order = [example_a]\<rparr>"

section \<open>Properties\<close>

text \<open>
  C9: with a constant round trip and a server that advances one tick per loop, the control of the
  client brings its predicted tick into the band from its target to two ticks above it, within as many
  loops as it is ticks away, and keeps it there; a tick inside the band is never moved relative to the
  target.
\<close>

theorem control_settles:
  assumes "unat srv + ping_ticks rtt + 3 + n + 2 < 2 ^ 64" "unat predicted + 2 * n < 2 ^ 64"
    and "nat \<bar>tick_error rtt srv predicted\<bar> \<le> n"
  shows "\<exists>srv' predicted'. control_run p rtt n srv predicted = Some (srv', predicted') \<and>
    unat srv' = unat srv + n \<and>
    0 \<le> tick_error rtt srv' predicted' \<and> tick_error rtt srv' predicted' \<le> 2 \<and>
    (0 \<le> tick_error rtt srv predicted \<and> tick_error rtt srv predicted \<le> 2 \<longrightarrow>
      tick_error rtt srv' predicted' = tick_error rtt srv predicted)"
  using control_run_spec [OF assms(1,2), of p] settled_band [OF assms(3)]
  by (auto simp: settled_def)

theorem control_settles_witness:
  "\<exists>srv' predicted'. control_run Debug 64 20 100 90 = Some (srv', predicted') \<and>
    0 \<le> tick_error 64 srv' predicted' \<and> tick_error 64 srv' predicted' \<le> 2"
proof -
  have "ping_ticks 64 = 2" by simp
  then show ?thesis
    using control_settles [of 100 64 20 90 Debug] by (auto simp: tick_error_def)
qed

end
