(* ===== verification/Lockstep.thy ===== *)
theory Lockstep
  imports Establish Client_Loop
begin

text \<open>
  The server of \<open>bin/server.rs\<close> and a client of \<open>bin/client.rs\<close> side by side: the client predicts the
  worlds that the server computes later, and the server's snapshots, which arrive with a delay,
  confirm them. The two run at their own pace; what ties them together is the world after a number of
  ticks, which both compute from the same inputs.
\<close>

section \<open>Prediction and authority\<close>

text \<open>
  The world \<open>k\<close> ticks after \<open>w\<close> when the combined input of the tick \<open>i\<close> after the start is \<open>inputs i\<close>.
\<close>

fun world_at :: "(nat \<Rightarrow> u32) \<Rightarrow> world_state \<Rightarrow> nat \<Rightarrow> world_state" where
  "world_at inputs w 0 = w"
| "world_at inputs w (Suc k) = moved (inputs k) (world_at inputs w k)"

text \<open>
  A server and a client, the server \<open>n\<close> ticks and the client \<open>m\<close> ticks after a common start, each at
  its own pace: the server goes one iteration further; the client predicts one tick further, of a tick
  in which the inputs move the world; the client gets a snapshot of an earlier tick of the server,
  as old as it may be while its frame is in the history; or the client's other operations (its flush,
  its telemetry) change nothing that the prediction rests on. The client's frames begin at \<open>m0\<close>: at 0
  when it stands where the server stands, at 3 after the synchronisation loop.
\<close>

inductive lockstep ::
  "libs \<Rightarrow> hasher \<Rightarrow> u64 \<Rightarrow> world_state \<Rightarrow> (nat \<Rightarrow> u32) \<Rightarrow> nat \<Rightarrow> nat \<Rightarrow> server \<Rightarrow> nat \<Rightarrow> client \<Rightarrow> bool"
  for L hash t0 w0 inputs m0 where
  start: "server_ok s \<Longrightarrow> sv_tick s = t0 \<Longrightarrow> sv_world s = w0 \<Longrightarrow>
    client_ok c \<Longrightarrow> cl_predicted_tick c = t0 + of_nat m0 \<Longrightarrow> cl_world c = world_at inputs w0 m0 \<Longrightarrow>
    lockstep L hash t0 w0 inputs m0 0 s m0 c"
| serve: "lockstep L hash t0 w0 inputs m0 n s m c \<Longrightarrow> readings_ok_all env \<Longrightarrow>
    server_receive Release L env s = Some (tick, mgr, ss) \<Longrightarrow> env_orders env mgr ss \<Longrightarrow>
    (\<forall>i. bit (inputs n) i \<longleftrightarrow> input_bit tick ss i) \<Longrightarrow>
    server_tick Release L hash env s = Some (s', out) \<Longrightarrow>
    lockstep L hash t0 w0 inputs m0 (Suc n) s' m c"
| predict: "lockstep L hash t0 w0 inputs m0 n s m c \<Longrightarrow> bit (inputs m) 0 \<Longrightarrow>
    predict_step Release hash addr cenv i c = Some c' \<Longrightarrow>
    lockstep L hash t0 w0 inputs m0 n s (Suc m) c'"
| snapshot: "lockstep L hash t0 w0 inputs m0 n s m c \<Longrightarrow> m0 < k \<Longrightarrow> k \<le> n \<Longrightarrow> k \<le> m \<Longrightarrow> m < k + 128 \<Longrightarrow>
    reconcile Release hash now (snapshot_packet (t0 + of_nat k)
      (calculate_hash hash (world_at inputs w0 k)) session (world_at inputs w0 k)) c = Some c' \<Longrightarrow>
    lockstep L hash t0 w0 inputs m0 n s m c'"
| upkeep: "lockstep L hash t0 w0 inputs m0 n s m c \<Longrightarrow> client_ok c' \<Longrightarrow> cl_world c' = cl_world c \<Longrightarrow>
    cl_history c' = cl_history c \<Longrightarrow> cl_predicted_tick c' = cl_predicted_tick c \<Longrightarrow>
    lockstep L hash t0 w0 inputs m0 n s m c'"

lemma moved_bit: "bit input 0 \<Longrightarrow> moved 1 w = moved input w"
  using and_exp_eq_0 [of input 0] by (simp add: moved_def)

lemma world_at_length: "length (positions (world_at inputs w k)) = length (positions w)"
  by (induction k) simp_all

lemma slot_add: "unat (t + of_nat k :: u64) mod 128 = (unat t + k) mod 128"
proof -
  have "unat (t + of_nat k :: u64) = (unat t + k) mod 2 ^ 64"
    by (simp add: unat_word_ariths unat_of_nat take_bit_eq_mod mod_simps)
  then show ?thesis by (simp add: mod_mod_cancel)
qed

text \<open>What the client has recorded \<open>m\<close> ticks after the start: its frames of the last 128 ticks.\<close>

definition frames_ok :: "hasher \<Rightarrow> u64 \<Rightarrow> world_state \<Rightarrow> (nat \<Rightarrow> u32) \<Rightarrow> nat \<Rightarrow> nat \<Rightarrow> client \<Rightarrow> bool" where
  "frames_ok hash t0 w0 inputs m0 m c \<longleftrightarrow>
     (\<forall>k. m0 < k \<and> k \<le> m \<and> m < k + 128 \<longrightarrow>
       history_get (cl_history c) (t0 + of_nat k) =
         Some (Some (frame_of hash (t0 + of_nat k) (world_at inputs w0 k))))"

lemma predict_step_history:
  assumes "client_ok c" "predict_step Release hash addr env i c = Some c'"
  shows "history_get (cl_history c') v =
    (if unat v mod 128 = unat (cl_predicted_tick c') mod 128
     then Some (if v = cl_predicted_tick c' then Some (frame_of hash v (cl_world c')) else None)
     else history_get (cl_history c) v)"
proof -
  obtain h w where "history_insert (frame_of hash (cl_predicted_tick c') w) (cl_history c) = Some h"
    "cl_history c' = h" "cl_world c' = w"
    using assms(2) by (auto simp: predict_step_def bind_Some_conv)
  with history_get_insert [of 7 "cl_history c" "frame_of hash (cl_predicted_tick c') w" h v] assms(1)
  show ?thesis by (auto simp: client_ok_def frame_of_def)
qed

lemma frames_ok_predict:
  assumes "frames_ok hash t0 w0 inputs m0 m c" "client_ok c"
    and "cl_predicted_tick c = t0 + of_nat m" "cl_world c' = world_at inputs w0 (Suc m)"
    and "predict_step Release hash addr env i c = Some c'"
  shows "frames_ok hash t0 w0 inputs m0 (Suc m) c'"
  unfolding frames_ok_def
proof (intro allI impI)
  fix k
  assume k: "m0 < k \<and> k \<le> Suc m \<and> Suc m < k + 128"
  have tick: "cl_predicted_tick c' = t0 + of_nat (Suc m)"
    using predict_step_spec [OF assms(2), of hash addr env i] assms(3,5) by (auto simp: add.assoc)
  note get = predict_step_history [OF assms(2,5), of "t0 + of_nat k", unfolded tick slot_add]
  show "history_get (cl_history c') (t0 + of_nat k) =
      Some (Some (frame_of hash (t0 + of_nat k) (world_at inputs w0 k)))"
  proof (cases "k = Suc m")
    case True
    then show ?thesis using get assms(4) by simp
  next
    case False
    then have "(unat t0 + k) mod 128 \<noteq> (unat t0 + Suc m) mod 128"
      using k by (intro slots_differ) auto
    then show ?thesis using get assms(1) k False by (simp add: frames_ok_def)
  qed
qed

lemma frames_ok_reconcile:
  assumes "frames_ok hash t0 w0 inputs m0 m c" "m0 < k" "k \<le> m" "m < k + 128"
    and "length (positions w0) = 1"
  shows "\<exists>c'. reconcile Release hash now (snapshot_packet (t0 + of_nat k)
      (calculate_hash hash (world_at inputs w0 k)) session (world_at inputs w0 k)) c = Some c' \<and>
    same_prediction c c' \<and> cl_last_server_tick c' = t0 + of_nat k"
proof -
  have "length (positions (world_at inputs w0 k)) = 1" using assms(5) by (simp add: world_at_length)
  then obtain pos where pos: "positions (world_at inputs w0 k) = [pos]"
    by (cases "positions (world_at inputs w0 k)") auto
  have "history_get (cl_history c) (t0 + of_nat k) =
      Some (Some (frame_of hash (t0 + of_nat k) (world_at inputs w0 k)))"
    using assms(1-4) by (simp add: frames_ok_def)
  from reconcile_snapshot [OF pos this, of Release hash now session] show ?thesis
    by (auto simp: frame_of_def)
qed

definition in_step :: "hasher \<Rightarrow> u64 \<Rightarrow> world_state \<Rightarrow> (nat \<Rightarrow> u32) \<Rightarrow> nat \<Rightarrow> nat \<Rightarrow> server \<Rightarrow> nat \<Rightarrow> client \<Rightarrow> bool" where
  "in_step hash t0 w0 inputs m0 n s m c \<longleftrightarrow>
     server_ok s \<and> sv_tick s = t0 + of_nat n \<and> sv_world s = world_at inputs w0 n \<and>
     client_ok c \<and> cl_predicted_tick c = t0 + of_nat m \<and> cl_world c = world_at inputs w0 m \<and>
     frames_ok hash t0 w0 inputs m0 m c \<and> length (positions w0) = 1"

lemma server_tick_in_step:
  assumes "libs_ok L" "server_ok s" "readings_ok_all env" "server_receive p L env s = Some (tick, m, ss)"
    and "env_orders env m ss" "server_tick p L hash env s = Some (s', out)"
    and "\<forall>i. bit (input :: u32) i \<longleftrightarrow> input_bit tick ss i"
  shows "server_ok s' \<and> sv_tick s' = sv_tick s + 1 \<and> sv_world s' = moved input (sv_world s)"
proof -
  have "server_ok s'" by (rule server_tick_ok [OF assms(1-6)])
  moreover obtain input' :: u32 where inp: "\<forall>i. bit input' i \<longleftrightarrow> input_bit tick ss i"
    "sv_world s' = moved input' (sv_world s)" "sv_tick s' = tick"
    using server_tick_shape [OF assms(2-6)] by blast
  moreover have "input' = input" using inp(1) assms(7) by (intro bit_word_eqI) simp
  ultimately show ?thesis using server_receive_ok(4) [OF assms(2-4)] by simp
qed

lemma lockstep_in_step:
  assumes "libs_ok L"
  shows "lockstep L hash t0 w0 inputs m0 n s m c \<Longrightarrow> in_step hash t0 w0 inputs m0 n s m c"
proof (induction rule: lockstep.induct)
  case (start s c)
  then show ?case by (auto simp: in_step_def frames_ok_def server_ok_def)
next
  case (serve n s m c env tick mgr ss s' out)
  then have "server_ok s" by (simp add: in_step_def)
  from server_tick_in_step [OF assms this serve.hyps(2-4,6,5)] serve.IH show ?case
    by (simp add: in_step_def add.assoc)
next
  case (predict n s m c addr cenv i c')
  then have ok: "client_ok c" "cl_predicted_tick c = t0 + of_nat m" "cl_world c = world_at inputs w0 m"
    "frames_ok hash t0 w0 inputs m0 m c" by (simp_all add: in_step_def)
  have new: "client_ok c'" "cl_predicted_tick c' = cl_predicted_tick c + 1"
    "cl_world c' = world_at inputs w0 (Suc m)"
    using predict_step_spec [OF ok(1), of hash addr cenv i] predict.hyps(2,3) ok(3) moved_bit by auto
  from frames_ok_predict [OF ok(4,1,2) new(3) predict.hyps(3)] new predict.IH ok(2) show ?case
    by (simp add: in_step_def add.assoc del: world_at.simps)
next
  case (snapshot n s m c k now session c')
  then have ok: "client_ok c" "frames_ok hash t0 w0 inputs m0 m c" "length (positions w0) = 1"
    by (simp_all add: in_step_def)
  from frames_ok_reconcile [OF ok(2) snapshot.hyps(2,4,5) ok(3), of now session] snapshot.hyps(6)
  have "same_prediction c c'" by simp
  moreover have "client_ok c'" using reconcile_ok [OF ok(1) snapshot.hyps(6)] .
  ultimately show ?case
    using snapshot.IH by (simp add: in_step_def frames_ok_def same_prediction_def)
next
  case (upkeep n s m c c')
  then show ?case by (simp add: in_step_def frames_ok_def)
qed

section \<open>An example run\<close>

definition example_server :: server where
  "example_server = server_new
     \<lparr>sv_manager := [example_a \<mapsto> connection_new example_a True static_pipeline 0 0],
      sv_sessions := [example_a \<mapsto>
        \<lparr>input_buffer = [1 \<mapsto> 1], last_known_input = 0, latest_input_tick = 1\<rparr>]\<rparr>"

lemma example_server_ok: "server_ok example_server"
  using server_new_ok connection_new_ok [of static_pipeline example_a True 0 0]
  by (simp add: server_ok_def example_server_def manager_ok_def all_sendable_def pipeline_ok_def
      static_poc_key_def)

lemma example_server_session:
  "bit (1 :: u32) i \<longleftrightarrow> input_bit 1 (sv_sessions example_server) i"
  by (auto simp: input_bit_def example_server_def step_session_def Let_def bit_1_iff
      due_input_def split: if_splits)

definition example_quiet :: tick_env where
  "example_quiet = (example_env [example_a])\<lparr>te_poll := Inr []\<rparr>"

lemma example_quiet_ready: "readings_ok_all example_quiet"
  using example_env_readings by (simp add: readings_ok_all_def example_quiet_def)

lemma example_quiet_receive:
  "server_receive Release plain_libs example_quiet example_server =
    Some (1, sv_manager example_server, sv_sessions example_server)"
  by (auto simp: server_receive_def example_server_def server_new_def ensure_sessions_def
      example_quiet_def fun_eq_iff split: option.split)

lemma example_quiet_orders:
  "env_orders example_quiet (sv_manager example_server) (sv_sessions example_server)"
  by (auto simp: env_orders_def iter_order_def example_env_def example_server_def example_quiet_def
      evict_stale_connections_def map_retain_def eviction_timeout_def duration_since_def
      connection_new_def split: if_splits)

lemma example_quiet_tick:
  "\<exists>s' out. server_tick Release plain_libs from_le_bytes example_quiet example_server = Some (s', out)"
proof -
  have "\<exists>x. server_simulate Release plain_libs from_le_bytes example_quiet example_server 1
      (sv_manager example_server) (sv_sessions example_server) = Some x"
    using example_server_ok example_quiet_ready example_quiet_orders
    by (intro server_simulate_total [OF plain_libs_ok]) (simp_all add: server_ok_def readings_ok_all_def)
  then show ?thesis using example_quiet_receive by (auto simp: server_tick_def)
qed

lemma example_lockstep:
  "\<exists>s c. lockstep plain_libs from_le_bytes 0 (sv_world example_server) (\<lambda>i. 1) 0 1 s 1 c"
proof -
  have bit: "\<forall>i. bit (1 :: u32) i \<longleftrightarrow> input_bit 1 (sv_sessions example_server) i"
    using example_server_session by blast
  obtain s' out where t: "server_tick Release plain_libs from_le_bytes example_quiet example_server =
      Some (s', out)"
    using example_quiet_tick by blast
  obtain c where c: "client_new 0 = Some c" "client_ok c" using client_new_ok by blast
  have s0: "sv_tick example_server = 0" by (simp add: example_server_def server_new_def)
  have c0: "cl_predicted_tick c = 0 + of_nat 0"
    "cl_world c = world_at (\<lambda>i. 1) (sv_world example_server) 0"
    using c(1) by (auto simp: client_new_def client_history_new(1) example_server_def server_new_def)
  obtain c' where p: "predict_step Release from_le_bytes example_b (silent_env 0 example_b) 0 c = Some c'"
    using predict_step_spec [OF c(2)] by blast
  note run = lockstep.start [OF example_server_ok s0 refl c(2) c0, of plain_libs from_le_bytes]
  show ?thesis
    using lockstep.predict [OF lockstep.serve [OF run example_quiet_ready example_quiet_receive
      example_quiet_orders bit t] _ p] by auto
qed

section \<open>Properties\<close>

text \<open>
  C5: as long as the server's combined inputs are the ones that the client predicts, the client never
  rolls back: both are in the same world at the same tick, whichever is ahead, and a snapshot of any
  tick the client has predicted, arriving when it is less than 128 ticks behind the prediction, is
  confirmed and changes nothing that the prediction rests on.
\<close>

theorem lockstep_never_rolls_back:
  assumes "libs_ok L" "lockstep L hash t0 w0 inputs m0 n s m c"
    and "m0 < k" "k \<le> n" "k \<le> m" "m < k + 128"
  shows "sv_tick s = t0 + of_nat n \<and> sv_world s = world_at inputs w0 n \<and>
    cl_predicted_tick c = t0 + of_nat m \<and> cl_world c = world_at inputs w0 m \<and>
    (\<exists>c'. reconcile Release hash now (snapshot_packet (t0 + of_nat k)
        (calculate_hash hash (world_at inputs w0 k)) session (world_at inputs w0 k)) c = Some c' \<and>
      same_prediction c c' \<and> cl_last_server_tick c' = t0 + of_nat k)"
  using lockstep_in_step [OF assms(1,2)] frames_ok_reconcile [OF _ assms(3,5,6)]
  by (simp add: in_step_def)

theorem lockstep_never_rolls_back_witness:
  "\<exists>s c c'. lockstep plain_libs from_le_bytes 0 (sv_world example_server) (\<lambda>i. 1) 0 1 s 1 c \<and>
    reconcile Release from_le_bytes 0 (snapshot_packet 1
      (calculate_hash from_le_bytes (sv_world s)) session_new (sv_world s)) c = Some c' \<and>
    same_prediction c c' \<and> cl_world c = sv_world s"
proof -
  obtain s c where run: "lockstep plain_libs from_le_bytes 0 (sv_world example_server) (\<lambda>i. 1) 0 1 s 1 c"
    using example_lockstep by blast
  from lockstep_never_rolls_back [OF plain_libs_ok run, of 1 0 session_new]
  have "\<exists>c'. reconcile Release from_le_bytes 0 (snapshot_packet 1
      (calculate_hash from_le_bytes (sv_world s)) session_new (sv_world s)) c = Some c' \<and>
    same_prediction c c' \<and> cl_world c = sv_world s" by auto
  with run show ?thesis by blast
qed

end
