(* ===== verification/Authority.thy ===== *)
theory Authority
  imports Lockstep
begin

text \<open>
  From an iteration of the server to a synchronised client: the snapshot that \<open>bin/server.rs\<close> queues
  for a client goes through the flush of its connection, the cipher and the wire, and ends the
  synchronisation loop of \<open>bin/client.rs\<close>, from where on the two are in the lockstep of \<open>Lockstep\<close>. A client that has
  mispredicted gets there by the rollback that a later snapshot causes.
\<close>

section \<open>The snapshot of an iteration\<close>

lemma world_at_still:
  "(\<forall>i < k. \<not> bit (inputs i) 0) \<Longrightarrow> world_at inputs w k = w"
proof (induction k)
  case (Suc k)
  then have "inputs k AND 1 = 0" using and_exp_eq_0 [of "inputs k" 0] by simp
  with Suc show ?case by (simp add: moved_def)
qed simp

lemma flush_one:
  assumes "libs_ok L" "connection_ok c" "list_all sendable (pending_queue c)"
    and "pending_queue c = [\<lparr>ps_data = d, ps_reliable = False\<rparr>]" "0 \<le> now"
    and "process_retransmissions Release now (conn_state c) = Some (st, [])"
  shows "\<exists>c' w. connection_update Release L now c = Some (c', [w]) \<and>
    carries L c (\<lparr>ps_data = d, ps_reliable = False\<rparr>, tx_nonce c) w"
  using connection_update_spec [OF assms(1-3,5) _ assms(6)] assms(4)
  by (auto simp: list_all2_Cons1 nonce_room_def)

text \<open>A client whose connection is alive and idle gets exactly one datagram, its snapshot.\<close>

lemma server_tick_snapshot:
  assumes "libs_ok L" "server_ok s" "readings_ok_all env"
    and r: "server_receive Release L env s = Some (tick, m, ss)"
    and "env_orders env m ss" "server_tick Release L hash env s = Some (s', out)"
    and c: "m a = Some c" "pending_queue c = []"
      "duration_since (te_evict_now env) (last_seen c) < eviction_timeout"
      "process_retransmissions Release (te_flush_now env) (conn_state c) = Some (st, [])"
  shows "\<exists>w (session :: client_session). map fst (filter (\<lambda>(w, b). b = a) out) = [w] \<and>
    carries L c (\<lparr>ps_data = snapshot_packet tick (calculate_hash hash (sv_world s')) session (sv_world s'),
      ps_reliable = False\<rparr>, tx_nonce c) w"
proof -
  note rok = server_receive_ok [OF assms(2,3) r]
  obtain sess where sess: "ss a = Some sess" using rok(3) c(1) by blast
  let ?d = "snapshot_packet tick (calculate_hash hash (sv_world s')) (step_session tick sess) (sv_world s')"
  let ?q = "queued ?d c"
  have len: "length ?d = 37"
    using server_tick_ok [OF assms(1-6)] by (intro snapshot_packet_length) (simp add: server_ok_def)
  then have q: "pending_queue ?q = [\<lparr>ps_data = ?d, ps_reliable = False\<rparr>]" "conn_state ?q = conn_state c"
    "conn_pipeline ?q = conn_pipeline c" "tx_nonce ?q = tx_nonce c"
    using c(2) by (simp_all add: queued_def)
  have prep: "prepared hash env tick (sv_world s') m ss a = Some ?q"
    using c(1,3) sess
    by (simp add: prepared_def evict_stale_connections_def map_retain_def broadcasted_def stepped_def)
  have "connection_ok c" using manager_okD [OF rok(1) c(1)] by simp
  moreover have "length ?d < 2 ^ 63" unfolding len by simp
  ultimately have "connection_ok ?q" by (rule queued_ok)
  moreover have "list_all sendable (pending_queue ?q)" using q(1) len by (auto simp: sendable_def)
  moreover have "0 \<le> te_flush_now env" using assms(3) by (simp add: readings_ok_all_def)
  moreover have "process_retransmissions Release (te_flush_now env) (conn_state ?q) = Some (st, [])"
    using c(4) q(2) by simp
  ultimately obtain c' w where up: "connection_update Release L (te_flush_now env) ?q = Some (c', [w])"
    and carr: "carries L ?q (\<lparr>ps_data = ?d, ps_reliable = False\<rparr>, tx_nonce ?q) w"
    using flush_one [OF assms(1) _ _ q(1)] by blast
  moreover from carr have "carries L c (\<lparr>ps_data = ?d, ps_reliable = False\<rparr>, tx_nonce c) w"
    using q(3,4) by (simp add: carries_def)
  ultimately show ?thesis
    using server_tick_out [OF assms(2,3) r assms(5,6), of a] prep up by (auto simp: wire_of_def)
qed

lemma synchronised_ok:
  assumes "client_ok cl" "readings_ok (ce_clock env 0)"
    and "handle_packet Release L (ce_clock env 0) srv w (cl_manager cl) = Some (m, r)"
    and "positions world \<noteq> []"
  shows "client_ok (synchronised env m t world cl)"
  using assms handle_packet_ok [OF _ assms(2,3)] handle_packet_sendable [OF _ assms(3)]
  by (simp add: client_ok_def synchronised_def push_snapshot_ok)

lemma moved_cong: "bit a 0 = bit b 0 \<Longrightarrow> moved a w = moved b w"
  using and_exp_eq_0 [of a 0] and_exp_eq_0 [of b 0] by (simp add: moved_def)

lemma resimulated_world_at:
  "\<forall>i < n. bit (inputs i) 0 = bit (inp (t + of_nat (Suc i))) 0 \<Longrightarrow>
    resimulated inp t w n = world_at inputs w n"
proof (induction n)
  case (Suc n)
  then have "resimulated inp t w n = world_at inputs w n" by simp
  moreover have "moved (inp (t + of_nat (Suc n))) v = moved (inputs n) v" for v
    using Suc.prems by (intro moved_cong) simp
  ultimately show ?case by (simp only: resimulated.simps world_at.simps)
qed simp

section \<open>Properties\<close>

text \<open>
  C10: an iteration of the server synchronises a waiting client. The server sends a client whose
  connection is alive and has nothing else to send exactly one datagram; given to the synchronisation
  loop of the client under the same session key, it ends that loop with the server's new world, its
  tick, and a prediction three ticks ahead. If the world does not move in these three ticks, the two
  are then in lockstep, so that the client does not roll back as long as it predicts the inputs.
\<close>

theorem server_tick_synchronises:
  assumes "libs_ok L" "server_ok s" "readings_ok_all env"
    and "server_receive Release L env s = Some (tick, m, ss)"
    and "env_orders env m ss" "server_tick Release L hash env s = Some (s', out)"
    and "m a = Some c" "pending_queue c = []"
      "duration_since (te_evict_now env) (last_seen c) < eviction_timeout"
      "process_retransmissions Release (te_flush_now env) (conn_state c) = Some (st, [])"
    and "client_ok cl" "readings_ok (ce_clock cenv 0)"
      "cl_manager cl srv = Some d" "conn_pipeline d = conn_pipeline c"
  shows "\<exists>w cl'. filter (\<lambda>(w, b). b = a) out = [(w, a)] \<and>
    sync_step Release L addr (cenv\<lparr>ce_poll := Inr [(w, srv)]\<rparr>) cl = Some (cl', True, []) \<and>
    cl_world cl' = sv_world s' \<and> cl_last_server_tick cl' = sv_tick s' \<and>
    cl_predicted_tick cl' = sv_tick s' + 3 \<and>
    (\<forall>inputs. (\<forall>i < 3. \<not> bit (inputs i) 0) \<longrightarrow>
      lockstep L hash (sv_tick s') (sv_world s') inputs 3 0 s' 3 cl')"
proof -
  have ok: "server_ok s'" by (rule server_tick_ok [OF assms(1-6)])
  then obtain pos where pos: "positions (sv_world s') = [pos]"
    by (cases "positions (sv_world s')") (auto simp: server_ok_def)
  have tick: "sv_tick s' = tick" using server_tick_shape [OF assms(2-6)] by blast
  obtain w and session :: client_session where w: "map fst (filter (\<lambda>(w, b). b = a) out) = [w]"
    "carries L c (\<lparr>ps_data = snapshot_packet tick (calculate_hash hash (sv_world s')) session (sv_world s'),
      ps_reliable = False\<rparr>, tx_nonce c) w"
    using server_tick_snapshot [OF assms(1-10)] by (elim exE conjE) (rule that)
  from w(1) have out: "filter (\<lambda>(w, b). b = a) out = [(w, a)]"
    by (cases "filter (\<lambda>(w, b). b = a) out") (auto dest: filter_eq_ConsD)
  let ?env = "cenv\<lparr>ce_poll := Inr [(w, srv)]\<rparr>"
  obtain m' where sync: "handle_packet Release L (ce_clock ?env 0) srv w (cl_manager cl) =
      Some (m', Some (snapshot_packet tick (calculate_hash hash (sv_world s')) session (sv_world s')))"
    "sync_step Release L addr ?env cl = Some (synchronised ?env m' tick (sv_world s') cl, True, [])"
    using sync_snapshot [OF w(2) assms(13,14) pos, of ?env] by auto
  let ?cl = "synchronised ?env m' tick (sv_world s') cl"
  have "client_ok ?cl"
    using synchronised_ok [OF assms(11) _ sync(1)] assms(12) pos by simp
  then have "lockstep L hash (sv_tick s') (sv_world s') inputs 3 0 s' 3 ?cl"
    if "\<forall>i < 3. \<not> bit (inputs i) 0" for inputs
    using that ok tick by (intro lockstep.start) (simp_all add: synchronised_def world_at_still)
  with out sync(2) show ?thesis by (auto simp: synchronised_def tick)
qed

theorem server_tick_synchronises_witness:
  "\<exists>cl s' out w cl'. client_new 0 = Some cl \<and>
    server_tick Release plain_libs from_le_bytes example_quiet example_server = Some (s', out) \<and>
    filter (\<lambda>(w, b). b = example_a) out = [(w, example_a)] \<and>
    sync_step Release plain_libs example_b ((silent_env 0 example_b)\<lparr>ce_poll := Inr [(w, example_b)]\<rparr>)
      (cl\<lparr>cl_manager := [example_b \<mapsto> connection_new example_b False static_pipeline 0 0]\<rparr>) =
      Some (cl', True, []) \<and>
    cl_world cl' = sv_world s' \<and>
    lockstep plain_libs from_le_bytes (sv_tick s') (sv_world s') (\<lambda>_. 0) 3 0 s' 3 cl'"
proof -
  obtain s' out where t: "server_tick Release plain_libs from_le_bytes example_quiet example_server =
      Some (s', out)"
    using example_quiet_tick by blast
  obtain cl where cl: "client_new 0 = Some cl" "client_ok cl" using client_new_ok by blast
  let ?d = "connection_new example_b False static_pipeline 0 0"
  let ?cl = "cl\<lparr>cl_manager := [example_b \<mapsto> ?d]\<rparr>"
  have ok: "client_ok ?cl"
    using cl(2) connection_new_ok [of static_pipeline example_b False 0 0]
    by (simp add: client_ok_def manager_ok_def all_sendable_def pipeline_ok_def static_poc_key_def)
  let ?c = "connection_new example_a True static_pipeline 0 0"
  have c: "sv_manager example_server example_a = Some ?c" "pending_queue ?c = []"
    "duration_since (te_evict_now example_quiet) (last_seen ?c) < eviction_timeout"
    by (simp_all add: example_server_def example_quiet_def example_env_def connection_new_def
        duration_since_def eviction_timeout_def)
  have re: "process_retransmissions Release (te_flush_now example_quiet) (conn_state ?c) =
      Some (conn_state ?c, [])"
    by (simp add: process_retransmissions_def connection_new_def reliable_new_def)
  have clock: "readings_ok (ce_clock (silent_env 0 example_b) 0)"
    by (simp add: silent_env_def readings_ok_def clock_ok_def)
  have d: "cl_manager ?cl example_b = Some ?d" "conn_pipeline ?d = conn_pipeline ?c"
    by (simp_all add: connection_new_def)
  from server_tick_synchronises [OF plain_libs_ok example_server_ok example_quiet_ready
      example_quiet_receive example_quiet_orders t c re ok clock d, of example_b]
  show ?thesis using cl(1) t by fastforce
qed

text \<open>
  C4: a client that has mispredicted is brought back into lockstep by one snapshot. When the server's
  snapshot of its current tick disagrees with the frame that the client has recorded for it, the
  client rolls back to it and is three ticks ahead of the server; if the server will combine, in these
  three ticks, inputs that move the world exactly where the recorded ones of the client do, the two are
  in lockstep from there on, so that \<open>lockstep_never_rolls_back\<close> applies to every later snapshot.
\<close>

theorem correction_restores_lockstep:
  assumes "server_ok s" "client_ok c" "unat (sv_tick s) + 3 < 2 ^ 64"
    and "history_get (cl_history c) (sv_tick s) = Some (Some r)"
      "fr_state_hash r \<noteq> calculate_hash hash (sv_world s)"
    and "\<forall>i < 3. bit (inputs i) 0 \<longleftrightarrow>
      bit (recorded_input (cl_history c) (sv_tick s + of_nat (Suc i))) 0"
  shows "\<exists>c'. reconcile Release hash now (snapshot_packet (sv_tick s)
      (calculate_hash hash (sv_world s)) session (sv_world s)) c = Some c' \<and>
    cl_rollbacks c' = cl_rollbacks c + 1 \<and> cl_predicted_tick c' = sv_tick s + 3 \<and>
    cl_world c' = world_at inputs (sv_world s) 3 \<and>
    lockstep L hash (sv_tick s) (sv_world s) inputs 3 0 s 3 c'"
proof -
  obtain pos where pos: "positions (sv_world s) = [pos]"
    using assms(1) by (cases "positions (sv_world s)") (auto simp: server_ok_def)
  then have w: "\<lparr>positions = [pos]\<rparr> = sv_world s" by simp
  let ?d = "snapshot_packet (sv_tick s) (calculate_hash hash (sv_world s)) session (sv_world s)"
  obtain c2 where same: "same_prediction c c2"
    and rec: "reconcile Release hash now ?d c = rollback Release hash (sv_tick s) pos c2"
    using reconcile_snapshot [OF pos assms(4), of Release hash now session] assms(5) by auto
  have hist: "cl_history c2 = cl_history c" "cl_rollbacks c2 = cl_rollbacks c" "history_ok 7 (cl_history c2)"
    using same assms(2) by (simp_all add: same_prediction_def client_ok_def)
  from rollback_spec [OF hist(3) _ assms(3), of hash pos] obtain h' where
    "rollback Release hash (sv_tick s) pos c2 = Some (c2\<lparr>cl_rollbacks := cl_rollbacks c + 1,
      cl_world := resimulated (recorded_input (cl_history c)) (sv_tick s) (sv_world s) 3,
      cl_history := h', cl_predicted_tick := sv_tick s + 3\<rparr>)"
    by (auto simp: hist(1,2) w)
  then obtain c' where c': "reconcile Release hash now ?d c = Some c'" "cl_rollbacks c' = cl_rollbacks c + 1"
    "cl_world c' = resimulated (recorded_input (cl_history c)) (sv_tick s) (sv_world s) 3"
    "cl_predicted_tick c' = sv_tick s + 3"
    by (simp add: rec)
  have "resimulated (recorded_input (cl_history c)) (sv_tick s) (sv_world s) 3 =
      world_at inputs (sv_world s) 3"
    using assms(6) by (intro resimulated_world_at) simp
  then have world: "cl_world c' = world_at inputs (sv_world s) 3" by (simp add: c'(3))
  have "lockstep L hash (sv_tick s) (sv_world s) inputs 3 0 s 3 c'"
    using assms(1) reconcile_ok [OF assms(2) c'(1)] c'(4) world by (intro lockstep.start) simp_all
  with c' world show ?thesis by blast
qed

theorem correction_restores_lockstep_witness:
  "\<exists>c0 h c'. client_new 0 = Some c0 \<and>
    history_insert \<lparr>fr_tick = sv_tick server_new, fr_state = \<lparr>positions = []\<rparr>, fr_state_hash = 99,
      fr_input = 1\<rparr> (cl_history c0) = Some h \<and>
    reconcile Release (\<lambda>bs. 42) 0 (snapshot_packet (sv_tick server_new)
      (calculate_hash (\<lambda>bs. 42) (sv_world server_new)) session_new (sv_world server_new))
      (c0\<lparr>cl_history := h\<rparr>) = Some c' \<and>
    lockstep plain_libs (\<lambda>bs. 42) (sv_tick server_new) (sv_world server_new) (\<lambda>_. 0) 3 0 server_new 3 c'"
proof -
  let ?r = "\<lparr>fr_tick = sv_tick server_new, fr_state = \<lparr>positions = []\<rparr>, fr_state_hash = 99,
      fr_input = 1 :: u32\<rparr>"
  let ?h = "\<lparr>hb_buffer = replicate 128 None, hb_mask = 127\<rparr>"
  obtain c0 where c0: "client_new 0 = Some c0" "client_ok c0" using client_new_ok by blast
  then have h0: "cl_history c0 = ?h" by (auto simp: client_new_def client_history_new(1))
  obtain h where h: "history_insert ?r ?h = Some h" "history_ok 7 h"
    using history_insert_total [OF client_history_new(2)] by blast
  have s0: "sv_tick server_new = 0" by (simp add: server_new_def)
  note get = history_get_insert [OF client_history_new(2) h(1)]
  have at: "history_get h (sv_tick server_new) = Some (Some ?r)" using get by simp
  have ok: "client_ok (c0\<lparr>cl_history := h\<rparr>)" using c0(2) h(2) by (simp add: client_ok_def)
  have "recorded_input h 1 = 0" "recorded_input h 2 = 0" "recorded_input h 3 = 0"
    by (simp_all add: recorded_input_def get s0)
      (simp_all add: history_get_def history_index_def)
  then have rest: "\<forall>i < 3. bit (0 :: u32) 0 \<longleftrightarrow> bit (recorded_input h (sv_tick server_new + of_nat (Suc i))) 0"
    by (auto simp: s0 less_Suc_eq numeral_3_eq_3)
  from correction_restores_lockstep [OF server_new_ok ok, of ?r "\<lambda>bs. 42" "\<lambda>_. 0" 0 session_new plain_libs]
  show ?thesis using c0(1) h(1) h0 at rest by (auto simp: s0 calculate_hash_def)
qed

end
