(* ===== verification/Recovery.thy ===== *)
theory Recovery
  imports Conn_Invariant
begin

text \<open>
  What retransmission is for: the datagrams of flushes that get lost, one after the other, are sent
  again by the flushes that follow, until one of them gets through. The bytes are those of the first
  flush, made by the pipeline that the connection had then, so that even a handshake, after which the
  sender has changed its pipeline, is recovered.
\<close>

section \<open>A pass in which everything is due\<close>

lemma all_due:
  assumes "length due = length pkts" "\<forall>i < length pkts. due ! i"
  shows "resent_data due pkts = map up_data pkts"
    and "map up_data (retransmitted now due pkts) = map up_data pkts"
    and "pkt \<in> set (retransmitted now due pkts) \<Longrightarrow> up_time_sent pkt = now"
proof -
  have due: "due = replicate (length pkts) True"
    using assms by (intro nth_equalityI) simp_all
  show "resent_data due pkts = map up_data pkts"
    unfolding due by (induction pkts) (simp_all add: resent_data_def)
  show "map up_data (retransmitted now due pkts) = map up_data pkts"
    using retransmitted_keys [OF assms(1)] by simp
  have "retransmitted now due pkts = map (\<lambda>pkt. pkt\<lparr>up_time_sent := now, up_retries := up_retries pkt + 1\<rparr>) pkts"
    unfolding due by (induction pkts) (simp_all add: retransmitted_def)
  then show "up_time_sent pkt = now" if "pkt \<in> set (retransmitted now due pkts)"
    using that by auto
qed

lemma resend_all:
  assumes "rtt_ok s" "sent_ok s" "clock_ok now"
    and "\<forall>pkt \<in> set (unacknowledged_packets s). up_time_sent pkt + 2 * 10 ^ 9 \<le> now"
  shows "\<exists>s'. process_retransmissions Release now s = Some (s', map up_data (unacknowledged_packets s)) \<and>
    map up_data (unacknowledged_packets s') = map up_data (unacknowledged_packets s) \<and>
    (\<forall>pkt \<in> set (unacknowledged_packets s'). up_time_sent pkt = now)"
proof -
  let ?pkts = "unacknowledged_packets s"
  obtain s' out where re: "process_retransmissions Release now s = Some (s', out)"
    using process_retransmissions_total by (metis surj_pair)
  obtain due where due: "due_exactly now (retransmission_timeout_ms s) ?pkts due"
    "unacknowledged_packets s' = retransmitted now due ?pkts" "out = resent_data due ?pkts"
    using process_retransmissions_spec [OF re] by blast
  have "due ! i" if "i < length ?pkts" for i
    using that due_exactly_bounds(2) [OF due(1) _ that] assms(1-4)
      elapsed_two_seconds [of "up_time_sent (?pkts ! i)" now]
    by (auto simp: sent_ok_def clock_ok_def rtt_ok_def)
  then have "\<forall>i < length ?pkts. due ! i" by blast
  from all_due [OF _ this] due(1) re due(2,3) show ?thesis
    by (auto simp: due_exactly_def)
qed

section \<open>A connection with datagrams outstanding\<close>

definition outstanding :: "bytes list \<Rightarrow> pipeline \<Rightarrow> instant \<Rightarrow> connection \<Rightarrow> bool" where
  "outstanding ds pl t c \<longleftrightarrow> connection_ok c \<and> pending_queue c = [] \<and>
     conn_pipeline c = pl \<and> pending_pipeline_swap c = None \<and>
     map up_data (unacknowledged_packets (conn_state c)) = ds \<and>
     (\<forall>pkt \<in> set (unacknowledged_packets (conn_state c)). up_time_sent pkt = t)"

lemma outstanding_flush:
  assumes "libs_ok L" "outstanding ds pl t c" "clock_ok now" "t + 2 * 10 ^ 9 \<le> now"
  shows "\<exists>c'. connection_update Release L now c = Some (c', ds) \<and> outstanding ds pl now c'"
proof -
  have c: "connection_ok c" "pending_queue c = []" "pending_pipeline_swap c = None" "conn_pipeline c = pl"
    "map up_data (unacknowledged_packets (conn_state c)) = ds"
    "\<forall>pkt \<in> set (unacknowledged_packets (conn_state c)). up_time_sent pkt + 2 * 10 ^ 9 \<le> now"
    using assms(2,4) by (auto simp: outstanding_def)
  obtain st where st: "process_retransmissions Release now (conn_state c) = Some (st, ds)"
    "map up_data (unacknowledged_packets st) = ds" "\<forall>pkt \<in> set (unacknowledged_packets st). up_time_sent pkt = now"
    using resend_all [OF _ _ assms(3) c(6)] c(1,5) by (auto simp: connection_ok_def)
  have "0 \<le> now" using assms(3) by (simp add: clock_ok_def)
  then show ?thesis
    using connection_update_spec [OF assms(1) c(1) _ _ _ st(1)] c(2-4) st(2,3)
      connection_update_empties [of Release L now c]
    by (fastforce simp: nonce_room_def outstanding_def)
qed

text \<open>Flushes whose datagrams are all lost, and the times of flushes at least two seconds apart.\<close>

fun lost_flushes :: "libs \<Rightarrow> instant list \<Rightarrow> connection \<Rightarrow> connection option" where
  "lost_flushes L [] c = Some c"
| "lost_flushes L (now # later) c = do {
     (c', lost) \<leftarrow> connection_update Release L now c;
     lost_flushes L later c'
   }"

fun spaced :: "instant \<Rightarrow> instant list \<Rightarrow> bool" where
  "spaced t [] = True"
| "spaced t (now # later) \<longleftrightarrow> clock_ok now \<and> t + 2 * 10 ^ 9 \<le> now \<and> spaced now later"

lemma outstanding_lost:
  "libs_ok L \<Longrightarrow> outstanding ds pl t c \<Longrightarrow> spaced t (ts @ [later]) \<Longrightarrow>
    \<exists>c1 c2. lost_flushes L ts c = Some c1 \<and> connection_update Release L later c1 = Some (c2, ds) \<and>
      outstanding ds pl later c2"
proof (induction ts arbitrary: t c)
  case Nil
  then show ?case using outstanding_flush by fastforce
next
  case (Cons now ts)
  then have now: "clock_ok now" "t + 2 * 10 ^ 9 \<le> now" "spaced now (ts @ [later])" by simp_all
  obtain c' where "connection_update Release L now c = Some (c', ds)" "outstanding ds pl now c'"
    using outstanding_flush [OF Cons.prems(1,2) now(1,2)] by blast
  with Cons.IH [OF Cons.prems(1) _ now(3)] show ?case by auto
qed

section \<open>The first flush\<close>

lemma carries_unacked:
  "list_all2 (carries L c) sends ws \<Longrightarrow>
    list_all2 (carries L c) (filter (ps_reliable \<circ> fst) sends) (map up_data (unacked_of now sends ws)) \<and>
    set (map up_data (unacked_of now sends ws)) \<subseteq> set ws"
proof (induction rule: list_all2_induct)
  case (Cons send sends w ws)
  then show ?case by (cases send) auto
qed simp

lemma first_flush:
  assumes "libs_ok L" "connection_ok c" "list_all sendable (pending_queue c)"
    and "unacknowledged_packets (conn_state c) = []" "clock_ok now"
  defines "sends \<equiv> number_sends (next_outgoing_sequence (conn_state c)) (tx_nonce c) (pending_queue c)"
  shows "\<exists>c' ws ds. connection_update Release L now c = Some (c', ws) \<and> set ds \<subseteq> set ws \<and>
    list_all2 (carries L c) sends ws \<and>
    list_all2 (carries L c) (filter (ps_reliable \<circ> fst) sends) ds \<and>
    outstanding ds (case pending_pipeline_swap c of None \<Rightarrow> conn_pipeline c | Some pl \<Rightarrow> pl) now c'"
proof -
  have "0 \<le> now" "nonce_room Release (pending_queue c) (tx_nonce c)"
    using assms(5) by (simp_all add: clock_ok_def nonce_room_def)
  from connection_update_spec [OF assms(1-3) this no_unacked_no_resends [OF assms(4)]]
  obtain c' ws where up: "connection_update Release L now c = Some (c', ws)"
    "list_all2 (carries L c) sends ws" "connection_ok c'" "pending_queue c' = []"
    "conn_pipeline c' = (case pending_pipeline_swap c of None \<Rightarrow> conn_pipeline c | Some pl \<Rightarrow> pl)"
    "pending_pipeline_swap c' = None"
    "unacknowledged_packets (conn_state c') = unacked_of now sends ws"
    using assms(4) unfolding sends_def by auto
  with carries_unacked [OF up(2), of now] show ?thesis
    by (intro exI [of _ c'] exI [of _ ws] exI [of _ "map up_data (unacked_of now sends ws)"])
      (auto simp: outstanding_def dest: unacked_of_times)
qed

lemma filter_sends: "map fst (filter (ps_reliable \<circ> fst) sends) = filter ps_reliable (map fst sends)"
  by (induction sends) auto

section \<open>Properties\<close>

text \<open>
  C13: reliable data survives the loss of its datagrams. When a flush is lost, and any number of flushes
  after it, at least two seconds apart and with nothing else to send, then the next one still consists
  of datagrams of the first flush, and a peer whose pipeline is the one that the connection had in the
  first flush hands its application all the reliable data of that flush, in the order in which it was
  queued.
\<close>

theorem lost_flushes_are_recovered:
  assumes "libs_ok L" "connection_ok c" "list_all deliverable (pending_queue c)"
    and "unacknowledged_packets (conn_state c) = []" "clock_ok now" "spaced now (ts @ [later])"
    and "m addr = Some d" "conn_pipeline d = conn_pipeline c"
  shows "\<exists>c1 ws c2 c3 out m'. connection_update Release L now c = Some (c1, ws) \<and>
    lost_flushes L ts c1 = Some c2 \<and> connection_update Release L later c2 = Some (c3, out) \<and>
    set out \<subseteq> set ws \<and>
    deliver_all Release L t addr out m =
      Some (m', map ps_data (filter ps_reliable (pending_queue c)))"
proof -
  let ?sends = "number_sends (next_outgoing_sequence (conn_state c)) (tx_nonce c) (pending_queue c)"
  let ?rel = "filter (ps_reliable \<circ> fst) ?sends"
  have "list_all sendable (pending_queue c)"
    using assms(3) by (auto simp: list_all_iff deliverable_sendable)
  from first_flush [OF assms(1,2) this assms(4,5)] obtain c1 ws ds pl where
    up: "connection_update Release L now c = Some (c1, ws)" "set ds \<subseteq> set ws"
    and carr: "list_all2 (carries L c) ?rel ds" and out: "outstanding ds pl now c1" by blast
  from outstanding_lost [OF assms(1) out assms(6)] obtain c2 c3 where
    lost: "lost_flushes L ts c1 = Some c2" "connection_update Release L later c2 = Some (c3, ds)" by blast
  have fst: "map fst ?rel = filter ps_reliable (pending_queue c)"
    by (simp add: filter_sends number_sends_fst)
  then have "list_all deliverable (map fst ?rel)" using assms(3) by (auto simp: list_all_iff)
  moreover have "\<forall>(ps, n) \<in> set ?rel. ps_reliable ps \<longrightarrow> (\<exists>s :: u16. n = ucast s)"
    using number_sends_reliable by fastforce
  ultimately obtain m' where "deliver_all Release L t addr ds m = Some (m', map (ps_data \<circ> fst) ?rel)"
    using deliver_carried [OF carr, of m addr d t] assms(7,8) by blast
  moreover have "map (ps_data \<circ> fst) ?rel = map ps_data (filter ps_reliable (pending_queue c))"
    by (metis fst list.map_comp)
  ultimately show ?thesis using up lost by auto
qed

theorem lost_flushes_are_recovered_witness:
  "\<exists>c1 ws c2 c3 out m'. connection_update Release plain_libs 0 example_sender = Some (c1, ws) \<and>
    lost_flushes plain_libs [2 * 10 ^ 9, 5 * 10 ^ 9] c1 = Some c2 \<and>
    connection_update Release plain_libs (7 * 10 ^ 9) c2 = Some (c3, out) \<and>
    deliver_all Release plain_libs example_readings \<lparr>sa_ip = [49], sa_port = 80\<rparr> out example_receiver =
      Some (m', [[7]])"
proof -
  have "clock_ok 0" "spaced 0 ([2 * 10 ^ 9, 5 * 10 ^ 9] @ [7 * 10 ^ 9])" by (simp_all add: clock_ok_def)
  then show ?thesis
    using lost_flushes_are_recovered [OF plain_libs_ok example_sender_ok, where m = example_receiver
        and addr = "\<lparr>sa_ip = [49], sa_port = 80\<rparr>" and t = example_readings and now = 0
        and ts = "[2 * 10 ^ 9, 5 * 10 ^ 9]" and later = "7 * 10 ^ 9"] example_receiver_knows
    by (fastforce simp: example_sender_def)
qed

text \<open>
  C14: a lost handshake is recovered. The server changes to the session key in the flush that sends it
  to the client; when that flush is lost, and any number of flushes after it, at least two seconds
  apart, the next one is the handshake again, still under the old key, and the client that receives it
  is authenticated and has the pipeline of the server.
\<close>

theorem lost_handshake_is_recovered:
  assumes "libs_ok L" "connection_ok c" "greeting key c []" "clock_ok now" "spaced now (ts @ [later])"
    and "m server = Some d" "conn_pipeline d = conn_pipeline c"
  shows "\<exists>c1 c2 c3 w d'. connection_update Release L now c = Some (c1, [w]) \<and>
    lost_flushes L ts c1 = Some c2 \<and> connection_update Release L later c2 = Some (c3, [w]) \<and>
    handle_packet Release L t server w m = Some (m(server \<mapsto> d'), None) \<and> is_authenticated d' \<and>
    conn_pipeline d' = key_pipeline key \<and> conn_pipeline c1 = key_pipeline key \<and>
    conn_pipeline c3 = key_pipeline key"
proof -
  let ?hs = "\<lparr>ps_data = handshake_message key, ps_reliable = True\<rparr>"
  have c: "pending_queue c = [?hs]" "unacknowledged_packets (conn_state c) = []"
    "pending_pipeline_swap c = Some (key_pipeline key)"
    using assms(3) by (simp_all add: greeting_def)
  have "0 \<le> now" using assms(4) by (simp add: clock_ok_def)
  then obtain c1 w d' where
    first: "connection_update Release L now c = Some (c1, [w])"
    "handle_packet Release L t server w m = Some (m(server \<mapsto> d'), None)" "is_authenticated d'"
    "conn_pipeline d' = key_pipeline key" "conn_pipeline c1 = key_pipeline key"
    using greeting_received [OF assms(1,2) _ assms(3), of now m server d t] assms(6,7) by auto
  have "list_all sendable (pending_queue c)" by (simp add: c sendable_def)
  from first_flush [OF assms(1,2) this c(2) assms(4)] first(1) c(1,3) have "outstanding [w] (key_pipeline key) now c1"
    by (auto simp: list_all2_Cons1)
  from outstanding_lost [OF assms(1) this assms(5)] first show ?thesis
    by (fastforce simp: outstanding_def)
qed

theorem lost_handshake_is_recovered_witness:
  "\<exists>key c1 c2 c3 w m'. connection_update Release plain_libs 0
      (greeted example_readings \<lparr>sa_ip = [50], sa_port = 80\<rparr>) = Some (c1, [w]) \<and>
    lost_flushes plain_libs [2 * 10 ^ 9] c1 = Some c2 \<and>
    connection_update Release plain_libs (4 * 10 ^ 9) c2 = Some (c3, [w]) \<and>
    handle_packet Release plain_libs example_readings \<lparr>sa_ip = [49], sa_port = 80\<rparr> w example_receiver =
      Some (m', None) \<and> conn_pipeline c3 = key_pipeline key"
proof -
  let ?c = "greeted example_readings \<lparr>sa_ip = [50], sa_port = 80\<rparr>"
  have "clock_ok 0" "spaced 0 ([2 * 10 ^ 9] @ [4 * 10 ^ 9])" by (simp_all add: clock_ok_def)
  moreover have "conn_pipeline (connection_new \<lparr>sa_ip = [49], sa_port = 80\<rparr> True static_pipeline 0 0) =
      conn_pipeline ?c"
    by (simp add: greeted_def Let_def)
  ultimately show ?thesis
    using lost_handshake_is_recovered [OF plain_libs_ok greeted_ok(1) greeted_greeting,
      where m = example_receiver and server = "\<lparr>sa_ip = [49], sa_port = 80\<rparr>" and t = example_readings
        and now = 0 and ts = "[2 * 10 ^ 9]" and later = "4 * 10 ^ 9"] example_receiver_knows(1)
    by fastforce
qed

end
