(* ===== verification/Server_Run.thy ===== *)
theory Server_Run
  imports Server_Tick
begin

text \<open>
  The server of \<open>bin/server.rs\<close> as it runs: the iterations of its main loop from the start, with
  whatever the socket delivers, the clock shows and the hash maps do in between.
\<close>

section \<open>Runs\<close>

text \<open>An environment that the server can meet: its orders are orders of the maps it iterates.\<close>

definition env_fits :: "libs \<Rightarrow> tick_env \<Rightarrow> server \<Rightarrow> bool" where
  "env_fits L env s \<longleftrightarrow> readings_ok_all env \<and>
     (\<forall>tick m ss. server_receive Release L env s = Some (tick, m, ss) \<longrightarrow> env_orders env m ss)"

text \<open>The worlds are those after each iteration, the first one first.\<close>

inductive server_run :: "libs \<Rightarrow> hasher \<Rightarrow> world_state list \<Rightarrow> server \<Rightarrow> bool" for L hash where
  boot: "server_run L hash [] server_new"
| iterate: "server_run L hash ws s \<Longrightarrow> env_fits L env s \<Longrightarrow>
    server_tick Release L hash env s = Some (s', out) \<Longrightarrow>
    server_run L hash (ws @ [sv_world s']) s'"

text \<open>The snapshots of consecutive ticks from 1 on.\<close>

definition tick_snapshots :: "world_state list \<Rightarrow> world_state snapshot list" where
  "tick_snapshots ws = map2 (\<lambda>i w. \<lparr>sn_tick = of_nat (Suc i), sn_state = w\<rparr>) [0..<length ws] ws"

lemma tick_snapshots_snoc:
  "tick_snapshots (ws @ [w]) =
    tick_snapshots ws @ [\<lparr>sn_tick = of_nat (Suc (length ws)), sn_state = w\<rparr>]"
  by (simp add: tick_snapshots_def)

text \<open>The only position there is, after \<open>k\<close> moves.\<close>

definition moved_times :: "nat \<Rightarrow> world_state" where
  "moved_times k = \<lparr>positions = [\<lparr>vx = of_nat (10 * k), vy = 0, vz = 0\<rparr>]\<rparr>"

lemma moved_moved_times: "moved input (moved_times k) \<in> {moved_times k, moved_times (Suc k)}"
  by (simp add: moved_def moved_times_def algebra_simps)

text \<open>What one iteration does to the world, \<open>i\<close> iterations after the start.\<close>

definition one_move :: "nat \<Rightarrow> world_state \<Rightarrow> world_state \<Rightarrow> bool" where
  "one_move i w w' \<longleftrightarrow>
     (\<exists>k \<le> i. w = moved_times k \<and> (w' = moved_times k \<or> w' = moved_times (Suc k)))"

lemma one_move_snoc:
  assumes "\<forall>i < length ws. one_move i ((w0 # ws) ! i) (ws ! i)" "one_move (length ws) (last (w0 # ws)) w"
    and "i < length (ws @ [w])"
  shows "one_move i ((w0 # ws @ [w]) ! i) ((ws @ [w]) ! i)"
proof (cases "i < length ws")
  case True
  then have "(w0 # ws @ [w]) ! i = (w0 # ws) ! i" "(ws @ [w]) ! i = ws ! i"
    by (simp_all add: nth_append flip: append_Cons)
  with assms(1) True show ?thesis by simp
next
  case False
  then have "i = length ws" using assms(3) by simp
  moreover have "(w0 # ws @ [w]) ! length ws = last (w0 # ws)"
    by (cases ws rule: rev_cases) (simp_all add: nth_append)
  ultimately show ?thesis using assms(2) by simp
qed

definition run_ok :: "world_state list \<Rightarrow> server \<Rightarrow> bool" where
  "run_ok ws s \<longleftrightarrow> server_ok s \<and> sv_tick s = of_nat (length ws) \<and>
     (\<exists>k \<le> length ws. sv_world s = moved_times k) \<and> sv_world s = last (moved_times 0 # ws) \<and>
     (\<forall>i < length ws. one_move i ((moved_times 0 # ws) ! i) (ws ! i)) \<and>
     sv_interpolator s = \<lparr>ib_buffer = last_n 128 (tick_snapshots ws), ib_buffer_size = 128\<rparr>"

lemma push_tick_snapshot:
  assumes "Suc (length ws) < 2 ^ 64"
  shows "push_snapshot \<lparr>sn_tick = of_nat (Suc (length ws)), sn_state = w\<rparr>
      \<lparr>ib_buffer = last_n 128 (tick_snapshots ws), ib_buffer_size = 128\<rparr> =
    \<lparr>ib_buffer = last_n 128 (tick_snapshots (ws @ [w])), ib_buffer_size = 128\<rparr>"
proof -
  have new: "\<not> (of_nat (Suc (length ws)) :: u64) \<le> of_nat (length ws)"
    using assms by (simp add: word_le_nat_alt unat_of_nat take_bit_nat_eq_self del: of_nat_Suc)
  have "sn_tick (last (last_n 128 (tick_snapshots ws))) = of_nat (length ws)"
    if "last_n 128 (tick_snapshots ws) \<noteq> []"
  proof -
    from that have "ws \<noteq> []" by (auto simp: last_n_def tick_snapshots_def)
    then obtain vs v where "ws = vs @ [v]" by (metis rev_exhaust)
    then show ?thesis
      using last_n_last [of 128 "tick_snapshots ws"] by (simp add: tick_snapshots_snoc)
  qed
  with new show ?thesis
    by (auto simp: push_snapshot_def Let_def tick_snapshots_snoc last_n_snoc)
qed

lemma run_ok_iterate:
  assumes "libs_ok L" "run_ok ws s" "env_fits L env s" "Suc (length ws) < 2 ^ 64"
    and "server_tick Release L hash env s = Some (s', out)"
  shows "run_ok (ws @ [sv_world s']) s'"
proof -
  have ok: "server_ok s" "readings_ok_all env" using assms(2,3) by (simp_all add: run_ok_def env_fits_def)
  obtain tick m ss where r: "server_receive Release L env s = Some (tick, m, ss)"
    using assms(5) by (auto simp: server_tick_def bind_Some_conv)
  have orders: "env_orders env m ss" using assms(3) r by (auto simp: env_fits_def)
  obtain input :: u32 where shape: "sv_world s' = moved input (sv_world s)" "sv_tick s' = tick"
    "sv_interpolator s' = push_snapshot \<lparr>sn_tick = tick, sn_state = sv_world s'\<rparr> (sv_interpolator s)"
    using server_tick_shape [OF ok r orders assms(5)] by blast
  have tick: "tick = of_nat (Suc (length ws))"
    using server_receive_ok(4) [OF ok r] assms(2) by (simp add: run_ok_def)
  obtain k where k: "k \<le> length ws" "sv_world s = moved_times k"
    using assms(2) by (auto simp: run_ok_def)
  then have step: "one_move (length ws) (sv_world s) (sv_world s')"
    using shape(1) moved_moved_times [of input k] by (auto simp: one_move_def)
  then have "\<exists>k' \<le> Suc (length ws). sv_world s' = moved_times k'"
    by (auto simp: one_move_def intro: le_SucI)
  moreover have "\<forall>i < length (ws @ [sv_world s']).
      one_move i ((moved_times 0 # ws @ [sv_world s']) ! i) ((ws @ [sv_world s']) ! i)"
    using one_move_snoc [of ws "moved_times 0" "sv_world s'"] step assms(2) by (auto simp: run_ok_def)
  moreover have "sv_interpolator s' =
      \<lparr>ib_buffer = last_n 128 (tick_snapshots (ws @ [sv_world s'])), ib_buffer_size = 128\<rparr>"
    using push_tick_snapshot [OF assms(4)] shape(3) assms(2) by (simp add: tick run_ok_def del: of_nat_Suc)
  ultimately show ?thesis
    using server_tick_ok [OF assms(1) ok r orders assms(5)] shape(2) by (simp add: run_ok_def tick)
qed

lemma server_run_ok:
  assumes "libs_ok L" "server_run L hash ws s" "length ws < 2 ^ 64"
  shows "run_ok ws s"
  using assms(2,3)
proof (induction rule: server_run.induct)
  case boot
  have "sv_tick server_new = 0" "sv_world server_new = moved_times 0"
    "sv_interpolator server_new = \<lparr>ib_buffer = [], ib_buffer_size = 128\<rparr>"
    by (simp_all add: server_new_def moved_times_def interpolator_new_def)
  then show ?case
    using server_new_ok by (simp add: run_ok_def tick_snapshots_def last_n_def)
next
  case (iterate ws s env s' out)
  then show ?case using run_ok_iterate [OF assms(1)] by simp
qed

section \<open>Telemetry\<close>

definition buffered_count :: "sessions \<Rightarrow> nat" where
  "buffered_count ss = (\<Sum>a \<in> dom ss. card (dom (input_buffer (the (ss a)))))"

lemma total_buffered_inputs_eq:
  assumes "iter_order order ss"
  shows "total_buffered_inputs Release order ss = Some (of_nat (buffered_count ss))"
proof -
  have "for_each (\<lambda>a n. case ss a of None \<Rightarrow> Some n
      | Some s \<Rightarrow> add_u Release n (of_nat (card (dom (input_buffer s))))) order n =
    Some (n + of_nat (\<Sum>a \<in> set order. card (dom (input_buffer (the (ss a))))))"
    if "distinct order" "set order \<subseteq> dom ss" for n :: usize
    using that by (induction order arbitrary: n) (auto simp: add_u_def add.assoc)
  from this [of 0] assms show ?thesis
    by (simp add: total_buffered_inputs_def buffered_count_def iter_order_def)
qed

lemma stepped_pending: "stepped tick ss a = Some s \<Longrightarrow> input_buffer s t = Some i \<Longrightarrow> tick < t"
  by (auto simp: stepped_def step_session_def map_retain_def Let_def split: option.splits if_splits)

section \<open>An idle server\<close>

text \<open>A server that nobody talks to.\<close>

definition idle_env :: tick_env where
  "idle_env = (example_env [])\<lparr>te_poll := Inr []\<rparr>"

lemma idle_tick:
  assumes "sv_manager s = manager_new" "sv_sessions s = Map.empty" "length (positions (sv_world s)) = 1"
  shows "\<exists>s'. server_tick Release L hash idle_env s = Some (s', []) \<and> sv_manager s' = manager_new \<and>
    sv_sessions s' = Map.empty \<and> length (positions (sv_world s')) = 1 \<and> sv_tick s' = sv_tick s + 1"
proof -
  have "positions (sv_world s) \<noteq> []" using assms(3) by auto
  from step_physics_total [OF this, of 0] show ?thesis
    using assms
    by (simp add: server_tick_def server_receive_def server_simulate_def idle_env_def example_env_def
        ensure_sessions_def manager_new_def Let_def evict_stale_connections_def retain_active_def
        map_retain_def fun_eq_iff)
qed

lemma idle_fits:
  assumes "sv_manager s = manager_new" "sv_sessions s = Map.empty"
  shows "env_fits L idle_env s"
  using assms example_env_readings
  by (auto simp: env_fits_def idle_env_def readings_ok_all_def server_receive_def env_orders_def
      iter_order_def example_env_def ensure_sessions_def manager_new_def evict_stale_connections_def
      map_retain_def)

lemma idle_server:
  "\<exists>ws s. server_run L hash ws s \<and> length ws = n \<and> sv_manager s = manager_new \<and>
    sv_sessions s = Map.empty \<and> length (positions (sv_world s)) = 1 \<and> sv_tick s = of_nat n"
proof (induction n)
  case 0
  then show ?case by (intro exI conjI, rule server_run.boot) (simp_all add: server_new_def)
next
  case (Suc n)
  then obtain ws s where s: "server_run L hash ws s" "length ws = n" "sv_manager s = manager_new"
    "sv_sessions s = Map.empty" "length (positions (sv_world s)) = 1" "sv_tick s = of_nat n" by blast
  from idle_tick [OF s(3-5)] obtain s' where s': "server_tick Release L hash idle_env s = Some (s', [])"
    "sv_manager s' = manager_new" "sv_sessions s' = Map.empty" "length (positions (sv_world s')) = 1"
    "sv_tick s' = sv_tick s + 1" by blast
  from server_run.iterate [OF s(1) idle_fits [OF s(3,4)] s'(1)] s(2,6) s'(2-5) show ?case
    by (intro exI conjI) (assumption, simp_all)
qed

section \<open>Properties\<close>

text \<open>
  C1: however long the server runs and whatever the network does, when overflow is not checked it
  never panics: after every iteration it is well formed, counts its iterations, has its one position
  where at most as many moves of ten have brought it as there were iterations, each iteration having
  moved it once or not at all, holds for its renderer exactly the worlds of the last 128 ticks, and
  has a next iteration.
\<close>

theorem server_runs_on:
  assumes "libs_ok L" "server_run L hash ws s" "length ws < 2 ^ 64"
  shows "server_ok s \<and> sv_tick s = of_nat (length ws) \<and>
    (\<exists>k \<le> length ws. sv_world s = moved_times k) \<and> sv_world s = last (moved_times 0 # ws) \<and>
    (\<forall>i < length ws. \<exists>k \<le> i. (moved_times 0 # ws) ! i = moved_times k \<and>
      (ws ! i = moved_times k \<or> ws ! i = moved_times (Suc k))) \<and>
    ib_buffer (sv_interpolator s) = last_n 128 (tick_snapshots ws) \<and>
    (\<forall>env. env_fits L env s \<longrightarrow> (\<exists>s' out. server_tick Release L hash env s = Some (s', out)))"
proof -
  have ok: "run_ok ws s" by (rule server_run_ok [OF assms])
  then have "\<exists>s' out. server_tick Release L hash env s = Some (s', out)" if "env_fits L env s" for env
    using that server_tick_total [OF assms(1)] unfolding run_ok_def env_fits_def by metis
  moreover have "ib_buffer (sv_interpolator s) = last_n 128 (tick_snapshots ws)"
    using ok by (simp add: run_ok_def)
  ultimately show ?thesis using ok unfolding run_ok_def one_move_def by blast
qed

text \<open>A first iteration in which two unknown clients send a byte each.\<close>

theorem server_runs_on_witness:
  "\<exists>w s. server_run plain_libs from_le_bytes [w] s \<and> server_ok s \<and> sv_tick s = 1 \<and>
    ib_buffer (sv_interpolator s) = last_n 128 (tick_snapshots [w])"
proof -
  have fits: "env_fits plain_libs (example_env [example_a, example_b]) server_new"
    using example_env_readings example_env_orders by (auto simp: env_fits_def)
  then obtain s out where "server_tick Release plain_libs from_le_bytes
      (example_env [example_a, example_b]) server_new = Some (s, out)"
    using server_tick_total [OF plain_libs_ok server_new_ok] unfolding env_fits_def by metis
  from server_run.iterate [OF server_run.boot fits this]
  have run: "server_run plain_libs from_le_bytes [sv_world s] s" by simp
  from server_runs_on [OF plain_libs_ok run] run show ?thesis by auto
qed

text \<open>
  The telemetry of the server is right: a running server with overflow unchecked gets through every
  iteration with its telemetry, which pulses in exactly the iterations whose number is divisible by
  60 and then reports the tick, the hash of the new world, as clients the connections that are left,
  and the number of inputs, modulo the width of the counter, that their sessions hold for later ticks,
  in whatever order the sessions are iterated.
\<close>

theorem telemetry_reports_pending_inputs:
  assumes "libs_ok L" "server_run L hash ws s" "length ws < 2 ^ 64" "env_fits L env s"
    and "\<forall>s' out. server_tick Release L hash env s = Some (s', out) \<longrightarrow> iter_order order (sv_sessions s')"
  shows "\<exists>s' out pulse. server_iteration Release L hash env order s = Some (s', out, pulse) \<and>
    pulse = (if sv_tick s' mod 60 = 0 then Some
      \<lparr>pu_srv_tick = sv_tick s', pu_hash = calculate_hash hash (sv_world s'),
       pu_clients = connection_count (sv_manager s'),
       pu_buffered_inputs = of_nat (buffered_count (sv_sessions s'))\<rparr> else None) \<and>
    (\<forall>a session t. sv_sessions s' a = Some session \<longrightarrow> t \<in> dom (input_buffer session) \<longrightarrow> sv_tick s' < t)"
proof -
  have ok: "server_ok s" "readings_ok_all env"
    using server_run_ok [OF assms(1-3)] assms(4) by (simp_all add: run_ok_def env_fits_def)
  then obtain s' out where t: "server_tick Release L hash env s = Some (s', out)"
    using server_tick_total [OF assms(1)] assms(4) unfolding env_fits_def by metis
  obtain tick m ss where r: "server_receive Release L env s = Some (tick, m, ss)"
    using t by (auto simp: server_tick_def bind_Some_conv)
  have orders: "env_orders env m ss" using assms(4) r by (auto simp: env_fits_def)
  from server_tick_shape [OF ok r orders t] have pending:
    "\<forall>a session t. sv_sessions s' a = Some session \<longrightarrow> t \<in> dom (input_buffer session) \<longrightarrow> sv_tick s' < t"
    by (auto simp: retain_active_def map_retain_def split: option.splits if_splits dest: stepped_pending)
  have "dom (sv_sessions s') = dom (sv_manager s')"
    using server_tick_ok [OF assms(1) ok r orders t] by (simp add: server_ok_def)
  with t pending total_buffered_inputs_eq assms(5) show ?thesis
    by (simp add: server_iteration_def server_telemetry_def connection_count_def)
qed

theorem telemetry_reports_pending_inputs_witness:
  "\<exists>s s' out h. server_iteration Release plain_libs from_le_bytes idle_env [] s = Some (s', out, Some
    \<lparr>pu_srv_tick = 60, pu_hash = h, pu_clients = 0, pu_buffered_inputs = 0\<rparr>)"
proof -
  obtain ws s where s: "server_run plain_libs from_le_bytes ws s" "length ws = 59"
    "sv_manager s = manager_new" "sv_sessions s = Map.empty" "length (positions (sv_world s)) = 1"
    "sv_tick s = of_nat 59"
    using idle_server by blast
  obtain s' where s': "server_tick Release plain_libs from_le_bytes idle_env s = Some (s', [])"
    "sv_manager s' = manager_new" "sv_sessions s' = Map.empty" "sv_tick s' = sv_tick s + 1"
    using idle_tick [OF s(3-5)] by blast
  have "\<forall>s' out. server_tick Release plain_libs from_le_bytes idle_env s = Some (s', out) \<longrightarrow>
      iter_order [] (sv_sessions s')"
    using s' by (simp add: iter_order_def)
  from telemetry_reports_pending_inputs [OF plain_libs_ok s(1) _ idle_fits [OF s(3,4)] this] s(2)
  obtain s1 out pulse where it: "server_iteration Release plain_libs from_le_bytes idle_env [] s =
      Some (s1, out, pulse)"
    and pulse: "pulse = (if sv_tick s1 mod 60 = 0 then Some
      \<lparr>pu_srv_tick = sv_tick s1, pu_hash = calculate_hash from_le_bytes (sv_world s1),
       pu_clients = connection_count (sv_manager s1),
       pu_buffered_inputs = of_nat (buffered_count (sv_sessions s1))\<rparr> else None)"
    by auto
  have "s1 = s'" using it s'(1) by (auto simp: server_iteration_def bind_Some_conv)
  with it pulse s' s(6) show ?thesis
    by (auto simp: connection_count_def buffered_count_def manager_new_def)
qed

end
