(* ===== verification/Client_Run.thy ===== *)
theory Client_Run
  imports Client_Loop
begin

text \<open>
  The client of \<open>bin/client.rs\<close> as it runs: the rounds of its synchronisation loop until the first
  snapshot, then the iterations of its main loop, with whatever the socket delivers and the clock
  shows in between.
\<close>

section \<open>Runs\<close>

text \<open>The flag is \<open>synced\<close>: the main loop begins when the first loop has set it.\<close>

inductive client_run :: "libs \<Rightarrow> hasher \<Rightarrow> sock_addr \<Rightarrow> bool \<Rightarrow> client \<Rightarrow> bool" for L hash server_addr where
  start: "client_new now = Some c \<Longrightarrow> client_run L hash server_addr False c"
| synchronise: "client_run L hash server_addr False c \<Longrightarrow> client_env_ok env \<Longrightarrow>
    sync_step Release L server_addr env c = Some (c', synced, out) \<Longrightarrow>
    client_run L hash server_addr synced c'"
| iterate: "client_run L hash server_addr True c \<Longrightarrow> client_env_ok env \<Longrightarrow>
    distinct (ce_flush_order env) \<Longrightarrow>
    client_tick Release L hash server_addr env c = Some (c', out) \<Longrightarrow>
    client_run L hash server_addr True c'"

section \<open>Snapshots that do not panic\<close>

lemma replay_frame_total:
  assumes "history_ok k (snd wh)" "positions (fst wh) \<noteq> []"
  shows "\<exists>wh'. replay_frame Release hash t wh = Some wh' \<and> history_ok k (snd wh') \<and>
    positions (fst wh') \<noteq> []"
proof -
  obtain r where r: "history_get (snd wh) t = Some r" using history_get_total [OF assms(1)] by blast
  let ?w = "moved (case r of None \<Rightarrow> 0 | Some r \<Rightarrow> fr_input r) (fst wh)"
  have w: "step_physics Release (case r of None \<Rightarrow> 0 | Some r \<Rightarrow> fr_input r) (fst wh) = Some ?w"
    by (rule step_physics_total [OF assms(2)])
  obtain h where "history_insert (frame_of hash t ?w) (snd wh) = Some h" "history_ok k h"
    using history_insert_total [OF assms(1)] by blast
  moreover have "positions ?w \<noteq> []" using assms(2) by (metis length_0_conv moved_length)
  ultimately show ?thesis by (simp add: replay_frame_def r w)
qed

lemma replay_total:
  "p = Release \<Longrightarrow> history_ok k (snd wh) \<Longrightarrow> positions (fst wh) \<noteq> [] \<Longrightarrow>
    \<exists>r. replay p hash limit t wh = Some r"
proof (induction p hash limit t wh rule: replay.induct)
  case (1 p hash limit t wh)
  obtain wh1 where wh1: "replay_frame p hash (t + 1) wh = Some wh1" "history_ok k (snd wh1)"
    "positions (fst wh1) \<noteq> []"
    using replay_frame_total [OF "1.prems"(2,3)] "1.prems"(1) by blast
  with "1.IH" "1.prems"(1) show ?case by (subst replay.simps) auto
qed

lemma rollback_total:
  assumes "client_ok c"
  shows "\<exists>c'. rollback Release hash t pos c = Some c'"
proof -
  have "history_ok 7 (cl_history c)" using assms by (simp add: client_ok_def)
  then obtain t' w h where
    "replay Release hash (t + 3) t (\<lparr>positions = [pos]\<rparr>, cl_history c) = Some (t', w, h)"
    using replay_total [OF refl, of 7 "(\<lparr>positions = [pos]\<rparr>, cl_history c)" hash "t + 3" t] by auto
  then show ?thesis by (simp add: rollback_def)
qed

lemma reconcile_None_iff:
  assumes "client_ok c"
  shows "reconcile Release hash now d c = None \<longleftrightarrow> short_snapshot d"
proof
  assume none: "reconcile Release hash now d c = None"
  show "short_snapshot d"
  proof (rule ccontr)
    assume "\<not> short_snapshot d"
    then obtain hdr where hdr: "snapshot_of d = Some hdr" "hdr \<noteq> None \<longrightarrow> 37 \<le> length d"
      using snapshot_of_total by blast
    then obtain snap where snap: "hdr = Some snap" using none by (cases hdr) (auto simp: reconcile_def)
    then obtain pos where pos: "read_position d = Some pos" using hdr(2) read_position_total by blast
    define c1 where "c1 = note_rtt now (sh_last_input_tick snap) (c\<lparr>cl_last_server_tick := sh_tick snap\<rparr>)"
    define c2 where "c2 = c1\<lparr>cl_interpolator :=
      push_snapshot \<lparr>sn_tick = sh_tick snap, sn_state = \<lparr>positions = [pos]\<rparr>\<rparr> (cl_interpolator c1)\<rparr>"
    have ok: "client_ok c2" using assms by (simp add: c2_def c1_def)
    obtain recorded where recorded: "history_get (cl_history c2) (sh_tick snap) = Some recorded"
      using history_get_total [of 7 "cl_history c2"] ok by (auto simp: client_ok_def)
    from rollback_total [OF ok, of hash "sh_tick snap" pos] recorded none
    show False unfolding c2_def
      by (auto simp: reconcile_def hdr(1) snap pos Let_def simp flip: c1_def split: option.splits if_splits)
  qed
qed (rule short_snapshot_None)

section \<open>The packets of an iteration\<close>

lemma reconcile_packets_append:
  "reconcile_packets p L hash env i (xs @ ys) c =
    Option.bind (reconcile_packets p L hash env i xs c) (reconcile_packets p L hash env (i + length xs) ys)"
  by (induction xs arbitrary: i c) (auto simp: Let_def split: option.splits bind_splits)

lemma reconcile_step_ok:
  assumes "client_ok c" "\<forall>i. readings_ok (ce_clock env i)"
  shows "\<exists>m r. handle_packet Release L (ce_clock env i) sender packet (cl_manager c) = Some (m, r) \<and>
    client_ok (c\<lparr>cl_manager := m\<rparr>)"
proof -
  have "manager_ok (cl_manager c)" using assms(1) by (simp add: client_ok_def)
  then obtain m r where h: "handle_packet Release L (ce_clock env i) sender packet (cl_manager c) = Some (m, r)"
    using handle_packet_total by (metis surj_pair)
  then show ?thesis
    using assms handle_packet_ok [OF _ _ h] handle_packet_sendable [OF _ h] by (auto simp: client_ok_def)
qed

definition delivers_short ::
  "libs \<Rightarrow> hasher \<Rightarrow> client_env \<Rightarrow> nat \<Rightarrow> packet list \<Rightarrow> client \<Rightarrow> bool" where
  "delivers_short L hash env i packets c \<longleftrightarrow>
     (\<exists>pre packet sender post c0 m d. packets = pre @ (packet, sender) # post \<and>
        reconcile_packets Release L hash env i pre c = Some c0 \<and>
        handle_packet Release L (ce_clock env (i + length pre)) sender packet (cl_manager c0) =
          Some (m, Some d) \<and> short_snapshot d)"

lemma delivers_short_ConsI:
  assumes "handle_packet Release L (ce_clock env i) sender packet (cl_manager c) = Some (m, r)"
    and "(case r of None \<Rightarrow> Some (c\<lparr>cl_manager := m\<rparr>)
      | Some d \<Rightarrow> reconcile Release hash (ce_packet_now env i) d (c\<lparr>cl_manager := m\<rparr>)) = Some c2"
    and "delivers_short L hash env (Suc i) packets c2"
  shows "delivers_short L hash env i ((packet, sender) # packets) c"
proof -
  obtain pre pk sn post c0 m' d where split: "packets = pre @ (pk, sn) # post"
    "reconcile_packets Release L hash env (Suc i) pre c2 = Some c0"
    "handle_packet Release L (ce_clock env (Suc i + length pre)) sn pk (cl_manager c0) = Some (m', Some d)"
    "short_snapshot d"
    using assms(3) by (auto simp: delivers_short_def)
  have "reconcile_packets Release L hash env i ((packet, sender) # pre) c = Some c0"
    using assms(1,2) split(2) by simp
  with split show ?thesis
    unfolding delivers_short_def
    by (intro exI [of _ "(packet, sender) # pre"] exI [of _ pk] exI [of _ sn] exI [of _ post]
        exI [of _ c0] exI [of _ m'] exI [of _ d]) simp
qed

lemma reconcile_packets_short:
  "client_ok c \<Longrightarrow> \<forall>i. readings_ok (ce_clock env i) \<Longrightarrow>
    reconcile_packets Release L hash env i packets c = None \<Longrightarrow> delivers_short L hash env i packets c"
proof (induction packets arbitrary: i c)
  case (Cons x packets)
  obtain packet sender where x: "x = (packet, sender)" by (cases x)
  obtain m r where h: "handle_packet Release L (ce_clock env i) sender packet (cl_manager c) = Some (m, r)"
    and ok: "client_ok (c\<lparr>cl_manager := m\<rparr>)"
    using reconcile_step_ok [OF Cons.prems(1,2)] by blast
  let ?r = "case r of None \<Rightarrow> Some (c\<lparr>cl_manager := m\<rparr>)
      | Some d \<Rightarrow> reconcile Release hash (ce_packet_now env i) d (c\<lparr>cl_manager := m\<rparr>)"
  show ?case
  proof (cases ?r)
    case None
    then obtain d where "r = Some d" "short_snapshot d"
      using reconcile_None_iff [OF ok] by (cases r) auto
    with h show ?thesis unfolding delivers_short_def x
      by (intro exI [of _ "[]"] exI [of _ packet] exI [of _ sender] exI [of _ packets] exI [of _ c]) simp
  next
    case (Some c2)
    then have "client_ok c2" using ok by (cases r) (auto intro: reconcile_ok)
    moreover have "reconcile_packets Release L hash env (Suc i) packets c2 = None"
      using Cons.prems(3) h Some by (simp add: x)
    ultimately have "delivers_short L hash env (Suc i) packets c2" by (rule Cons.IH [OF _ Cons.prems(2)])
    then show ?thesis unfolding x by (rule delivers_short_ConsI [OF h Some])
  qed
qed simp

lemma delivers_short_panics:
  "delivers_short L hash env i packets c \<Longrightarrow> reconcile_packets Release L hash env i packets c = None"
  by (auto simp: delivers_short_def reconcile_packets_append short_snapshot_None)

section \<open>The invariant\<close>

lemma sync_packets_ok:
  "sync_packets p L clock i packets cs = Some cs' \<Longrightarrow> client_ok (fst cs) \<Longrightarrow>
    \<forall>i. readings_ok (clock i) \<Longrightarrow> client_ok (fst cs')"
proof (induction packets arbitrary: i cs)
  case (Cons x packets)
  obtain packet sender where x: "x = (packet, sender)" by (cases x)
  with Cons.prems(1) obtain m r cs2 where
    h: "handle_packet p L (clock i) sender packet (cl_manager (fst cs)) = Some (m, r)"
    and cs2: "(case r of None \<Rightarrow> Some ((fst cs)\<lparr>cl_manager := m\<rparr>, snd cs)
      | Some d \<Rightarrow> sync_app_data p d ((fst cs)\<lparr>cl_manager := m\<rparr>, snd cs)) = Some cs2"
    and rec: "sync_packets p L clock (Suc i) packets cs2 = Some cs'"
    by (auto simp: bind_Some_conv Let_def)
  have "client_ok ((fst cs)\<lparr>cl_manager := m\<rparr>)"
    using Cons.prems(2,3) handle_packet_ok [OF _ _ h] handle_packet_sendable [OF _ h]
    by (simp add: client_ok_def)
  with cs2 have "client_ok (fst cs2)"
    by (cases r) (auto simp: sync_app_data_def bind_Some_conv client_ok_def push_snapshot_ok Let_def
        split: option.splits)
  from Cons.IH [OF rec this Cons.prems(3)] show ?case .
qed simp

lemma sync_step_ok:
  assumes "libs_ok L" "client_ok c" "client_env_ok env"
    and "sync_step Release L addr env c = Some (c', synced, out)"
  shows "client_ok c'"
proof -
  obtain c1 s where c1: "(case ce_poll env of
      Inr packets \<Rightarrow> sync_packets Release L (ce_clock env) 0 packets
        (if packets \<noteq> [] then c\<lparr>cl_last_seen_packet := ce_poll_now env\<rparr> else c, False)
    | Inl e \<Rightarrow> Some (c, False)) = Some (c1, s)"
    using assms(4) by (auto simp: sync_step_def bind_Some_conv)
  have ok: "client_ok c1"
    using c1 assms(2,3) sync_packets_ok
    by (fastforce simp: client_env_ok_def client_ok_def split: sum.splits if_splits)
  show ?thesis
  proof (cases "\<not> s \<and> sync_timeout < duration_since (ce_check_now env) (cl_last_seen_packet c1)")
    case False
    then show ?thesis using assms(4) c1 ok by (auto simp: sync_step_def)
  next
    case True
    then obtain m m1 where m: "send_to_client Release (ce_send_now env) (ce_send_now env) addr
        (input_message 0 0) True False (cl_manager c1) = Some m"
      and f: "flush_all Release L (ce_flush_now env) (ce_flush_order env) m = Some (m1, out)"
      and c': "c' = c1\<lparr>cl_manager := m1, cl_last_seen_packet := ce_seen_now env\<rparr>"
      using assms(4) c1 by (auto simp: sync_step_def bind_Some_conv)
    have "manager_ok (cl_manager c1)" using ok by (simp add: client_ok_def)
    then have "manager_ok m"
      using m send_to_client_ok [of "cl_manager c1" "input_message 0 0" Release "ce_send_now env"
        "ce_send_now env" addr True False] by (auto simp: input_message_length)
    then have "manager_ok m1"
      using flush_all_ok [OF _ assms(1) _ f] assms(3) by (simp add: client_env_ok_def)
    moreover have "all_sendable m"
      using send_to_client_sendable [OF _ _ m] ok input_message_length [of 0 0]
      by (fastforce simp: client_ok_def)
    then have "all_sendable m1" using sendable_inv.flush_all_keeps [OF f] by (simp add: all_sendable_eq)
    ultimately show ?thesis using ok by (simp add: c' client_ok_def)
  qed
qed

lemma client_run_ok:
  assumes "libs_ok L"
  shows "client_run L hash srv synced c \<Longrightarrow> client_ok c"
proof (induction rule: client_run.induct)
  case (start now c)
  then show ?case using client_new_ok [of now] by auto
next
  case (synchronise c env c' synced out)
  then show ?case using sync_step_ok [OF assms] by blast
next
  case (iterate c env c' out)
  obtain c1 where c1: "(case ce_poll env of Inr packets \<Rightarrow> reconcile_packets Release L hash env 0 packets c
      | Inl e \<Rightarrow> Some c) = Some c1"
    using iterate.hyps(4) by (auto simp: client_tick_def bind_Some_conv)
  show ?case
    using client_tick_spec [OF assms iterate.hyps(2) iterate.IH iterate.hyps(3) c1, of srv] iterate.hyps(4) by auto
qed

section \<open>Properties\<close>

text \<open>
  C37: a running client panics only because of a snapshot that is too short. Whatever it has received
  so far, it is well formed, and the next iteration of its main loop, when overflow is not checked,
  fails exactly when the poll delivers, behind packets that went through, one that the manager opens
  to a snapshot packet of fewer than 37 bytes.
\<close>

theorem client_panics_only_on_short_snapshots:
  assumes "libs_ok L" "client_run L hash srv True c" "client_env_ok env" "distinct (ce_flush_order env)"
  shows "client_ok c \<and>
    (client_tick Release L hash srv env c = None \<longleftrightarrow>
      (\<exists>packets. ce_poll env = Inr packets \<and> delivers_short L hash env 0 packets c))"
proof -
  have ok: "client_ok c" by (rule client_run_ok [OF assms(1,2)])
  have clock: "\<forall>i. readings_ok (ce_clock env i)" using assms(3) by (simp add: client_env_ok_def)
  let ?r = "case ce_poll env of Inr packets \<Rightarrow> reconcile_packets Release L hash env 0 packets c
      | Inl e \<Rightarrow> Some c"
  have "client_tick Release L hash srv env c = None \<longleftrightarrow> ?r = None"
  proof (cases ?r)
    case (Some c1)
    then show ?thesis using client_tick_spec [OF assms(1,3) ok assms(4) Some, of srv] by auto
  qed (simp add: client_tick_def)
  also have "\<dots> \<longleftrightarrow> (\<exists>packets. ce_poll env = Inr packets \<and> delivers_short L hash env 0 packets c)"
    using reconcile_packets_short [OF ok clock] delivers_short_panics by (auto split: sum.splits)
  finally show ?thesis using ok by blast
qed

text \<open>
  A run that reaches the main loop: a byte from the server makes the client create the connection, and
  a snapshot under the key that both programs contain ends the synchronisation.
\<close>

definition example_snapshot_env :: "bytes \<Rightarrow> client_env" where
  "example_snapshot_env w = quiet_env\<lparr>ce_poll := Inr [(w, example_a)]\<rparr>"

lemma example_env_ok: "client_env_ok quiet_env" "client_env_ok (example_snapshot_env w)"
  by (simp_all add: client_env_ok_def quiet_env_def example_snapshot_env_def readings_ok_def clock_ok_def)

lemma example_client_run: "\<exists>c. client_run plain_libs hash example_a True c"
proof -
  obtain c0 where c0: "client_new 0 = Some c0" using client_new_ok by blast
  let ?t = "ce_clock quiet_env 0"
  let ?g = "greeted ?t example_a"
  let ?c1 = "c0\<lparr>cl_last_seen_packet := 0, cl_manager := [example_a \<mapsto> ?g]\<rparr>"
  have m0: "cl_manager c0 = manager_new" "cl_last_seen_packet c0 = 0"
    using c0 by (auto simp: client_new_def client_history_new(1))
  have "handle_packet Release plain_libs ?t example_a [9] manager_new = Some ([example_a \<mapsto> ?g], None)"
    using accept_sender_new [of manager_new example_a Release ?t]
    by (auto simp: handle_packet_def manager_new_def general_packet_header_read_def)
  then have s1: "sync_step Release plain_libs example_a (example_snapshot_env [9]) c0 = Some (?c1, False, [])"
    using m0 by (simp add: sync_step_def example_snapshot_env_def quiet_env_def sync_timeout_def
        duration_since_def)
  let ?w = "\<lparr>positions = [\<lparr>vx = 0, vy = 0, vz = 0\<rparr>]\<rparr>"
  let ?d = "snapshot_packet 9 77 session_new ?w"
  have d: "?d = packet_type_code Snapshot # tl ?d" "length (tl ?d) < 2 ^ 32"
    by (simp_all add: snapshot_packet_def general_packet_header_as_bytes_def snapshot_header_as_bytes_def
        vec_bytes_def)
  have "pipeline_ok (conn_pipeline ?g)"
    using greeted_ok(1) by (simp add: connection_ok_def pipelines_ok_def)
  then obtain wire where carr: "carries plain_libs ?g (\<lparr>ps_data = ?d, ps_reliable = False\<rparr>, tx_nonce ?g) wire"
    using send_unreliable_spec [OF plain_libs_ok _ d(2), of ?g Release _ "packet_type_code Snapshot"] d(1)
    by fastforce
  obtain c2 where "sync_step Release plain_libs example_a (example_snapshot_env wire) ?c1 =
      Some (c2, True, [])"
    using sync_snapshot [OF carr, where cl = ?c1 and srv = example_a and d = ?g and addr = example_a
        and env = "example_snapshot_env wire"]
    by (auto simp: example_snapshot_env_def)
  then show ?thesis
    using client_run.synchronise [OF client_run.synchronise [OF client_run.start [OF c0]
      example_env_ok(2) s1] example_env_ok(2)] by blast
qed

theorem client_panics_only_on_short_snapshots_witness:
  "\<exists>c. client_run plain_libs from_le_bytes example_a True c \<and> client_ok c \<and>
    client_tick Release plain_libs from_le_bytes example_a quiet_env c \<noteq> None"
proof -
  obtain c where c: "client_run plain_libs from_le_bytes example_a True c"
    using example_client_run by blast
  have "distinct (ce_flush_order quiet_env)" by (simp add: quiet_env_def)
  from client_panics_only_on_short_snapshots [OF plain_libs_ok c example_env_ok(1) this] c show ?thesis
    by (auto simp: quiet_env_def delivers_short_def)
qed

text \<open>
  C8: an iteration of the client's main loop whose poll delivers no snapshot that is too short returns,
  when overflow is not checked, whatever else it delivers: it takes in all packets, keeps the client
  well formed and predicts exactly the number of steps that the control asks for, from the server tick
  and the round trip that the packets left, each moving the predicted world once.
\<close>

theorem client_tick_predicts:
  assumes "libs_ok L" "client_env_ok env" "client_ok c" "distinct (ce_flush_order env)"
    and no_short: "\<forall>packets. ce_poll env = Inr packets \<longrightarrow> \<not> delivers_short L hash env 0 packets c"
  shows "\<exists>c1 c' out target steps.
    (case ce_poll env of Inr packets \<Rightarrow> reconcile_packets Release L hash env 0 packets c
      | Inl e \<Rightarrow> Some c) = Some c1 \<and>
    client_tick Release L hash addr env c = Some (c', out) \<and> client_ok c' \<and>
    target_tick Release (cl_last_server_tick c1) (cl_rtt_ms c1) = Some target \<and>
    steps_this_loop Release (cl_predicted_tick c1) target = Some steps \<and>
    cl_predicted_tick c' = cl_predicted_tick c1 + of_nat steps \<and>
    cl_world c' = (moved 1 ^^ steps) (cl_world c1)"
proof -
  have clock: "\<forall>i. readings_ok (ce_clock env i)" using assms(2) by (simp add: client_env_ok_def)
  let ?r = "case ce_poll env of Inr packets \<Rightarrow> reconcile_packets Release L hash env 0 packets c
      | Inl e \<Rightarrow> Some c"
  obtain c1 where c1: "?r = Some c1"
  proof (cases "ce_poll env")
    case (Inr packets)
    then have "reconcile_packets Release L hash env 0 packets c \<noteq> None"
      using no_short reconcile_packets_short [OF assms(3) clock] by blast
    with Inr that show thesis by auto
  qed (simp add: that)
  with client_tick_spec [OF assms(1-4) c1, of addr] show ?thesis by blast
qed

text \<open>A poll with a packet of an unknown type.\<close>

theorem client_tick_predicts_witness:
  "\<exists>c c' out. client_new 0 = Some c \<and>
    client_tick Release plain_libs from_le_bytes example_a (example_snapshot_env [9]) c = Some (c', out) \<and>
    client_ok c'"
proof -
  obtain c where c: "client_new 0 = Some c" "client_ok c" using client_new_ok by blast
  let ?env = "example_snapshot_env [9]"
  have "\<not> delivers_short plain_libs from_le_bytes ?env 0 [([9], example_a)] c"
    by (auto simp: delivers_short_def Cons_eq_append_conv handle_packet_def general_packet_header_read_def
        bind_Some_conv)
  then have "\<forall>packets. ce_poll ?env = Inr packets \<longrightarrow>
      \<not> delivers_short plain_libs from_le_bytes ?env 0 packets c"
    by (simp add: example_snapshot_env_def)
  moreover have "distinct (ce_flush_order ?env)" by (simp add: example_snapshot_env_def quiet_env_def)
  ultimately show ?thesis
    using client_tick_predicts [OF plain_libs_ok example_env_ok(2) c(2), of "[9]" from_le_bytes example_a]
      c(1) by blast
qed

text \<open>
  A snapshot of one of the last three ticks before the tick counter wraps makes a client that was
  built with overflow checks panic, in the synchronisation loop on its arrival and in the main loop as
  soon as it is the last one heard of; without checks the client then predicts a tick before it.
\<close>

theorem last_ticks_overflow:
  assumes "2 ^ 64 - 3 \<le> unat t" "positions w = [pos]"
  shows "sync_app_data Debug (snapshot_packet t h s w) cs = None \<and> target_tick Debug t rtt = None \<and>
    (\<exists>c. sync_app_data Release (snapshot_packet t h s w) cs = Some (c, True) \<and>
      cl_last_server_tick c = t \<and> cl_predicted_tick c < t)"
proof -
  have over: "2 ^ 64 \<le> unat t + 3" using assms(1) by simp
  then have sync: "add_u Debug t 3 = None" by (simp add: add_u_def checked_def)
  have "unat (t + 3) = unat t + 3 - 2 ^ 64"
    using over unsigned_less [of t, where 'a = nat] by (simp add: unat_word_ariths mod_if)
  then have "t + 3 < t" using over by (simp add: word_less_nat_alt)
  moreover have "target_tick Debug t rtt = None"
  proof (cases "add_u Debug t (ucast (rtt div 2) div 16)")
    case (Some u)
    then have "u = t + ucast (rtt div 2) div 16" "unat t + unat (ucast (rtt div 2) div 16 :: u64) < 2 ^ 64"
      by (auto simp: add_u_def not_le)
    then have "2 ^ 64 \<le> unat u + 3" using over by (simp add: unat_add_no_wrap)
    then show ?thesis using Some by (simp add: target_tick_def add_u_def checked_def)
  qed (simp add: target_tick_def)
  ultimately show ?thesis
    using snapshot_packet_read [OF assms(2), of t h s] sync
    by (simp add: sync_app_data_def Let_def)
qed

theorem last_ticks_overflow_witness:
  "target_tick Debug (2 ^ 64 - 1) 0 = None \<and> (\<forall>cs. sync_app_data Debug
    (snapshot_packet (2 ^ 64 - 1) 0 session_new \<lparr>positions = [\<lparr>vx = 5, vy = 6, vz = 7\<rparr>]\<rparr>) cs = None)"
  using last_ticks_overflow [of "2 ^ 64 - 1" "\<lparr>positions = [\<lparr>vx = 5, vy = 6, vz = 7\<rparr>]\<rparr>"
      "\<lparr>vx = 5, vy = 6, vz = 7\<rparr>" 0 session_new]
  by simp

end
