(* ===== verification/Wire_Types.thy ===== *)
theory Wire_Types
  imports Server_Run Client_Run Establish
begin

text \<open>
  The types of the datagrams on the wire. What a peer sends is typed by its first byte, and the other
  peer dispatches on it; here every datagram that the server of \<open>bin/server.rs\<close> or the client of
  \<open>bin/client.rs\<close> sends, whatever they have received before, has a type the other one expects
  from it, and the size that this type asks for. The invariant behind it is one of the connections,
  lifted by \<open>Conn_Invariant\<close>.
\<close>

section \<open>Typed datagrams\<close>

text \<open>Reliable, or of the unreliable type \<open>ty\<close>: behind the type byte a header or a nonce, 8 bytes each.\<close>

definition datagram_of :: "packet_type \<Rightarrow> bytes \<Rightarrow> bool" where
  "datagram_of ty w \<longleftrightarrow> general_packet_header_size + 8 \<le> length w \<and>
     hd w \<in> {packet_type_code Reliable, packet_type_code ty}"

definition typed_send :: "packet_type \<Rightarrow> pending_send \<Rightarrow> bool" where
  "typed_send ty ps \<longleftrightarrow> ps_reliable ps \<or> (\<exists>rest. ps_data ps = packet_type_code ty # rest)"

definition typed_unacked :: "packet_type \<Rightarrow> reliable_state \<Rightarrow> bool" where
  "typed_unacked ty s \<longleftrightarrow> (\<forall>pkt \<in> set (unacknowledged_packets s). datagram_of ty (up_data pkt))"

definition typed_connection :: "packet_type \<Rightarrow> connection \<Rightarrow> bool" where
  "typed_connection ty c \<longleftrightarrow>
     list_all (typed_send ty) (pending_queue c) \<and> typed_unacked ty (conn_state c)"

section \<open>A flush\<close>

lemma retransmit_loop_data:
  "retransmit_loop p now pkts rto stats = Some (pkts', rto', stats', out) \<Longrightarrow>
    map up_data pkts' = map up_data pkts \<and> set out \<subseteq> set (map up_data pkts)"
proof (induction pkts arbitrary: rto stats pkts' rto' stats' out)
  case (Cons pkt pkts)
  from Cons.prems show ?case
    by (rule retransmit_loop_ConsE) (use Cons.IH in \<open>fastforce split: if_splits\<close>)
qed simp

lemma process_retransmissions_typed:
  assumes "process_retransmissions p now s = Some (s', out)" "typed_unacked ty s"
  shows "typed_unacked ty s' \<and> list_all (datagram_of ty) out"
proof -
  obtain rto stats where loop: "retransmit_loop p now (unacknowledged_packets s)
      (retransmission_timeout_ms s) (stats_retransmits s) =
      Some (unacknowledged_packets s', rto, stats, out)"
    using assms(1) by (auto simp: process_retransmissions_def bind_Some_conv)
  note data = retransmit_loop_data [OF loop]
  then have "up_data ` set (unacknowledged_packets s') = up_data ` set (unacknowledged_packets s)"
    by (metis set_map)
  moreover have typed: "\<forall>d \<in> up_data ` set (unacknowledged_packets s). datagram_of ty d"
    using assms(2) by (simp add: typed_unacked_def)
  ultimately have "typed_unacked ty s'" by (metis image_eqI typed_unacked_def)
  then show ?thesis using data typed by (auto simp: list_all_iff)
qed

lemma send_pending_typed:
  assumes "send_pending p L now ps c = Some (c', w)" "typed_send ty ps" "typed_unacked ty (conn_state c)"
  shows "typed_unacked ty (conn_state c') \<and> (\<forall>d. w = Some d \<longrightarrow> datagram_of ty d)"
proof (cases "ps_reliable ps")
  case True
  with assms(1,3) show ?thesis
    by (cases "pipeline_process L (conn_pipeline c) (ps_data ps) (ucast (next_outgoing_sequence (conn_state c)))")
      (auto simp: send_pending_def send_reliable_def bind_Some_conv Let_def typed_unacked_def
        datagram_of_def general_packet_header_as_bytes_def general_packet_header_size_def
        reliability_packet_header_as_bytes_def)
next
  case False
  then obtain rest where "ps_data ps = packet_type_code ty # rest"
    using assms(2) by (auto simp: typed_send_def)
  with False assms(1,3) show ?thesis
    by (cases "pipeline_process L (conn_pipeline c) rest (tx_nonce c)")
      (auto simp: send_pending_def send_unreliable_def get_tx_nonce_def bind_Some_conv Let_def
        slice_header typed_unacked_def datagram_of_def general_packet_header_size_def)
qed

lemma drain_queue_typed:
  "drain_queue p L now q c = Some (c', ws) \<Longrightarrow> list_all (typed_send ty) q \<Longrightarrow>
    typed_unacked ty (conn_state c) \<Longrightarrow>
    typed_unacked ty (conn_state c') \<and> list_all (datagram_of ty) ws"
proof (induction q arbitrary: c c' ws)
  case (Cons ps q)
  then obtain c1 w ws1 where s: "send_pending p L now ps (c\<lparr>pending_queue := q\<rparr>) = Some (c1, w)"
    and rec: "drain_queue p L now q c1 = Some (c', ws1)"
    and ws: "ws = (case w of None \<Rightarrow> ws1 | Some d \<Rightarrow> d # ws1)"
    by (auto simp: bind_Some_conv)
  from send_pending_typed [OF s, of ty] Cons.IH [OF rec] Cons.prems(2,3) show ?case
    by (auto simp: ws split: option.split)
qed simp

lemma connection_update_typed:
  assumes "typed_connection ty c" "connection_update p L now c = Some (c', ws)"
  shows "typed_connection ty c' \<and> list_all (datagram_of ty) ws"
proof -
  obtain st resends c1 sent where re: "process_retransmissions p now (conn_state c) = Some (st, resends)"
    and dr: "drain_queue p L now (pending_queue c) (c\<lparr>conn_state := st\<rparr>) = Some (c1, sent)"
    and c': "c' = swap_pipeline c1" "ws = resends @ sent"
    using assms(2) by (auto simp: connection_update_def bind_Some_conv)
  have "conn_state c' = conn_state c1" by (simp add: c' swap_pipeline_def split: option.split)
  with drain_queue_typed [OF dr, of ty] process_retransmissions_typed [OF re, of ty] assms(1)
    connection_update_empties [OF assms(2)] show ?thesis
    by (simp add: typed_connection_def c')
qed

interpretation typed_inv: connection_invariant "typed_connection ty" "typed_send ty" "datagram_of ty" for ty
proof unfold_locales
  show "typed_connection ty c' \<and> list_all (datagram_of ty) ws"
    if "typed_connection ty c" "connection_update p L now c = Some (c', ws)" for p L now c c' ws
    using connection_update_typed that .
qed (auto simp: typed_connection_def typed_unacked_def typed_send_def reliable_new_def list_all_iff)

section \<open>The server\<close>

abbreviation typed_server :: "server \<Rightarrow> bool" where
  "typed_server s \<equiv> all_connections (typed_connection Snapshot) (sv_manager s)"

lemma ingest_typed:
  "ingest p L clock i packets m ss = Some (m', ss') \<Longrightarrow> all_connections (typed_connection ty) m \<Longrightarrow>
    all_connections (typed_connection ty) m'"
proof (induction packets arbitrary: i m ss)
  case (Cons x packets)
  obtain packet sender where x: "x = (packet, sender)" by (cases x)
  with Cons.prems(1) obtain m1 r ss1 where
    h: "handle_packet p L (clock i) sender packet m = Some (m1, r)"
    and rec: "ingest p L clock (Suc i) packets m1 ss1 = Some (m', ss')"
    by (auto simp: bind_Some_conv)
  from Cons.IH [OF rec typed_inv.handle_packet_keeps [OF Cons.prems(2) h]] show ?case .
qed simp

lemma snapshot_typed: "typed_send Snapshot \<lparr>ps_data = snapshot_packet t h s w, ps_reliable = False\<rparr>"
  by (simp add: typed_send_def snapshot_packet_def general_packet_header_as_bytes_def)

lemma server_tick_typed:
  assumes "server_tick p L hash env s = Some (s', out)" "typed_server s"
  shows "typed_server s' \<and> (\<forall>(w, a) \<in> set out. datagram_of Snapshot w)"
proof -
  obtain tick m ss where r: "server_receive p L env s = Some (tick, m, ss)"
    and sim: "server_simulate p L hash env s tick m ss = Some (s', out)"
    using assms(1) by (auto simp: server_tick_def bind_Some_conv)
  have m: "all_connections (typed_connection Snapshot) m"
    using r assms(2) by (auto simp: server_receive_def bind_Some_conv split: sum.splits dest: ingest_typed)
  obtain ss1 inputs where g: "gather_inputs tick (te_input_order env) ss 0 = (ss1, inputs)" by fastforce
  obtain world m1 where b: "for_each (broadcast_to p (te_send_now env) tick (calculate_hash hash world) world ss1)
      (te_broadcast_order env) m = Some m1"
    and f: "flush_all p L (te_flush_now env) (te_flush_order env)
      (evict_stale_connections (te_evict_now env) eviction_timeout m1) = Some (sv_manager s', out)"
    using sim by (auto simp: server_simulate_def g bind_Some_conv Let_def)
  have "all_connections (typed_connection Snapshot) m1"
  proof (rule for_each_invariant [where P = "all_connections (typed_connection Snapshot)", OF _ m b])
    fix a m2 m3
    assume "all_connections (typed_connection Snapshot) m2"
      "broadcast_to p (te_send_now env) tick (calculate_hash hash world) world ss1 a m2 = Some m3"
    then show "all_connections (typed_connection Snapshot) m3"
      by (auto simp: broadcast_to_def split: option.splits
          intro: typed_inv.send_to_client_keeps [OF _ snapshot_typed])
  qed
  then show ?thesis using typed_inv.flush_all_keeps [OF f] typed_inv.evict_keeps by blast
qed

lemma server_run_typed: "server_run L hash ws s \<Longrightarrow> typed_server s"
  by (induction rule: server_run.induct) (auto simp: server_new_def dest: server_tick_typed)

section \<open>The client\<close>

abbreviation typed_client :: "client \<Rightarrow> bool" where
  "typed_client c \<equiv> all_connections (typed_connection Input) (cl_manager c)"

lemma rollback_manager [simp]: "rollback p hash t pos c = Some c' \<Longrightarrow> cl_manager c' = cl_manager c"
  by (auto simp: rollback_def bind_Some_conv)

lemma note_rtt_manager [simp]: "cl_manager (note_rtt now t c) = cl_manager c"
  by (simp add: note_rtt_def split: option.split)

lemma reconcile_manager:
  assumes "reconcile p hash now d c = Some c'"
  shows "cl_manager c' = cl_manager c"
  using assms
proof (cases rule: reconcile_cases)
  case (2 snap pos c2 recorded)
  have "cl_manager c2 = cl_manager c" by (simp add: 2(1) Let_def)
  with 2(2) show ?thesis by (auto split: option.splits if_splits dest: rollback_manager)
qed simp

lemma reconcile_packets_typed:
  "reconcile_packets p L hash env i packets c = Some c' \<Longrightarrow> typed_client c \<Longrightarrow> typed_client c'"
proof (induction packets arbitrary: i c)
  case (Cons x packets)
  obtain packet sender where x: "x = (packet, sender)" by (cases x)
  with Cons.prems(1) obtain m r c2 where
    h: "handle_packet p L (ce_clock env i) sender packet (cl_manager c) = Some (m, r)"
    and c2: "(case r of None \<Rightarrow> Some (c\<lparr>cl_manager := m\<rparr>)
      | Some d \<Rightarrow> reconcile p hash (ce_packet_now env i) d (c\<lparr>cl_manager := m\<rparr>)) = Some c2"
    and rec: "reconcile_packets p L hash env (Suc i) packets c2 = Some c'"
    by (auto simp: bind_Some_conv Let_def)
  have "cl_manager c2 = m" using c2 by (auto split: option.splits dest: reconcile_manager)
  with Cons.IH [OF rec] typed_inv.handle_packet_keeps [OF Cons.prems(2) h] show ?case by simp
qed simp

lemma sync_packets_typed:
  "sync_packets p L clock i packets cs = Some cs' \<Longrightarrow> typed_client (fst cs) \<Longrightarrow> typed_client (fst cs')"
proof (induction packets arbitrary: i cs)
  case (Cons x packets)
  obtain packet sender where x: "x = (packet, sender)" by (cases x)
  with Cons.prems(1) obtain m r cs2 where
    h: "handle_packet p L (clock i) sender packet (cl_manager (fst cs)) = Some (m, r)"
    and cs2: "(case r of None \<Rightarrow> Some ((fst cs)\<lparr>cl_manager := m\<rparr>, snd cs)
      | Some d \<Rightarrow> sync_app_data p d ((fst cs)\<lparr>cl_manager := m\<rparr>, snd cs)) = Some cs2"
    and rec: "sync_packets p L clock (Suc i) packets cs2 = Some cs'"
    by (auto simp: bind_Some_conv Let_def)
  have "cl_manager (fst cs2) = m"
    using cs2 by (cases r) (auto simp: sync_app_data_def bind_Some_conv Let_def split: option.splits)
  with Cons.IH [OF rec] typed_inv.handle_packet_keeps [OF Cons.prems(2) h] show ?case by simp
qed simp

lemma predict_step_typed:
  assumes "predict_step p hash addr env i c = Some c'" "typed_client c"
  shows "typed_client c'"
proof -
  obtain t m where "send_to_client p (ce_send_now env) (ce_send_now env) addr (input_message t 1) False False
      (cl_manager c) = Some m" "cl_manager c' = m"
    using assms(1) by (auto simp: predict_step_def bind_Some_conv)
  moreover have "typed_send Input \<lparr>ps_data = input_message t 1, ps_reliable = False\<rparr>"
    by (simp add: typed_send_def input_message_def general_packet_header_as_bytes_def)
  ultimately show ?thesis using typed_inv.send_to_client_keeps [OF assms(2)] by blast
qed

lemma client_tick_typed:
  assumes "client_tick p L hash addr env c = Some (c', out)" "typed_client c"
  shows "typed_client c' \<and> (\<forall>(w, a) \<in> set out. datagram_of Input w)"
proof -
  obtain c1 steps c2 m where
    c1: "(case ce_poll env of Inr packets \<Rightarrow> reconcile_packets p L hash env 0 packets c
      | Inl e \<Rightarrow> Some c) = Some c1"
    and c2: "for_each (predict_step p hash addr env) [0..<steps] c1 = Some c2"
    and f: "flush_all p L (ce_flush_now env) (ce_flush_order env) (cl_manager (prune_dispatch c2)) =
      Some (m, out)"
    and c': "c' = telemetry steps ((prune_dispatch c2)\<lparr>cl_manager := m\<rparr>)"
    using assms(1) by (auto simp: client_tick_def bind_Some_conv Let_def)
  have "typed_client c1"
    using c1 assms(2) reconcile_packets_typed by (auto split: sum.splits)
  then have "typed_client c2"
    using for_each_invariant [where P = typed_client, OF _ _ c2] predict_step_typed by blast
  then have "all_connections (typed_connection Input) m \<and> (\<forall>(w, a) \<in> set out. datagram_of Input w)"
    using typed_inv.flush_all_keeps [OF f] by simp
  moreover have "cl_manager c' = m" by (simp add: c' telemetry_def)
  ultimately show ?thesis by simp
qed

lemma sync_step_typed:
  assumes "sync_step p L addr env c = Some (c', synced, out)" "typed_client c"
  shows "typed_client c' \<and> (\<forall>(w, a) \<in> set out. datagram_of Input w)"
proof -
  obtain c1 s where c1: "(case ce_poll env of
      Inr packets \<Rightarrow> sync_packets p L (ce_clock env) 0 packets
        (if packets \<noteq> [] then c\<lparr>cl_last_seen_packet := ce_poll_now env\<rparr> else c, False)
    | Inl e \<Rightarrow> Some (c, False)) = Some (c1, s)"
    using assms(1) by (auto simp: sync_step_def bind_Some_conv)
  have t: "typed_client c1"
    using c1 assms(2) by (fastforce split: sum.splits dest: sync_packets_typed)
  show ?thesis
  proof (cases "\<not> s \<and> sync_timeout < duration_since (ce_check_now env) (cl_last_seen_packet c1)")
    case False
    then show ?thesis using assms(1) c1 t by (auto simp: sync_step_def)
  next
    case True
    then obtain m m1 where m: "send_to_client p (ce_send_now env) (ce_send_now env) addr
        (input_message 0 0) True False (cl_manager c1) = Some m"
      and f: "flush_all p L (ce_flush_now env) (ce_flush_order env) m = Some (m1, out)"
      and c': "cl_manager c' = m1"
      using assms(1) c1 by (auto simp: sync_step_def bind_Some_conv)
    show ?thesis
      using typed_inv.flush_all_keeps [OF f typed_inv.send_to_client_keeps [OF t _ m]]
      by (simp add: c' typed_send_def)
  qed
qed

lemma client_run_typed: "client_run L hash srv synced c \<Longrightarrow> typed_client c"
proof (induction rule: client_run.induct)
  case (start now c)
  then show ?case by (auto simp: client_new_def client_history_new(1))
qed (auto dest: sync_step_typed client_tick_typed)

section \<open>Properties\<close>

text \<open>
  C17: whatever the server has received, every datagram of its next iteration is well typed for a
  client: reliable, or a snapshot, and long enough for the header or the nonce behind its type byte.
\<close>

theorem server_datagrams_typed:
  assumes "server_run L hash ws s" "server_tick Release L hash env s = Some (s', out)"
  shows "\<forall>(w, a) \<in> set out. datagram_of Snapshot w"
  using server_tick_typed [OF assms(2) server_run_typed [OF assms(1)]] by blast

theorem server_datagrams_typed_witness:
  "\<exists>s' out. server_tick Release plain_libs from_le_bytes (example_env [example_a, example_b]) server_new =
      Some (s', out) \<and> (\<forall>(w, a) \<in> set out. datagram_of Snapshot w)"
proof -
  have "env_fits plain_libs (example_env [example_a, example_b]) server_new"
    using example_env_readings example_env_orders by (auto simp: env_fits_def)
  then obtain s' out where t: "server_tick Release plain_libs from_le_bytes
      (example_env [example_a, example_b]) server_new = Some (s', out)"
    using server_tick_total [OF plain_libs_ok server_new_ok] unfolding env_fits_def by metis
  from server_datagrams_typed [OF server_run.boot t] t show ?thesis by blast
qed

text \<open>
  C18: whatever the client has received, every datagram of its next round, in the loop that waits for the
  first snapshot as in the main loop, is well typed for the server: reliable, or an input, and long
  enough for the header or the nonce behind its type byte.
\<close>

theorem client_datagrams_typed:
  assumes "client_run L hash srv synced c"
    and "sync_step Release L srv env c = Some (c', synced', out) \<or>
      client_tick Release L hash srv env c = Some (c', out)"
  shows "\<forall>(w, a) \<in> set out. datagram_of Input w"
  using assms(2) sync_step_typed client_tick_typed client_run_typed [OF assms(1)] by blast

theorem client_datagrams_typed_witness:
  "\<exists>c c' out. client_new 0 = Some c \<and>
    sync_step Release plain_libs example_b (silent_env (2 * 10 ^ 9) example_b) c = Some (c', False, out) \<and>
    (\<exists>w. out = [(w, example_b)] \<and> datagram_of Input w)"
proof -
  let ?env = "silent_env (2 * 10 ^ 9) example_b"
  obtain c0 where c0: "client_new 0 = Some c0" using client_new_ok by blast
  obtain c' w where step: "sync_step Release plain_libs example_b ?env c0 = Some (c', False, [(w, example_b)])"
    using hello_step [OF plain_libs_ok c0, of ?env example_b]
    by (auto simp: silent_env_def sync_timeout_def duration_since_def)
  from client_datagrams_typed [OF client_run.start [OF c0] disjI1 [OF step]] c0 step show ?thesis by auto
qed

end
