(* ===== verification/Forgery.thy ===== *)
theory Forgery
  imports Sessions
begin

text \<open>
  What a sender without any key can do to a connection of \<open>crates/connection/src/manager.rs\<close> by
  sending datagrams with the address of its peer. The payloads are authenticated by the cipher, the
  headers in front of them are not, and they are obeyed before the payload is opened.
\<close>

text \<open>A reliable header with nothing behind it, which has not even room for the tag of the cipher.\<close>

definition forged_ack :: "reliability_packet_header \<Rightarrow> bytes" where
  "forged_ack h =
     general_packet_header_as_bytes \<lparr>gh_packet_type = packet_type_code Reliable\<rparr> @
     reliability_packet_header_as_bytes h"

lemma forged_ack_read:
  "general_packet_header_read (forged_ack h) = Some \<lparr>gh_packet_type = packet_type_code Reliable\<rparr>"
  "reliability_packet_header_read (drop 1 (forged_ack h)) = Some h"
  "drop 9 (forged_ack h) = []"
proof -
  have len: "length (reliability_packet_header_as_bytes h) = 8"
    using reliability_wire.length_as_bytes [of h] by simp
  show "general_packet_header_read (forged_ack h) = Some \<lparr>gh_packet_type = packet_type_code Reliable\<rparr>"
    unfolding forged_ack_def by (rule general_wire.read_as_bytes) simp
  show "reliability_packet_header_read (drop 1 (forged_ack h)) = Some h"
    using reliability_wire.read_exact [of h]
    by (simp add: forged_ack_def general_packet_header_as_bytes_def)
  show "drop 9 (forged_ack h) = []"
    by (simp add: forged_ack_def general_packet_header_as_bytes_def len)
qed

lemma receive_forged_ack:
  assumes "libs_ok L" "conn_pipeline c = SecurePipeline sp"
    and "process_incoming_header p h now (conn_state c) = Some (st, b)"
  shows "receive_reliable p L now (forged_ack h) c = Some (c\<lparr>conn_state := st\<rparr>, None)"
  unfolding receive_reliable_eq [OF forged_ack_read(1) general_packet_header.select_convs(1)]
    forged_ack_read(2,3)
  using assms(2,3) secure_lengths(1) [OF assms(1), of "[]"] by simp

section \<open>Properties\<close>

text \<open>
  C19: headers are obeyed without authentication. Nine bytes that come from a peer's address, the header
  of a reliable packet with any acknowledgement fields and no payload, release every packet that these
  fields name, although nothing is handed to the application: the packets are never retransmitted, and
  the connection counts as alive. One byte, the type of a disconnect, removes the connection.
\<close>

theorem plain_headers_are_obeyed:
  assumes "libs_ok L" "m addr = Some c" "conn_pipeline c = SecurePipeline sp"
  shows "handle_packet p L t addr (packet_type_code Disconnect # rest) m = Some (m(addr := None), None) \<and>
    (\<exists>m' c'. handle_packet Release L t addr (forged_ack h) m = Some (m', None) \<and> m' addr = Some c' \<and>
      unacknowledged_packets (conn_state c') =
        filter (\<lambda>pkt. \<not> packet_acked h pkt) (unacknowledged_packets (conn_state c)) \<and>
      last_seen c' = cr_last_seen t \<and> last_packet_received_time (conn_state c') = cr_incoming t \<and>
      conn_pipeline c' = conn_pipeline c)"
proof -
  let ?c = "c\<lparr>last_seen := cr_last_seen t\<rparr>"
  obtain st b where st: "process_incoming_header Release h (cr_incoming t) (conn_state c) = Some (st, b)"
    using process_incoming_header_total by (metis surj_pair)
  have "receive_reliable Release L (cr_incoming t) (forged_ack h) ?c = Some (?c\<lparr>conn_state := st\<rparr>, None)"
    by (rule receive_forged_ack [OF assms(1)]) (use assms(3) st in simp_all)
  then have "handle_packet Release L t addr (forged_ack h) m =
      Some (m(addr \<mapsto> ?c\<lparr>conn_state := st\<rparr>), None)"
    by (simp add: handle_packet_def accept_sender_known assms(2) forged_ack_read)
  with process_incoming_header_frame [OF st] disconnect_needs_no_key [of m addr c] assms(2) show ?thesis by simp
qed

definition example_unacked :: unacked_packet where
  "example_unacked = \<lparr>up_sequence = 1, up_time_sent = 0, up_data = [7], up_retries = 0\<rparr>"

definition example_peer :: connection where
  "example_peer = (connection_new \<lparr>sa_ip = [49], sa_port = 80\<rparr> True static_pipeline 0 0)
     \<lparr>conn_state := (reliable_new 0)\<lparr>unacknowledged_packets := [example_unacked]\<rparr>\<rparr>"

theorem plain_headers_are_obeyed_witness:
  "\<exists>m' c'. handle_packet Release plain_libs
      \<lparr>cr_new_state = 0, cr_new_seen = 0, cr_last_seen = 4, cr_elapsed = 5, cr_incoming = 4\<rparr>
      (endpoint example_peer) (forged_ack \<lparr>rh_sequence = 1, rh_ack = 1, rh_ack_bitfield = 0\<rparr>)
      [endpoint example_peer \<mapsto> example_peer] = Some (m', None) \<and>
    m' (endpoint example_peer) = Some c' \<and> unacknowledged_packets (conn_state c') = []"
proof -
  let ?h = "\<lparr>rh_sequence = 1, rh_ack = 1, rh_ack_bitfield = 0\<rparr>"
  have peer: "conn_pipeline example_peer = static_pipeline"
    "unacknowledged_packets (conn_state example_peer) = [example_unacked]"
    by (simp_all add: example_peer_def)
  have "packet_acked ?h example_unacked" by (simp add: packet_acked_def example_unacked_def)
  moreover have "[endpoint example_peer \<mapsto> example_peer] (endpoint example_peer) = Some example_peer"
    by simp
  ultimately show ?thesis
    using plain_headers_are_obeyed [of plain_libs "[endpoint example_peer \<mapsto> example_peer]"
        "endpoint example_peer" example_peer, OF plain_libs_ok _ peer(1), where h = ?h] peer(2)
    by fastforce
qed

end
