(* ===== verification/Thread_Pool.thy ===== *)
theory Thread_Pool
  imports Main "HOL-Library.Multiset"
begin

text \<open>
  The task pool of \<open>crates/core/src/threading.rs\<close> as a transition system over the interleavings of
  its workers and of the calls on it. A worker is split at the points where another thread can come
  in between: it takes the lock, evaluates its conditions under it, decides to wait, and only then
  waits; \<open>stop\<close> and \<open>resume\<close> write their flag and notify without the lock. The flags are evaluated
  in one step although the code loads them one after the other: the queue cannot change under the
  lock, and for an empty queue only the first load matters, for a nonempty one only the second. The
  mutex is never poisoned as long as dropping a task in \<open>clear_queue\<close> does not panic: nothing else runs
  foreign code while holding it. Waking without a notification is possible, as the condition variable
  allows. The fields \<open>accepted\<close>, \<open>taken\<close> and \<open>finished\<close> record the history of the jobs.
\<close>

section \<open>State\<close>

datatype 'j worker = Idle | Locked | Parking | Waiting | Running 'j | Exited

record 'j pool =
  pool_tasks :: "'j list"
  pool_stop :: bool
  pool_paused :: bool
  pool_workers :: "'j worker list"
  notify_one_due :: nat
  notify_all_due :: nat
  accepted :: "'j list"
  taken :: "('j \<times> bool) list"
  finished :: "'j list"

definition pool_new :: "nat \<Rightarrow> 'j pool" where
  "pool_new num_threads =
     \<lparr>pool_tasks = [], pool_stop = False, pool_paused = False,
      pool_workers = replicate (max num_threads 1) Idle, notify_one_due = 0, notify_all_due = 0,
      accepted = [], taken = [], finished = []\<rparr>"

definition thread_count :: "'j pool \<Rightarrow> nat" where
  "thread_count s = length (pool_workers s)"

fun holds_lock :: "'j worker \<Rightarrow> bool" where
  "holds_lock Locked = True"
| "holds_lock Parking = True"
| "holds_lock _ = False"

definition lock_free :: "'j pool \<Rightarrow> bool" where
  "lock_free s \<longleftrightarrow> list_all (\<lambda>w. \<not> holds_lock w) (pool_workers s)"

abbreviation set_worker :: "nat \<Rightarrow> 'j worker \<Rightarrow> 'j pool \<Rightarrow> 'j pool" where
  "set_worker i w s \<equiv> s\<lparr>pool_workers := (pool_workers s)[i := w]\<rparr>"

abbreviation worker :: "nat \<Rightarrow> 'j pool \<Rightarrow> 'j worker \<Rightarrow> bool" where
  "worker i s w \<equiv> i < length (pool_workers s) \<and> pool_workers s ! i = w"

definition wake_all :: "'j worker list \<Rightarrow> 'j worker list" where
  "wake_all ws = map (\<lambda>w. case w of Waiting \<Rightarrow> Idle | _ \<Rightarrow> w) ws"

section \<open>The steps of a worker\<close>

text \<open>
  \<open>worker_loop\<close>: the lock, the return when the pool is stopped and drained, the job at the front
  of the queue, the wait and its end, and the end of a job, which catches its panic.
\<close>

inductive worker_step :: "nat \<Rightarrow> 'j pool \<Rightarrow> 'j pool \<Rightarrow> bool" for i where
  acquire: "worker i s Idle \<Longrightarrow> lock_free s \<Longrightarrow> worker_step i s (set_worker i Locked s)"
| leave: "worker i s Locked \<Longrightarrow> pool_stop s \<Longrightarrow> pool_tasks s = [] \<Longrightarrow>
    worker_step i s (set_worker i Exited s)"
| pop: "worker i s Locked \<Longrightarrow> \<not> pool_paused s \<Longrightarrow> pool_tasks s = j # js \<Longrightarrow>
    worker_step i s ((set_worker i (Running j) s)
      \<lparr>pool_tasks := js, taken := taken s @ [(j, True)]\<rparr>)"
| park: "worker i s Locked \<Longrightarrow> \<not> (pool_stop s \<and> pool_tasks s = []) \<Longrightarrow>
    pool_paused s \<or> pool_tasks s = [] \<Longrightarrow> worker_step i s (set_worker i Parking s)"
| wait: "worker i s Parking \<Longrightarrow> worker_step i s (set_worker i Waiting s)"
| wake: "worker i s Waiting \<Longrightarrow> worker_step i s (set_worker i Idle s)"
| finish: "worker i s (Running j) \<Longrightarrow>
    worker_step i s ((set_worker i Idle s)\<lparr>finished := finished s @ [j]\<rparr>)"

section \<open>The calls on the pool\<close>

datatype 'j call = Enqueue 'j | Stop | Pause | Resume | Clear_Queue

definition notify_all_workers :: "'j pool \<Rightarrow> 'j pool" where
  "notify_all_workers s = s\<lparr>pool_workers := wake_all (pool_workers s)\<rparr>"

text \<open>
  The call up to its notification: \<open>enqueue\<close> and \<open>clear_queue\<close> take the lock, the others write a
  flag. The notifications are steps of their own. A second \<open>stop\<close> does nothing.
\<close>

inductive call_step :: "'j call \<Rightarrow> 'j pool \<Rightarrow> 'j pool \<Rightarrow> bool" where
  enqueue: "lock_free s \<Longrightarrow> call_step (Enqueue j) s
    (s\<lparr>pool_tasks := pool_tasks s @ [j], accepted := accepted s @ [j],
       notify_one_due := Suc (notify_one_due s)\<rparr>)"
| stop: "\<not> pool_stop s \<Longrightarrow> call_step Stop s
    (s\<lparr>pool_stop := True, notify_all_due := Suc (notify_all_due s)\<rparr>)"
| stop_again: "pool_stop s \<Longrightarrow> call_step Stop s s"
| pause: "call_step Pause s (s\<lparr>pool_paused := True\<rparr>)"
| resume: "call_step Resume s
    (s\<lparr>pool_paused := False, notify_all_due := Suc (notify_all_due s)\<rparr>)"
| clear: "lock_free s \<Longrightarrow> call_step Clear_Queue s
    (s\<lparr>pool_tasks := [], taken := taken s @ map (\<lambda>j. (j, False)) (pool_tasks s)\<rparr>)"

inductive notify_step :: "'j pool \<Rightarrow> 'j pool \<Rightarrow> bool" where
  notify_one: "notify_one_due s = Suc n \<Longrightarrow> worker i s Waiting \<Longrightarrow>
    notify_step s ((set_worker i Idle s)\<lparr>notify_one_due := n\<rparr>)"
| notify_none: "notify_one_due s = Suc n \<Longrightarrow> Waiting \<notin> set (pool_workers s) \<Longrightarrow>
    notify_step s (s\<lparr>notify_one_due := n\<rparr>)"
| notify_all: "notify_all_due s = Suc n \<Longrightarrow>
    notify_step s ((notify_all_workers s)\<lparr>notify_all_due := n\<rparr>)"

inductive pool_step :: "'j pool \<Rightarrow> 'j pool \<Rightarrow> bool" where
  by_worker: "worker_step i s s' \<Longrightarrow> pool_step s s'"
| by_call: "call_step c s s' \<Longrightarrow> pool_step s s'"
| by_notify: "notify_step s s' \<Longrightarrow> pool_step s s'"

inductive pool_reach :: "nat \<Rightarrow> 'j pool \<Rightarrow> bool" for n where
  start: "pool_reach n (pool_new n)"
| step: "pool_reach n s \<Longrightarrow> pool_step s s' \<Longrightarrow> pool_reach n s'"

lemma reach_worker: "pool_reach n s \<Longrightarrow> worker_step i s s' \<Longrightarrow> pool_reach n s'"
  and reach_call: "pool_reach n s \<Longrightarrow> call_step c s s' \<Longrightarrow> pool_reach n s'"
  by (blast intro: pool_reach.step pool_step.intros)+

inductive_cases worker_stepE: "worker_step i s s'"
inductive_cases call_stepE: "call_step c s s'"
inductive_cases notify_stepE: "notify_step s s'"
inductive_simps call_step_simps:
  "call_step (Enqueue j) s s'" "call_step Stop s s'" "call_step Pause s s'"
  "call_step Resume s s'" "call_step Clear_Queue s s'"

section \<open>Invariants\<close>

fun running_of :: "'j worker \<Rightarrow> 'j list" where
  "running_of (Running j) = [j]"
| "running_of _ = []"

definition in_flight :: "'j worker list \<Rightarrow> 'j multiset" where
  "in_flight ws = mset (concat (map running_of ws))"

definition holders :: "'j worker list \<Rightarrow> nat" where
  "holders ws = length (filter holds_lock ws)"

definition popped :: "'j pool \<Rightarrow> 'j list" where
  "popped s = map fst (filter snd (taken s))"

text \<open>
  Jobs leave the queue in the order in which they were accepted, by a worker or by \<open>clear_queue\<close>;
  every job that a worker took is running or finished, exactly once.
\<close>

definition jobs_ok :: "'j pool \<Rightarrow> bool" where
  "jobs_ok s \<longleftrightarrow> accepted s = map fst (taken s) @ pool_tasks s \<and>
     mset (popped s) = mset (finished s) + in_flight (pool_workers s)"

definition lock_ok :: "'j pool \<Rightarrow> bool" where
  "lock_ok s \<longleftrightarrow> holders (pool_workers s) \<le> 1"

lemma in_flight_update:
  assumes "i < length ws"
  shows "in_flight (ws[i := w]) + mset (running_of (ws ! i)) = in_flight ws + mset (running_of w)"
proof -
  have "in_flight ws = in_flight (take i ws) + mset (running_of (ws ! i)) + in_flight (drop (Suc i) ws)"
    by (subst id_take_nth_drop [OF assms]) (simp add: in_flight_def)
  then show ?thesis by (simp add: in_flight_def upd_conv_take_nth_drop [OF assms])
qed

lemma in_flight_quiet [simp]:
  "i < length ws \<Longrightarrow> running_of (ws ! i) = [] \<Longrightarrow> running_of w = [] \<Longrightarrow>
    in_flight (ws[i := w]) = in_flight ws"
  using in_flight_update [of i ws w] by simp

lemma in_flight_wake_all [simp]: "in_flight (wake_all ws) = in_flight ws"
proof -
  have "running_of (case w of Waiting \<Rightarrow> Idle | _ \<Rightarrow> w) = running_of w" for w :: "'a worker"
    by (cases w) auto
  then show ?thesis by (simp add: in_flight_def wake_all_def comp_def)
qed

lemma worker_step_jobs:
  assumes "worker_step i s s'" "jobs_ok s"
  shows "jobs_ok s'"
  using assms
proof cases
  case (pop j js)
  then have "in_flight ((pool_workers s)[i := Running j]) = in_flight (pool_workers s) + {#j#}"
    using in_flight_update [of i "pool_workers s" "Running j"] by simp
  then show ?thesis
    using assms(2) pop(1,4) by (simp add: jobs_ok_def popped_def)
next
  case (finish j)
  then have "in_flight ((pool_workers s)[i := Idle]) + {#j#} = in_flight (pool_workers s)"
    using in_flight_update [of i "pool_workers s" Idle] by simp
  then show ?thesis
    using assms(2) finish(1) by (simp add: jobs_ok_def popped_def ac_simps)
qed (use assms(2) in \<open>simp_all add: jobs_ok_def popped_def\<close>)

lemma call_step_jobs: "call_step c s s' \<Longrightarrow> jobs_ok s \<Longrightarrow> jobs_ok s'"
  by (induction rule: call_step.induct)
    (simp_all add: jobs_ok_def popped_def comp_def)

lemma notify_step_jobs: "notify_step s s' \<Longrightarrow> jobs_ok s \<Longrightarrow> jobs_ok s'"
  by (induction rule: notify_step.induct)
    (simp_all add: jobs_ok_def popped_def notify_all_workers_def)

lemma pool_step_jobs: "pool_step s s' \<Longrightarrow> jobs_ok s \<Longrightarrow> jobs_ok s'"
  by (induction rule: pool_step.induct)
    (auto intro: worker_step_jobs call_step_jobs notify_step_jobs)

lemma reach_jobs: "pool_reach n s \<Longrightarrow> jobs_ok s"
proof (induction rule: pool_reach.induct)
  case start
  have "concat (replicate m []) = []" for m by (induction m) auto
  then show ?case by (simp add: jobs_ok_def pool_new_def popped_def in_flight_def)
next
  case (step s s')
  then show ?case by (blast intro: pool_step_jobs)
qed

section \<open>Mutual exclusion\<close>

lemma holders_update:
  assumes "i < length ws"
  shows "holders (ws[i := w]) + (if holds_lock (ws ! i) then 1 else 0) =
    holders ws + (if holds_lock w then 1 else 0)"
proof -
  have "holders ws = holders (take i ws) + (if holds_lock (ws ! i) then 1 else 0)
      + holders (drop (Suc i) ws)"
    by (subst id_take_nth_drop [OF assms]) (simp add: holders_def)
  then show ?thesis by (simp add: holders_def upd_conv_take_nth_drop [OF assms])
qed

lemma holders_free: "lock_free s \<longleftrightarrow> holders (pool_workers s) = 0"
  by (simp add: lock_free_def holders_def list_all_iff filter_empty_conv)

lemma holders_wake_all: "holders (wake_all ws) = holders ws"
proof (induction ws)
  case Nil
  then show ?case by (simp add: holders_def wake_all_def)
next
  case (Cons w ws)
  then show ?case by (cases w) (auto simp: holders_def wake_all_def)
qed

lemma worker_step_lock:
  assumes "worker_step i s s'" "lock_ok s"
  shows "lock_ok s'"
  using assms
proof cases
  case acquire
  then show ?thesis
    using assms(2) holders_update [of i "pool_workers s" Locked]
    by (simp add: lock_ok_def holders_free)
next
  case (pop j js)
  then show ?thesis
    using assms(2) holders_update [of i "pool_workers s" "Running j"] by (simp add: lock_ok_def)
next
  case leave
  then show ?thesis
    using assms(2) holders_update [of i "pool_workers s" Exited] by (simp add: lock_ok_def)
next
  case park
  then show ?thesis
    using assms(2) holders_update [of i "pool_workers s" Parking] by (simp add: lock_ok_def)
next
  case wait
  then show ?thesis
    using assms(2) holders_update [of i "pool_workers s" Waiting] by (simp add: lock_ok_def)
next
  case wake
  then show ?thesis
    using assms(2) holders_update [of i "pool_workers s" Idle] by (simp add: lock_ok_def)
next
  case (finish j)
  then show ?thesis
    using assms(2) holders_update [of i "pool_workers s" Idle] by (simp add: lock_ok_def)
qed

lemma call_step_lock: "call_step c s s' \<Longrightarrow> lock_ok s \<Longrightarrow> lock_ok s'"
  by (induction rule: call_step.induct) (simp_all add: lock_ok_def)

lemma notify_step_lock: "notify_step s s' \<Longrightarrow> lock_ok s \<Longrightarrow> lock_ok s'"
proof (induction rule: notify_step.induct)
  case (notify_one s n i)
  with holders_update [of i "pool_workers s" Idle] show ?case by (simp add: lock_ok_def)
qed (simp_all add: lock_ok_def notify_all_workers_def holders_wake_all)

lemma pool_step_lock: "pool_step s s' \<Longrightarrow> lock_ok s \<Longrightarrow> lock_ok s'"
  by (induction rule: pool_step.induct)
    (auto intro: worker_step_lock call_step_lock notify_step_lock)

lemma reach_lock: "pool_reach n s \<Longrightarrow> lock_ok s"
proof (induction rule: pool_reach.induct)
  case start
  then show ?case by (simp add: lock_ok_def pool_new_def holders_def)
next
  case (step s s')
  then show ?case by (blast intro: pool_step_lock)
qed

section \<open>Properties\<close>

text \<open>
  C26: in every interleaving of the workers and the calls, jobs leave the queue in the order in which
  they were accepted, each of them once, and every job that a worker took is being run by exactly one
  worker or has finished once.
\<close>

theorem jobs_run_exactly_once:
  assumes "pool_reach n s"
  shows "accepted s = map fst (taken s) @ pool_tasks s \<and>
    mset (popped s) = mset (finished s) + in_flight (pool_workers s)"
  using reach_jobs [OF assms] by (simp add: jobs_ok_def)

theorem jobs_run_exactly_once_witness:
  "\<exists>s. pool_reach 1 s \<and> accepted s = [''a'', ''b''] \<and> pool_tasks s = [''b''] \<and>
    mset (popped s) = mset (finished s) + in_flight (pool_workers s)"
proof -
  let ?s0 = "pool_new 1 :: string pool"
  let ?s1 = "?s0\<lparr>pool_tasks := [''a''], accepted := [''a''], notify_one_due := 1\<rparr>"
  let ?s2 = "?s1\<lparr>pool_tasks := [''a'', ''b''], accepted := [''a'', ''b''], notify_one_due := 2\<rparr>"
  let ?s3 = "set_worker 0 Locked ?s2"
  let ?s4 = "(set_worker 0 (Running ''a'') ?s3)\<lparr>pool_tasks := [''b''], taken := taken ?s3 @ [(''a'', True)]\<rparr>"
  have "call_step (Enqueue ''a'') ?s0 ?s1" "call_step (Enqueue ''b'') ?s1 ?s2"
    by (simp_all add: call_step_simps pool_new_def lock_free_def)
  then have reach2: "pool_reach 1 ?s2" by (blast intro: pool_reach.start reach_call)
  have w3: "worker_step 0 ?s2 ?s3" by (rule acquire) (simp_all add: pool_new_def lock_free_def)
  have w4: "worker_step 0 ?s3 ?s4" by (rule pop) (simp_all add: pool_new_def)
  have reach: "pool_reach 1 ?s4" by (rule reach_worker [OF reach_worker [OF reach2 w3] w4])
  have "accepted ?s4 = [''a'', ''b'']" "pool_tasks ?s4 = [''b'']" by simp_all
  with jobs_run_exactly_once [OF reach] reach show ?thesis by blast
qed

text \<open>At most one worker is inside the critical section of the queue's mutex.\<close>

theorem queue_mutual_exclusion:
  assumes "pool_reach n s" "i < length (pool_workers s)" "j < length (pool_workers s)"
    and "holds_lock (pool_workers s ! i)" "holds_lock (pool_workers s ! j)"
  shows "i = j"
proof (rule ccontr)
  assume "i \<noteq> j"
  have le: "holders (pool_workers s) \<le> 1" using reach_lock [OF assms(1)] by (simp add: lock_ok_def)
  from holders_update [OF assms(2), of Idle] le assms(4)
  have "holders ((pool_workers s)[i := Idle]) = 0" by simp
  moreover have "(pool_workers s)[i := Idle] ! j \<in> set ((pool_workers s)[i := Idle])"
    using assms(3) by (intro nth_mem) simp
  ultimately show False
    using assms(5) \<open>i \<noteq> j\<close> by (simp add: holders_def filter_empty_conv)
qed

theorem queue_mutual_exclusion_witness:
  "\<exists>s :: string pool. pool_reach 2 s \<and> holds_lock (pool_workers s ! 0) \<and>
    (\<forall>j < 2. holds_lock (pool_workers s ! j) \<longrightarrow> 0 = j)"
proof -
  let ?s = "set_worker 0 Locked (pool_new 2 :: string pool)"
  have reach: "pool_reach 2 ?s"
    by (rule pool_reach.step [OF pool_reach.start], rule by_worker, rule acquire)
      (simp_all add: pool_new_def lock_free_def numeral_2_eq_2)
  have len: "length (pool_workers ?s) = 2" "holds_lock (pool_workers ?s ! 0)"
    by (simp_all add: pool_new_def numeral_2_eq_2)
  have "\<forall>j < 2. holds_lock (pool_workers ?s ! j) \<longrightarrow> 0 = j"
  proof (intro allI impI)
    fix j :: nat
    assume "j < 2" "holds_lock (pool_workers ?s ! j)"
    then show "0 = j"
      by (intro queue_mutual_exclusion [OF reach]) (simp_all only: len zero_less_numeral)
  qed
  with reach len(2) show ?thesis by blast
qed

end
