(* ===== verification/Pool_Shutdown.thy ===== *)
theory Pool_Shutdown
  imports Thread_Pool
begin

text \<open>
  Shutting the task pool of \<open>crates/core/src/threading.rs\<close> down: what \<open>stop\<close>, and with it the
  destructor, guarantees when its joins return, when they return, and the two ways in which they do
  not. The run of the pool after the stop is the run of its workers and pending notifications.
\<close>

section \<open>Stopping\<close>

text \<open>Runs in which nothing is enqueued once the pool is being stopped.\<close>

inductive orderly_reach :: "nat \<Rightarrow> 'j pool \<Rightarrow> bool" for n where
  orderly_start: "orderly_reach n (pool_new n)"
| orderly_worker: "orderly_reach n s \<Longrightarrow> worker_step i s s' \<Longrightarrow> orderly_reach n s'"
| orderly_notify: "orderly_reach n s \<Longrightarrow> notify_step s s' \<Longrightarrow> orderly_reach n s'"
| orderly_call: "orderly_reach n s \<Longrightarrow> call_step c s s' \<Longrightarrow>
    pool_stop s \<longrightarrow> (\<forall>j. c \<noteq> Enqueue j) \<Longrightarrow> orderly_reach n s'"

lemma orderly_is_reach: "orderly_reach n s \<Longrightarrow> pool_reach n s"
  by (induction rule: orderly_reach.induct) (auto intro: pool_reach.intros pool_step.intros)

definition drained :: "'j pool \<Rightarrow> bool" where
  "drained s \<longleftrightarrow> (Exited \<in> set (pool_workers s) \<longrightarrow> pool_stop s \<and> pool_tasks s = [])"

lemma exited_update: "Exited \<in> set (ws[i := w]) \<Longrightarrow> w \<noteq> Exited \<Longrightarrow> Exited \<in> set ws"
  using set_update_subset_insert [of ws i w] by auto

lemma exited_wake_all: "Exited \<in> set (wake_all ws) \<longleftrightarrow> Exited \<in> set ws"
proof (induction ws)
  case Nil
  then show ?case by (simp add: wake_all_def)
next
  case (Cons w ws)
  then show ?case by (cases w) (auto simp: wake_all_def)
qed

lemma worker_step_drained:
  assumes "worker_step i s s'" "drained s"
  shows "drained s'"
  using assms by cases (auto simp: drained_def dest: exited_update)

lemma notify_step_drained: "notify_step s s' \<Longrightarrow> drained s \<Longrightarrow> drained s'"
  by (induction rule: notify_step.induct)
    (auto simp: drained_def notify_all_workers_def exited_wake_all dest: exited_update)

lemma orderly_drained: "orderly_reach n s \<Longrightarrow> drained s"
proof (induction rule: orderly_reach.induct)
  case orderly_start
  then show ?case by (simp add: drained_def pool_new_def)
next
  case (orderly_call s c s')
  from orderly_call(2,3,4) show ?case
    by (cases rule: call_step.cases) (auto simp: drained_def)
qed (blast intro: worker_step_drained notify_step_drained)+

text \<open>The joins of \<open>stop\<close> return when every worker has returned.\<close>

definition joined :: "'j pool \<Rightarrow> bool" where
  "joined s \<longleftrightarrow> set (pool_workers s) = {Exited}"

definition cleared :: "'j pool \<Rightarrow> 'j list" where
  "cleared s = map fst (filter (Not \<circ> snd) (taken s))"

lemma in_flight_exited: "set ws \<subseteq> {Exited} \<Longrightarrow> in_flight ws = {#}"
  by (induction ws) (auto simp: in_flight_def)

lemma partition_popped:
  "mset (map fst ts) = mset (map fst (filter snd ts)) + mset (map fst (filter (Not \<circ> snd) ts))"
  by (induction ts) auto

text \<open>
  A pool that is stopped while it is paused and has tasks: its workers wait for a resume that the
  thread in \<open>stop\<close>, which owns the pool and joins them, cannot call.
\<close>

definition own_step :: "'j pool \<Rightarrow> 'j pool \<Rightarrow> bool" where
  "own_step s s' \<longleftrightarrow> (\<exists>i. worker_step i s s') \<or> notify_step s s'"

definition stuck :: "'j pool \<Rightarrow> bool" where
  "stuck s \<longleftrightarrow> pool_paused s \<and> pool_tasks s \<noteq> [] \<and> Exited \<notin> set (pool_workers s)"

lemma own_step_stuck: "own_step s s' \<Longrightarrow> stuck s \<Longrightarrow> stuck s'"
  unfolding own_step_def
proof (elim disjE exE)
  fix i
  assume "worker_step i s s'" "stuck s"
  then show "stuck s'" by cases (auto simp: stuck_def dest: exited_update)
next
  assume "notify_step s s'" "stuck s"
  then show "stuck s'"
    by cases (auto simp: stuck_def notify_all_workers_def exited_wake_all dest: exited_update)
qed

lemma stuck_forever: "own_step\<^sup>*\<^sup>* s s' \<Longrightarrow> stuck s \<Longrightarrow> stuck s'"
  by (induction rule: rtranclp_induct) (auto intro: own_step_stuck)

section \<open>Results\<close>

text \<open>
  The receiver that \<open>enqueue\<close> returns. The job runs the task, \<open>execute\<close> being \<open>None\<close> when that
  panics, and sends its result; a job that panics, or is dropped by \<open>clear_queue\<close>, drops the sender.
\<close>

datatype 'r receiver = Pending | Received 'r | Closed

definition receiver :: "('j \<Rightarrow> 'r option) \<Rightarrow> 'j pool \<Rightarrow> 'j \<Rightarrow> 'r receiver" where
  "receiver execute s j =
     (if j \<in> set (finished s) then (case execute j of Some r \<Rightarrow> Received r | None \<Rightarrow> Closed)
      else if j \<in> set (cleared s) then Closed
      else Pending)"

section \<open>Coming to rest\<close>

text \<open>
  The steps of the workers and of the pending notifications, spurious wakeups apart: only a
  notification moves a waiting worker.
\<close>

definition prompt_step :: "'j pool \<Rightarrow> 'j pool \<Rightarrow> bool" where
  "prompt_step s s' \<longleftrightarrow> (\<exists>i. worker_step i s s' \<and> \<not> worker i s Waiting) \<or> notify_step s s'"

text \<open>
  A pool in which every worker that will look at the flags sees that it is stopped, and every worker
  that waits will be notified.
\<close>

definition stopping :: "'j pool \<Rightarrow> bool" where
  "stopping s \<longleftrightarrow> pool_stop s \<and> \<not> pool_paused s \<and> Parking \<notin> set (pool_workers s) \<and>
     (Waiting \<in> set (pool_workers s) \<longrightarrow> 0 < notify_all_due s)"

fun worker_work :: "'j worker \<Rightarrow> nat" where
  "worker_work Idle = 3"
| "worker_work Locked = 2"
| "worker_work Parking = 1"
| "worker_work Waiting = 0"
| "worker_work (Running j) = 4"
| "worker_work Exited = 0"

text \<open>A bound on the steps that are left: a job costs three more than its taking saves.\<close>

definition pool_work :: "'j pool \<Rightarrow> nat" where
  "pool_work s = 3 * length (pool_tasks s) + sum_list (map worker_work (pool_workers s)) +
     4 * notify_one_due s + (3 * length (pool_workers s) + 1) * notify_all_due s"

lemma work_update:
  assumes "i < length ws"
  shows "sum_list (map worker_work (ws[i := w])) + worker_work (ws ! i) =
    sum_list (map worker_work ws) + worker_work w"
proof -
  have "sum_list (map worker_work ws) = sum_list (map worker_work (take i ws)) +
      worker_work (ws ! i) + sum_list (map worker_work (drop (Suc i) ws))"
    by (subst id_take_nth_drop [OF assms]) simp
  then show ?thesis by (simp add: upd_conv_take_nth_drop [OF assms])
qed

lemma work_wake_all: "sum_list (map worker_work (wake_all ws)) \<le>
    sum_list (map worker_work ws) + 3 * length ws"
proof (induction ws)
  case (Cons w ws)
  then show ?case by (cases w) (simp_all add: wake_all_def)
qed (simp add: wake_all_def)

lemma awake: "Waiting \<notin> set (wake_all ws) \<and> (Parking \<in> set (wake_all ws) \<longrightarrow> Parking \<in> set ws)"
  by (auto simp: wake_all_def split: worker.splits)

lemma set_update_others: "v \<in> set (ws[i := w]) \<Longrightarrow> v \<noteq> w \<Longrightarrow> v \<in> set ws"
  using set_update_subset_insert [of ws i w] by auto

lemma prompt_step_works:
  assumes "prompt_step s s'" "stopping s"
  shows "stopping s' \<and> length (pool_workers s') = length (pool_workers s) \<and>
    pool_work s' < pool_work s"
  using assms(1) unfolding prompt_step_def
proof (elim disjE exE conjE)
  fix i
  assume "worker_step i s s'" "\<not> worker i s Waiting"
  then show ?thesis
  proof cases
    case acquire
    with assms(2) work_update [of i "pool_workers s" Locked] show ?thesis
      by (auto simp: stopping_def pool_work_def dest: set_update_others)
  next
    case leave
    with assms(2) work_update [of i "pool_workers s" Exited] show ?thesis
      by (auto simp: stopping_def pool_work_def dest: set_update_others)
  next
    case (pop j js)
    with assms(2) work_update [of i "pool_workers s" "Running j"] show ?thesis
      by (auto simp: stopping_def pool_work_def dest: set_update_others)
  next
    case (finish j)
    with assms(2) work_update [of i "pool_workers s" Idle] show ?thesis
      by (auto simp: stopping_def pool_work_def dest: set_update_others)
  next
    case wait
    with assms(2) nth_mem [of i "pool_workers s"] show ?thesis by (auto simp: stopping_def)
  qed (use assms(2) in \<open>auto simp: stopping_def\<close>)
next
  assume "notify_step s s'"
  then show ?thesis
  proof cases
    case (notify_one n i)
    with assms(2) work_update [of i "pool_workers s" Idle] show ?thesis
      by (auto simp: stopping_def pool_work_def dest: set_update_others)
  next
    case (notify_none n)
    with assms(2) show ?thesis by (auto simp: stopping_def pool_work_def)
  next
    case (notify_all n)
    with assms(2) work_wake_all [of "pool_workers s"] awake [of "pool_workers s"] show ?thesis
      by (auto simp: stopping_def pool_work_def notify_all_workers_def)
        (simp_all add: wake_all_def)
  qed
qed

lemma prompt_run_works:
  "(prompt_step ^^ k) s s' \<Longrightarrow> stopping s \<Longrightarrow>
    stopping s' \<and> length (pool_workers s') = length (pool_workers s) \<and> pool_work s' + k \<le> pool_work s"
proof (induction k arbitrary: s')
  case (Suc k)
  then obtain t where "(prompt_step ^^ k) s t" "prompt_step t s'" by auto
  with Suc.IH Suc.prems(2) prompt_step_works show ?case by fastforce
qed simp

lemma prompt_stuck:
  assumes "stopping s" "pool_workers s \<noteq> []" "\<nexists>s'. prompt_step s s'"
  shows "joined s"
proof -
  have all: "notify_all_due s = 0"
    using assms(3) notify_all [of s] by (cases "notify_all_due s") (auto simp: prompt_step_def)
  have no: "\<not> worker_step i s s'" if "\<not> worker i s Waiting" for i s'
    using assms(3) that by (auto simp: prompt_step_def)
  have locked: "Locked \<notin> set (pool_workers s)"
  proof
    assume "Locked \<in> set (pool_workers s)"
    then obtain i where i: "worker i s Locked" by (auto simp: in_set_conv_nth)
    then show False
      using no [of i] leave [of i s] pop [of i s] assms(1)
      by (cases "pool_tasks s") (auto simp: stopping_def)
  qed
  then have free: "lock_free s"
    using assms(1) by (auto simp: lock_free_def list_all_iff stopping_def elim!: holds_lock.elims)
  have "w = Exited" if "w \<in> set (pool_workers s)" for w
  proof -
    obtain i where "worker i s w" using \<open>w \<in> set _\<close> by (auto simp: in_set_conv_nth)
    then show ?thesis
      using no [of i] acquire [of i s] finish [of i s] free locked that all assms(1)
      by (cases w) (auto simp: stopping_def)
  qed
  then show ?thesis using assms(2) by (cases "pool_workers s") (auto simp: joined_def)
qed

lemma pool_step_length: "pool_step s s' \<Longrightarrow> length (pool_workers s') = length (pool_workers s)"
  by (auto elim!: pool_step.cases worker_stepE call_stepE notify_stepE
      simp: notify_all_workers_def wake_all_def)

lemma reach_thread_count: "pool_reach n s \<Longrightarrow> thread_count s = max n 1"
  by (induction rule: pool_reach.induct) (simp_all add: thread_count_def pool_new_def pool_step_length)

section \<open>Properties\<close>

text \<open>
  C27: when all joins of \<open>stop\<close> have returned, and nothing was enqueued after the stop, every accepted
  job has been run to its end exactly once or was removed by \<open>clear_queue\<close>; none is lost, and every receiver
  that \<open>enqueue\<close> handed out has its result or is closed.
\<close>

theorem stopped_pool_has_finished:
  assumes "orderly_reach n s" "joined s"
  shows "pool_tasks s = [] \<and> mset (accepted s) = mset (finished s) + mset (cleared s) \<and>
    (\<forall>j. receiver execute s j = Pending \<longleftrightarrow> j \<notin> set (accepted s))"
proof -
  have jobs: "jobs_ok s" using reach_jobs [OF orderly_is_reach [OF assms(1)]] .
  have exited: "set (pool_workers s) = {Exited}" using assms(2) by (simp add: joined_def)
  then have tasks: "pool_tasks s = []"
    using orderly_drained [OF assms(1)] by (simp add: drained_def)
  have "mset (popped s) = mset (finished s)"
    using jobs in_flight_exited [of "pool_workers s"] exited by (simp add: jobs_ok_def)
  moreover have "mset (map fst (taken s)) = mset (popped s) + mset (cleared s)"
    using partition_popped [of "taken s"] by (simp only: popped_def cleared_def)
  ultimately have all: "mset (accepted s) = mset (finished s) + mset (cleared s)"
    using jobs tasks by (simp add: jobs_ok_def)
  then have "set (accepted s) = set (finished s) \<union> set (cleared s)"
    by (metis set_mset_mset set_mset_union)
  with tasks all show ?thesis by (auto simp: receiver_def split: option.splits)
qed

theorem stopped_pool_has_finished_witness:
  "\<exists>s :: string pool. orderly_reach 1 s \<and> joined s \<and> pool_tasks s = [] \<and>
    mset (accepted s) = mset (finished s) + mset (cleared s) \<and>
    (\<forall>j. receiver (\<lambda>j. Some (length j)) s j = Pending \<longleftrightarrow> j \<notin> set (accepted s))"
proof -
  let ?s1 = "(pool_new 1 :: string pool)\<lparr>pool_stop := True, notify_all_due := 1\<rparr>"
  let ?s2 = "set_worker 0 Locked ?s1"
  let ?s3 = "set_worker 0 Exited ?s2"
  have "call_step Stop (pool_new 1) ?s1" by (simp add: call_step_simps pool_new_def)
  then have reach1: "orderly_reach 1 ?s1"
    by (rule orderly_call [OF orderly_start]) simp
  have w2: "worker_step 0 ?s1 ?s2" by (rule acquire) (simp_all add: pool_new_def lock_free_def)
  have w3: "worker_step 0 ?s2 ?s3" by (rule leave) (simp_all add: pool_new_def)
  have reach: "orderly_reach 1 ?s3" by (rule orderly_worker [OF orderly_worker [OF reach1 w2] w3])
  have "joined ?s3" by (simp add: joined_def pool_new_def)
  with stopped_pool_has_finished [OF reach] reach show ?thesis by blast
qed

text \<open>
  A pool that is stopped while it is paused and still has a task never comes to rest: whatever its
  workers and the pending notifications do, no worker returns, so the joins of \<open>stop\<close>, and with them
  the destructor, wait forever.
\<close>

theorem paused_pool_never_joins:
  assumes "own_step\<^sup>*\<^sup>* s s'" "pool_paused s" "pool_tasks s \<noteq> []" "Exited \<notin> set (pool_workers s)"
  shows "\<not> joined s' \<and> pool_tasks s' \<noteq> []"
  using stuck_forever [OF assms(1)] assms(2-4) by (auto simp: stuck_def joined_def)

theorem paused_pool_never_joins_witness:
  "\<exists>s :: string pool. pool_reach 1 s \<and> pool_stop s \<and> (\<forall>s'. own_step\<^sup>*\<^sup>* s s' \<longrightarrow> \<not> joined s')"
proof -
  let ?s0 = "pool_new 1 :: string pool"
  let ?s1 = "?s0\<lparr>pool_paused := True\<rparr>"
  let ?s2 = "?s1\<lparr>pool_tasks := [''a''], accepted := [''a''], notify_one_due := 1\<rparr>"
  let ?s3 = "?s2\<lparr>pool_stop := True, notify_all_due := 1\<rparr>"
  have "call_step Pause ?s0 ?s1" "call_step (Enqueue ''a'') ?s1 ?s2" "call_step Stop ?s2 ?s3"
    by (simp_all add: call_step_simps pool_new_def lock_free_def)
  then have reach: "pool_reach 1 ?s3" by (blast intro: pool_reach.start reach_call)
  have "\<not> joined s'" if "own_step\<^sup>*\<^sup>* ?s3 s'" for s'
    using paused_pool_never_joins [OF that] by (simp add: pool_new_def)
  moreover have "pool_stop ?s3" by simp
  ultimately show ?thesis using reach by blast
qed

lemma lone_waiter:
  assumes "own_step s s'" "pool_workers s = [Waiting]" "notify_one_due s = 0" "notify_all_due s = 0"
  shows "worker_step 0 s s' \<and> s' = set_worker 0 Idle s"
proof -
  have "\<not> notify_step s s'" using assms(3,4) by (auto elim: notify_stepE)
  then obtain i where i: "worker_step i s s'" using assms(1) by (auto simp: own_step_def)
  then have "i = 0 \<and> s' = set_worker 0 Idle s"
    using assms(2) by cases auto
  with i show ?thesis by simp
qed

text \<open>
  C29: a wakeup can be lost: \<open>stop\<close> sets its flag and notifies without the queue's mutex, so it can do
  both after the only worker has decided to wait and before it waits. The worker then waits on a
  stopped, empty pool, no notification is due, and nothing but a spurious wakeup ever moves it.
\<close>

theorem stop_can_lose_wakeup:
  "\<exists>s :: 'j pool. pool_reach 1 s \<and> pool_stop s \<and> pool_tasks s = [] \<and> pool_workers s = [Waiting] \<and>
    (\<forall>s'. own_step s s' \<longrightarrow> worker_step 0 s s' \<and> s' = set_worker 0 Idle s)"
proof -
  let ?s0 = "pool_new 1 :: 'j pool"
  let ?s1 = "set_worker 0 Locked ?s0"
  let ?s2 = "set_worker 0 Parking ?s1"
  let ?s3 = "?s2\<lparr>pool_stop := True, notify_all_due := Suc (notify_all_due ?s2)\<rparr>"
  let ?s4 = "(notify_all_workers ?s3)\<lparr>notify_all_due := 0\<rparr>"
  let ?s5 = "set_worker 0 Waiting ?s4"
  have "pool_reach 1 ?s1"
    by (rule pool_reach.step [OF pool_reach.start], rule by_worker, rule acquire)
      (simp_all add: pool_new_def lock_free_def)
  then have "pool_reach 1 ?s2"
    by (rule pool_reach.step) (rule by_worker, rule park, simp_all add: pool_new_def)
  then have "pool_reach 1 ?s3"
    by (rule pool_reach.step) (rule by_call [of Stop], rule stop, simp add: pool_new_def)
  then have "pool_reach 1 ?s4"
    by (rule pool_reach.step) (rule by_notify, rule notify_all, simp add: pool_new_def)
  then have reach: "pool_reach 1 ?s5"
    by (rule pool_reach.step)
      (rule by_worker, rule wait, simp add: pool_new_def notify_all_workers_def wake_all_def)
  have fields: "pool_workers ?s5 = [Waiting]" "notify_one_due ?s5 = 0" "notify_all_due ?s5 = 0"
    "pool_stop ?s5" "pool_tasks ?s5 = []"
    by (simp_all add: pool_new_def notify_all_workers_def wake_all_def)
  then have "\<forall>s'. own_step ?s5 s' \<longrightarrow> worker_step 0 ?s5 s' \<and> s' = set_worker 0 Idle ?s5"
    using lone_waiter by blast
  with reach fields show ?thesis by blast
qed

theorem stop_can_lose_wakeup_witness:
  "\<exists>s s' :: string pool. pool_reach 1 s \<and> pool_stop s \<and> pool_workers s = [Waiting] \<and>
    own_step s s' \<and> pool_workers s' = [Idle]"
proof -
  obtain s :: "string pool" where s: "pool_reach 1 s" "pool_stop s" "pool_workers s = [Waiting]"
    "\<forall>s'. own_step s s' \<longrightarrow> worker_step 0 s s' \<and> s' = set_worker 0 Idle s"
    using stop_can_lose_wakeup by blast
  have "own_step s (set_worker 0 Idle s)"
    using worker_step.wake [of 0 s] s(3) by (auto simp: own_step_def)
  with s show ?thesis by fastforce
qed

text \<open>
  C28: the call \<open>stop\<close> works unless its wakeup is lost. From a stopped pool that is not paused, whose
  notification is still due and in which no worker has already decided to wait, every run of the
  workers and notifications without spurious wakeups ends within the work that is left, and where it
  ends, every worker has returned: the joins of \<open>stop\<close> return.
\<close>

theorem stop_joins:
  assumes "pool_reach n s" "pool_stop s" "\<not> pool_paused s" "0 < notify_all_due s"
    and "Parking \<notin> set (pool_workers s)" "(prompt_step ^^ k) s s'"
  shows "k \<le> pool_work s \<and> ((\<exists>s''. prompt_step s' s'') \<or> joined s')"
proof -
  have "stopping s" using assms(2-5) by (simp add: stopping_def)
  from prompt_run_works [OF assms(6) this] have run: "stopping s'"
    "length (pool_workers s') = length (pool_workers s)" "k \<le> pool_work s" by auto
  moreover have "pool_workers s' \<noteq> []"
    using reach_thread_count [OF assms(1)] run(2) by (auto simp: thread_count_def)
  ultimately show ?thesis using prompt_stuck by blast
qed

theorem stop_joins_witness:
  "\<exists>s :: string pool. pool_reach 1 s \<and> pool_tasks s = [''a''] \<and>
    (\<forall>k s'. (prompt_step ^^ k) s s' \<longrightarrow> k \<le> 14 \<and> ((\<exists>s''. prompt_step s' s'') \<or> joined s'))"
proof -
  let ?s0 = "pool_new 1 :: string pool"
  let ?s1 = "?s0\<lparr>pool_tasks := [''a''], accepted := [''a''], notify_one_due := 1\<rparr>"
  let ?s2 = "?s1\<lparr>pool_stop := True, notify_all_due := 1\<rparr>"
  have "call_step (Enqueue ''a'') ?s0 ?s1" "call_step Stop ?s1 ?s2"
    by (simp_all add: call_step_simps pool_new_def lock_free_def)
  then have reach: "pool_reach 1 ?s2" by (blast intro: pool_reach.start reach_call)
  have "k \<le> 14 \<and> ((\<exists>s''. prompt_step s' s'') \<or> joined s')" if "(prompt_step ^^ k) ?s2 s'" for k s'
    using stop_joins [OF reach _ _ _ _ that] by (simp add: pool_new_def pool_work_def)
  moreover have "pool_tasks ?s2 = [''a'']" by simp
  ultimately show ?thesis using reach by blast
qed

end
