(* ===== verification/Swarm.thy ===== *)
theory Swarm
  imports Client
begin

text \<open>
  The load generator \<open>bin/client_swarm.rs\<close>: it keeps one predicting client per server address,
  speaks to the socket without the connection manager, and moves its predicted tick by a
  proportional control. Its world is made of \<open>f32\<close> positions.
\<close>

section \<open>World\<close>

text \<open>
  \<open>f32::to_bits\<close>. In units of the smallest positive number, a finite number is a significand of at
  most 24 bits times \<open>2 ^ k\<close>; its encoding is the significand plus \<open>k * 2 ^ 23\<close>.
\<close>

fun f32_to_bits :: "f32 \<Rightarrow> u32" where
  "f32_to_bits NaN = 0x7FC00000"
| "f32_to_bits (Inf s) = (if s then 0xFF800000 else 0x7F800000)"
| "f32_to_bits (Fin q) =
     (let n = \<bar>q\<bar> * units; k = ulp_exp n
      in (if q < 0 then 0x80000000 else 0) OR word_of_int (\<lfloor>n / 2 ^ k\<rfloor> + int k * 2 ^ 23))"

record swarm_world =
  swarm_positions :: "(f32 \<times> f32 \<times> f32) list"

definition swarm_hash :: "hasher \<Rightarrow> swarm_world \<Rightarrow> u64" where
  "swarm_hash hash w =
     hash (concat (map (\<lambda>(x, y, z). to_le_bytes 4 (f32_to_bits x) @ to_le_bytes 4 (f32_to_bits y) @
       to_le_bytes 4 (f32_to_bits z)) (swarm_positions w)))"

definition swarm_step_physics :: "u32 \<Rightarrow> swarm_world \<Rightarrow> swarm_world option" where
  "swarm_step_physics input w =
     (if input AND 0x01 \<noteq> 0 then
        (case swarm_positions w of
           [] \<Rightarrow> None
         | (x, y, z) # rest \<Rightarrow>
             Some (w\<lparr>swarm_positions := (x + f32_lit (1 / 100), y, z) # rest\<rparr>))
      else Some w)"

section \<open>One client of the swarm\<close>

record swarm_client =
  sc_world :: swarm_world
  sc_history :: "(swarm_world, u32) history_buffer"
  sc_dispatch :: "u64 \<rightharpoonup> instant"
  sc_predicted_tick :: u64
  sc_last_server_tick :: u64
  sc_rtt_ms :: u128

definition swarm_client_new :: "swarm_client option" where
  "swarm_client_new = do {
     history \<leftarrow> history_new 128;
     Some \<lparr>sc_world = \<lparr>swarm_positions = [(f32_lit 0, f32_lit 0, f32_lit 0)]\<rparr>, sc_history = history,
           sc_dispatch = Map.empty, sc_predicted_tick = 0, sc_last_server_tick = 0, sc_rtt_ms = 0\<rparr>
   }"

text \<open>\<open>process_packet\<close> reads the header behind the type byte, whatever the type is.\<close>

definition swarm_process_packet ::
  "profile \<Rightarrow> instant \<Rightarrow> bytes \<Rightarrow> swarm_client \<Rightarrow> swarm_client option" where
  "swarm_process_packet p now packet c =
     (let offset = general_packet_header_size in
      if length packet < offset + snapshot_header_size then Some c
      else do {
        rest \<leftarrow> slice offset (length packet) packet;
        (case snapshot_header_read rest of
           None \<Rightarrow> Some c
         | Some snap \<Rightarrow> do {
             let c1 = c\<lparr>sc_last_server_tick := sh_tick snap\<rparr>;
             let c2 = (case sc_dispatch c1 (sh_last_input_tick snap) of
                         None \<Rightarrow> c1
                       | Some dispatch_time \<Rightarrow>
                           c1\<lparr>sc_dispatch := (sc_dispatch c1)(sh_last_input_tick snap := None),
                              sc_rtt_ms := as_millis (duration_since now dispatch_time)\<rparr>);
             local \<leftarrow> history_get (sc_history c2) (sh_tick snap);
             (case local of
                None \<Rightarrow> Some c2
              | Some r \<Rightarrow>
                  if fr_state_hash r \<noteq> sh_state_hash snap then do {
                    let ping_ms = ucast (sc_rtt_ms c2 div 2);
                    let padding = max (ping_ms div 16 + 1) 2;
                    t \<leftarrow> add_u p (sh_tick snap) padding;
                    Some (c2\<lparr>sc_predicted_tick := t\<rparr>)
                  }
                  else Some c2)
           })
      })"

definition swarm_prepare_packet :: "swarm_client \<Rightarrow> bytes" where
  "swarm_prepare_packet c =
     general_packet_header_as_bytes \<lparr>gh_packet_type = packet_type_code Input\<rparr> @
     input_packet_as_bytes \<lparr>ip_tick = sc_predicted_tick c, ip_input_bitmask = 0x01\<rparr>"

text \<open>The casts to \<open>i64\<close> keep the bits.\<close>

definition swarm_step_size :: "profile \<Rightarrow> f32 \<Rightarrow> u64 \<Rightarrow> u64 \<Rightarrow> u64 option" where
  "swarm_step_size p gain last_server predicted = do {
     error \<leftarrow> sub_s p last_server predicted;
     let tick_acceleration = f32_of_int (sint error) * gain;
     Some (f32_to_u64 (f32_round_int (f32_lit 1 + tick_acceleration)))
   }"

definition swarm_tick :: "profile \<Rightarrow> hasher \<Rightarrow> f32 \<Rightarrow> instant \<Rightarrow> swarm_client \<Rightarrow> swarm_client option" where
  "swarm_tick p hash gain now c = do {
     step \<leftarrow> swarm_step_size p gain (sc_last_server_tick c) (sc_predicted_tick c);
     t \<leftarrow> add_u p (sc_predicted_tick c) step;
     w \<leftarrow> swarm_step_physics 0x01 (sc_world c);
     h \<leftarrow> history_insert \<lparr>fr_tick = t, fr_state = w, fr_state_hash = swarm_hash hash w,
            fr_input = 0x01\<rparr> (sc_history c);
     Some (c\<lparr>sc_predicted_tick := t, sc_world := w, sc_history := h,
             sc_dispatch := (sc_dispatch c)(t \<mapsto> now)\<rparr>)
   }"

section \<open>The main loop\<close>

record swarm =
  sw_clients :: "sock_addr \<rightharpoonup> swarm_client"
  sw_discovered :: bool

fun swarm_ingest ::
  "profile \<Rightarrow> (nat \<Rightarrow> instant) \<Rightarrow> nat \<Rightarrow> packet list \<Rightarrow> swarm \<Rightarrow> swarm option" where
  "swarm_ingest p now i [] s = Some s"
| "swarm_ingest p now i ((packet, sender) # packets) s = do {
     c \<leftarrow> (case sw_clients s sender of Some c \<Rightarrow> Some c | None \<Rightarrow> swarm_client_new);
     c1 \<leftarrow> swarm_process_packet p (now i) packet c;
     swarm_ingest p now (Suc i) packets
       (s\<lparr>sw_discovered := True, sw_clients := (sw_clients s)(sender \<mapsto> c1)\<rparr>)
   }"

fun swarm_tick_all ::
  "profile \<Rightarrow> hasher \<Rightarrow> f32 \<Rightarrow> instant \<Rightarrow> sock_addr list \<Rightarrow> swarm \<Rightarrow> (swarm \<times> packet list) option" where
  "swarm_tick_all p hash gain now [] s = Some (s, [])"
| "swarm_tick_all p hash gain now (a # addrs) s =
     (case sw_clients s a of
        None \<Rightarrow> swarm_tick_all p hash gain now addrs s
      | Some c \<Rightarrow>
          if sc_last_server_tick c \<noteq> 0 then do {
            c1 \<leftarrow> swarm_tick p hash gain now c;
            (s1, out) \<leftarrow> swarm_tick_all p hash gain now addrs
              (s\<lparr>sw_clients := (sw_clients s)(a \<mapsto> c1)\<rparr>);
            Some (s1, (swarm_prepare_packet c1, a) # out)
          }
          else swarm_tick_all p hash gain now addrs s)"

definition swarm_gain :: f32 where "swarm_gain = f32_lit (5 / 100)"

definition swarm_iteration ::
  "profile \<Rightarrow> hasher \<Rightarrow> sock_addr \<Rightarrow> rift_error + packet list \<Rightarrow> (nat \<Rightarrow> instant) \<Rightarrow> instant
    \<Rightarrow> sock_addr list \<Rightarrow> swarm \<Rightarrow> (swarm \<times> packet list) option" where
  "swarm_iteration p hash server_addr polled packet_now now order s = do {
     let hello = (if sw_discovered s then [] else [(input_message 0 0, server_addr)]);
     s1 \<leftarrow> (case polled of
         Inr packets \<Rightarrow> swarm_ingest p packet_now 0 packets s
       | Inl e \<Rightarrow> Some s);
     (s2, out) \<leftarrow> swarm_tick_all p hash swarm_gain now order s1;
     Some (s2, hello @ out)
   }"

section \<open>The control moves towards the server\<close>

lemma f32_of_i64_within:
  "f32_within (- (2 ^ 63)) (2 ^ 63) (f32_of_int (sint (e :: i64)))"
  "0 \<le> sint (e :: i64) \<Longrightarrow> f32_within 0 (2 ^ 63) (f32_of_int (sint e))"
  "sint (e :: i64) \<le> 0 \<Longrightarrow> f32_within (- (2 ^ 63)) 0 (f32_of_int (sint e))"
proof -
  have lims: "- (2 ^ 63) \<le> sint e" "sint e \<le> 2 ^ 63"
    using sint_greater_eq [of e] sint_lt [of e] by simp_all
  then have r: "- (2 ^ 63) \<le> (of_int (sint e) :: rat)" "(of_int (sint e) :: rat) \<le> 2 ^ 63"
    using of_int_le_iff [of "- (2 ^ 63)" "sint e", where 'a = rat]
      of_int_le_iff [of "sint e" "2 ^ 63", where 'a = rat] by simp_all
  have m: "rnd (- (2 ^ 63)) = - (2 ^ 63)" by (simp only: rnd_uminus rnd_power)
  have big: "\<bar>- (2 ^ 63) :: rat\<bar> < f32_max_exp" "\<bar>2 ^ 63 :: rat\<bar> < f32_max_exp"
    by (simp_all add: f32_max_exp_def)
  show "f32_within (- (2 ^ 63)) (2 ^ 63) (f32_of_int (sint e))"
    unfolding f32_of_int_def by (rule f32_round_within(1) [OF r m rnd_power big])
  show "f32_within 0 (2 ^ 63) (f32_of_int (sint e))" if "0 \<le> sint e"
    unfolding f32_of_int_def
    by (rule f32_round_within(1) [OF iffD2 [OF of_int_0_le_iff that] r(2) _ rnd_power _ big(2)])
      simp_all
  show "f32_within (- (2 ^ 63)) 0 (f32_of_int (sint e))" if "sint e \<le> 0"
    unfolding f32_of_int_def
    by (rule f32_round_within(1) [OF r(1) iffD2 [OF of_int_le_0_iff that] m _ big(1)])
      simp_all
qed

text \<open>
  The step by which a swarm client advances its predicted tick is at least one when the server is
  not behind it and at most one when the server is not ahead, for every gain between 0 and 1: the
  control moves towards the server, but it never steps back.
\<close>

theorem swarm_step_sign:
  assumes "sub_s p srv predicted = Some e" "f32_within 0 1 gain"
  shows "\<exists>n. swarm_step_size p gain srv predicted = Some n \<and>
    (0 \<le> sint e \<longrightarrow> 1 \<le> n) \<and> (sint e \<le> 0 \<longrightarrow> n \<le> 1)"
proof -
  obtain g where g: "gain = Fin g" "0 \<le> g" "g \<le> 1" using assms(2) by (rule f32_withinE)
  obtain r where r: "f32_of_int (sint e) = Fin r" "- (2 ^ 63) \<le> r" "r \<le> 2 ^ 63"
    using f32_of_i64_within(1) [of e] by (rule f32_withinE)
  have r_sign: "0 \<le> sint e \<Longrightarrow> 0 \<le> r" "sint e \<le> 0 \<Longrightarrow> r \<le> 0"
    using f32_of_i64_within(2,3) [of e] r(1) by auto
  have "\<bar>r\<bar> * g \<le> 2 ^ 63 * 1"
    using r(2,3) g(2,3) by (intro mult_mono) auto
  then have "\<bar>r * g\<bar> \<le> 2 ^ 63" using g(2) by (simp add: abs_mult)
  then have s: "f32_round (r * g) = Fin (rnd (r * g))" "\<bar>rnd (r * g)\<bar> \<le> 2 ^ 63"
    using f32_round_within_pow [of "r * g" 63] by auto
  define t where "t = rnd (1 + rnd (r * g))"
  have "\<bar>1 + rnd (r * g)\<bar> \<le> 2 ^ 64" using s(2) by (simp add: abs_le_iff)
  then have t: "f32_round (1 + rnd (r * g)) = Fin t"
    using f32_round_within_pow [of "1 + rnd (r * g)" 64] by (simp add: t_def)
  define n where "n = round_half_away t"
  have size: "swarm_step_size p gain srv predicted =
      Some (word_of_int (max 0 (min (2 ^ 64 - 1) n)))"
  proof -
    have "f32_of_int (sint e) * gain = Fin (rnd (r * g))" by (simp add: r(1) g(1) f32_ops s(1))
    moreover have "f32_lit 1 + Fin (rnd (r * g)) = Fin t"
      using rnd_numeral [of num.One] by (simp add: f32_lit_exact f32_max_exp_def f32_ops t)
    ultimately have "f32_to_u64 (f32_round_int (f32_lit 1 + f32_of_int (sint e) * gain)) =
        word_of_int (max 0 (min (2 ^ 64 - 1) n))"
      by (simp only: f32_round_int.simps f32_to_u64_def f32_cast.simps trunc_rat_int n_def)
    then show ?thesis by (simp add: swarm_step_size_def assms(1) Let_def)
  qed
  have rnd1: "rnd 1 = 1" using rnd_power [of 0] by simp
  have lo: "1 \<le> n" if "0 \<le> sint e"
  proof -
    have "0 \<le> rnd (r * g)" using r_sign(1) [OF that] g(2) by (intro rnd_nonneg) simp
    then have "1 \<le> t" using rnd_mono [of 1 "1 + rnd (r * g)"] by (simp add: t_def rnd1)
    then show ?thesis
      using round_half_away_mono [of 1 t] round_half_away_int [of 1] by (simp add: n_def)
  qed
  have hi: "n \<le> 1" if "sint e \<le> 0"
  proof -
    have "rnd (r * g) \<le> rnd 0"
      using r_sign(2) [OF that] g(2) by (intro rnd_mono) (simp add: mult_nonpos_nonneg)
    then have "t \<le> 1" using rnd_mono [of "1 + rnd (r * g)" 1] by (simp add: t_def rnd1)
    then show ?thesis
      using round_half_away_mono [of t 1] round_half_away_int [of 1] by (simp add: n_def)
  qed
  let ?n = "max 0 (min (2 ^ 64 - 1) n)"
  have u: "uint (word_of_int ?n :: u64) = ?n"
    by (simp add: uint_word_of_int_eq take_bit_int_eq_self)
  have "1 \<le> (word_of_int ?n :: u64)" if "0 \<le> sint e"
    using lo [OF that] by (simp only: word_le_def u) simp
  moreover have "(word_of_int ?n :: u64) \<le> 1" if "sint e \<le> 0"
    using hi [OF that] by (simp only: word_le_def u) simp
  ultimately show ?thesis using size by blast
qed

theorem swarm_step_sign_witness:
  "\<exists>n. swarm_step_size Debug swarm_gain 100 80 = Some n \<and> 1 \<le> n"
proof -
  have "f32_within 0 1 swarm_gain"
    unfolding swarm_gain_def f32_lit_def by (rule f32_round_within(1))
      (use rnd_power [of 0] in \<open>simp_all add: f32_max_exp_def\<close>)
  moreover have "sub_s Debug (100 :: u64) 80 = Some 20"
    by (simp add: sub_s_def in_range_s_def)
  ultimately show ?thesis using swarm_step_sign [of Debug 100 80 20 swarm_gain] by auto
qed

section \<open>The swarm survives what it receives\<close>

definition swarm_client_ok :: "swarm_client \<Rightarrow> bool" where
  "swarm_client_ok c \<longleftrightarrow> history_ok 7 (sc_history c) \<and> swarm_positions (sc_world c) \<noteq> []"

definition swarm_ok :: "swarm \<Rightarrow> bool" where
  "swarm_ok s \<longleftrightarrow> (\<forall>a c. sw_clients s a = Some c \<longrightarrow> swarm_client_ok c)"

lemma swarm_client_new_ok: "\<exists>c. swarm_client_new = Some c \<and> swarm_client_ok c"
  by (simp add: swarm_client_new_def client_history_new swarm_client_ok_def)

lemma swarm_process_packet_total:
  assumes "swarm_client_ok c"
  shows "\<exists>c'. swarm_process_packet Release now packet c = Some c' \<and> swarm_client_ok c' \<and>
    (25 \<le> length packet \<longrightarrow> sc_last_server_tick c' = from_le_bytes (take 8 (drop 1 packet)))"
proof (cases "length packet < 25")
  case True
  with assms show ?thesis by (simp add: swarm_process_packet_def)
next
  case False
  then have "snapshot_header_size \<le> length (drop 1 packet)" by simp
  then obtain snap where snap: "snapshot_header_read (drop 1 packet) = Some snap"
    using snapshot_wire.read_total by blast
  then have tick: "sh_tick snap = from_le_bytes (take 8 (drop 1 packet))"
    by (auto simp: snapshot_header_read_def split: if_splits)
  define c2 where "c2 = (case sc_dispatch c (sh_last_input_tick snap) of
      None \<Rightarrow> c\<lparr>sc_last_server_tick := sh_tick snap\<rparr>
    | Some d \<Rightarrow> c\<lparr>sc_last_server_tick := sh_tick snap,
        sc_dispatch := (sc_dispatch c)(sh_last_input_tick snap := None),
        sc_rtt_ms := as_millis (duration_since now d)\<rparr>)"
  have ok: "swarm_client_ok c2"
    using assms by (simp add: c2_def swarm_client_ok_def split: option.split)
  obtain r where "history_get (sc_history c2) (sh_tick snap) = Some r"
    using history_get_total ok by (force simp: swarm_client_ok_def)
  moreover have "slice 1 (length packet) packet = Some (drop 1 packet)"
    using False by (intro slice_suffix) simp
  ultimately have "\<exists>t. swarm_process_packet Release now packet c =
      Some (if \<exists>f. r = Some f \<and> fr_state_hash f \<noteq> sh_state_hash snap
            then c2\<lparr>sc_predicted_tick := t\<rparr> else c2)"
    using False snap
    by (auto simp: swarm_process_packet_def Let_def c2_def split: option.splits)
  moreover have "sc_last_server_tick c2 = sh_tick snap" by (simp add: c2_def split: option.split)
  ultimately show ?thesis using ok tick by (auto simp: swarm_client_ok_def)
qed

lemma swarm_tick_total:
  assumes "swarm_client_ok c"
  shows "\<exists>c'. swarm_tick Release hash gain now c = Some c' \<and> swarm_client_ok c'"
proof -
  obtain x y z rest where pos: "swarm_positions (sc_world c) = (x, y, z) # rest"
    using assms by (cases "swarm_positions (sc_world c)") (auto simp: swarm_client_ok_def)
  obtain n where n: "swarm_step_size Release gain (sc_last_server_tick c) (sc_predicted_tick c) = Some n"
    by (simp add: swarm_step_size_def Let_def)
  define w where "w = (sc_world c)\<lparr>swarm_positions := (x + f32_lit (1 / 100), y, z) # rest\<rparr>"
  have w: "swarm_step_physics 1 (sc_world c) = Some w"
    by (simp add: swarm_step_physics_def pos w_def)
  obtain h where h: "history_insert \<lparr>fr_tick = sc_predicted_tick c + n, fr_state = w,
      fr_state_hash = swarm_hash hash w, fr_input = 1\<rparr> (sc_history c) = Some h" "history_ok 7 h"
    using assms history_insert_total by (fastforce simp: swarm_client_ok_def)
  have "swarm_positions w \<noteq> []" by (simp add: w_def)
  then show ?thesis using h by (simp add: swarm_tick_def n w swarm_client_ok_def)
qed

lemma swarm_ok_upd: "swarm_ok s \<Longrightarrow> swarm_client_ok c \<Longrightarrow>
    swarm_ok (s\<lparr>sw_clients := (sw_clients s)(a \<mapsto> c)\<rparr>)"
  by (simp add: swarm_ok_def)

lemma swarm_ingest_total:
  "swarm_ok s \<Longrightarrow> \<exists>s'. swarm_ingest Release now i packets s = Some s' \<and> swarm_ok s'"
proof (induction packets arbitrary: i s)
  case Nil
  then show ?case by simp
next
  case (Cons x packets)
  obtain packet sender where x: "x = (packet, sender)" by (cases x)
  obtain c where c: "(case sw_clients s sender of Some c \<Rightarrow> Some c | None \<Rightarrow> swarm_client_new) = Some c"
    "swarm_client_ok c"
    using swarm_client_new_ok Cons.prems by (cases "sw_clients s sender") (auto simp: swarm_ok_def)
  obtain c1 where c1: "swarm_process_packet Release (now i) packet c = Some c1" "swarm_client_ok c1"
    using swarm_process_packet_total [OF c(2)] by blast
  have "swarm_ok (s\<lparr>sw_discovered := True, sw_clients := (sw_clients s)(sender \<mapsto> c1)\<rparr>)"
    using Cons.prems c1(2) by (simp add: swarm_ok_def)
  from Cons.IH [OF this, of "Suc i"] c(1) c1(1) x show ?case by auto
qed

abbreviation in_contact :: "swarm \<Rightarrow> sock_addr \<Rightarrow> bool" where
  "in_contact s a \<equiv> (\<exists>c. sw_clients s a = Some c \<and> sc_last_server_tick c \<noteq> 0)"

lemma swarm_tick_all_total:
  "swarm_ok s \<Longrightarrow> distinct addrs \<Longrightarrow>
    \<exists>s' out. swarm_tick_all Release hash gain now addrs s = Some (s', out) \<and> swarm_ok s' \<and>
      map snd out = filter (in_contact s) addrs \<and>
      (\<forall>(w, a) \<in> set out. \<exists>c. sw_clients s' a = Some c \<and> w = swarm_prepare_packet c) \<and>
      (\<forall>a. a \<notin> set addrs \<longrightarrow> sw_clients s' a = sw_clients s a)"
proof (induction addrs arbitrary: s)
  case Nil
  then show ?case by simp
next
  case (Cons a addrs)
  show ?case
  proof (cases "in_contact s a")
    case False
    then have "swarm_tick_all Release hash gain now (a # addrs) s =
        swarm_tick_all Release hash gain now addrs s"
      by (auto split: option.split)
    with Cons.IH [OF Cons.prems(1)] Cons.prems(2) False show ?thesis by auto
  next
    case True
    then obtain c where c: "sw_clients s a = Some c" "sc_last_server_tick c \<noteq> 0" by blast
    obtain c1 where c1: "swarm_tick Release hash gain now c = Some c1" "swarm_client_ok c1"
      using swarm_tick_total Cons.prems(1) c(1) by (force simp: swarm_ok_def)
    let ?s = "s\<lparr>sw_clients := (sw_clients s)(a \<mapsto> c1)\<rparr>"
    obtain s' out where rec: "swarm_tick_all Release hash gain now addrs ?s = Some (s', out)"
      "swarm_ok s'" "map snd out = filter (in_contact ?s) addrs"
      "\<forall>(w, a) \<in> set out. \<exists>c. sw_clients s' a = Some c \<and> w = swarm_prepare_packet c"
      "\<forall>b. b \<notin> set addrs \<longrightarrow> sw_clients s' b = sw_clients ?s b"
      using Cons.IH [OF swarm_ok_upd [OF Cons.prems(1) c1(2), of a]] Cons.prems(2) by auto
    have "filter (in_contact ?s) addrs = filter (in_contact s) addrs"
      using Cons.prems(2) by (intro filter_cong) auto
    moreover have "sw_clients s' a = Some c1" using rec(5) Cons.prems(2) by simp
    ultimately show ?thesis using rec c c1(1) by auto
  qed
qed

text \<open>
  C11: whatever a poll delivers, an iteration of the swarm does not panic when overflow is not checked:
  its clients stay well formed, each client that has heard from its server sends exactly one input, for
  the tick it has just predicted, and the hello goes out exactly as long as nothing was received.
\<close>

theorem swarm_survives_any_input:
  assumes "swarm_ok s" "distinct order"
  shows "\<exists>s1 s' out. swarm_iteration Release hash srv polled packet_now now order s =
      Some (s', (if sw_discovered s then [] else [(input_message 0 0, srv)]) @ out) \<and>
    swarm_ok s' \<and>
    (case polled of Inl e \<Rightarrow> s1 = s
     | Inr packets \<Rightarrow> swarm_ingest Release packet_now 0 packets s = Some s1) \<and>
    map snd out = filter (in_contact s1) order \<and>
    (\<forall>(w, a) \<in> set out. \<exists>c. sw_clients s' a = Some c \<and> w = swarm_prepare_packet c)"
proof -
  obtain s1 where s1: "(case polled of Inr packets \<Rightarrow> swarm_ingest Release packet_now 0 packets s
      | Inl e \<Rightarrow> Some s) = Some s1" "swarm_ok s1"
  proof (cases polled)
    case (Inr packets)
    with swarm_ingest_total [OF assms(1), of packet_now 0 packets] show ?thesis using that by auto
  qed (use that assms(1) in auto)
  from swarm_tick_all_total [OF s1(2) assms(2), of hash swarm_gain now] obtain s' out where
    "swarm_tick_all Release hash swarm_gain now order s1 = Some (s', out)" "swarm_ok s'"
    "map snd out = filter (in_contact s1) order"
    "\<forall>(w, a) \<in> set out. \<exists>c. sw_clients s' a = Some c \<and> w = swarm_prepare_packet c"
    by blast
  with s1(1) show ?thesis
    by (intro exI [of _ s1] exI [of _ s'] exI [of _ out])
      (auto simp: swarm_iteration_def Let_def split: sum.splits)
qed

theorem swarm_survives_any_input_witness:
  "\<exists>s' out. swarm_iteration Release from_le_bytes \<lparr>sa_ip = [49], sa_port = 80\<rparr>
      (Inr [([3, 1], \<lparr>sa_ip = [49], sa_port = 80\<rparr>)]) (\<lambda>i. 0) 0 [\<lparr>sa_ip = [49], sa_port = 80\<rparr>]
      \<lparr>sw_clients = Map.empty, sw_discovered = False\<rparr> =
    Some (s', (input_message 0 0, \<lparr>sa_ip = [49], sa_port = 80\<rparr>) # out) \<and> swarm_ok s'"
  using swarm_survives_any_input [of "\<lparr>sw_clients = Map.empty, sw_discovered = False\<rparr>"
      "[\<lparr>sa_ip = [49], sa_port = 80\<rparr>]" from_le_bytes "\<lparr>sa_ip = [49], sa_port = 80\<rparr>"
      "Inr [([3, 1], \<lparr>sa_ip = [49], sa_port = 80\<rparr>)]" "\<lambda>i. 0" 0]
  by (auto simp: swarm_ok_def simp del: swarm_ingest.simps)

end
