(* ===== verification/Swarm_Wire.thy ===== *)
theory Swarm_Wire
  imports Swarm Server_Tick
begin

text \<open>
  The load generator of \<open>bin/client_swarm.rs\<close> against the server it is meant to load. The server
  speaks through the connection manager, which puts a nonce behind the type byte and encrypts the
  rest; the swarm writes and reads the plain packets. The two directions are shown here: what the
  swarm sends never reaches the server's application, and the tick that the swarm reads from an
  unreliable datagram of the server is its nonce.
\<close>

lemma swarm_prepare_packet_eq: "swarm_prepare_packet c = input_message (sc_predicted_tick c) 1"
  by (simp add: swarm_prepare_packet_def input_message_def)

lemma input_message_type:
  "general_packet_header_read (input_message t b) = Some \<lparr>gh_packet_type = packet_type_code Input\<rparr>"
  unfolding input_message_def by (rule general_wire.read_as_bytes) simp

text \<open>A datagram of fewer than 25 bytes has no room for the tag behind its nonce.\<close>

lemma short_unreliable_dropped:
  assumes "libs_ok L" "conn_pipeline c = SecurePipeline sp" "length data < 25"
    and "receive_unreliable L g data c = Some r"
  shows "r = None"
proof (cases "length data < 9")
  case False
  then have "slice 9 (length data) data = Some (drop 9 data)" by (intro slice_suffix) simp
  moreover have "length (drop 9 data) < 16" using assms(3) by simp
  ultimately show ?thesis
    using assms(2,4) False secure_lengths(1) [OF assms(1)]
    by (auto simp: receive_unreliable_def Let_def bind_Some_conv)
qed (use assms(4) in \<open>simp add: receive_unreliable_def\<close>)

lemma accept_sender_pipeline:
  assumes "accept_sender p t addr m = Some c"
    and "\<And>d. m addr = Some d \<Longrightarrow> \<exists>sp. conn_pipeline d = SecurePipeline sp"
  shows "\<exists>sp. conn_pipeline c = SecurePipeline sp"
proof (cases "m addr")
  case None
  with assms(1) show ?thesis
    by (auto simp: accept_sender_def fresh_connection_eq dispatch_handshake_def queue_pending_send_def
        bind_Some_conv Let_def split: if_splits)
qed (use assms in \<open>force simp: accept_sender_def\<close>)

section \<open>Properties\<close>

text \<open>
  C40: no input of a swarm client, nor the hello of the swarm, is ever handed to the application of a
  server whose connections are encrypted, as they are from their first packet on: the server takes
  the plain packet for a nonce and four encrypted bytes, and drops it.
\<close>

theorem swarm_is_never_heard:
  assumes "libs_ok L" "\<forall>d. m addr = Some d \<longrightarrow> (\<exists>sp. conn_pipeline d = SecurePipeline sp)"
    and "data = swarm_prepare_packet c \<or> data = input_message 0 0"
    and "handle_packet p L t addr data m = Some (m', r)"
  shows "r = None"
proof -
  obtain tick b where data: "data = input_message tick b"
    using assms(3) swarm_prepare_packet_eq by blast
  obtain d where d: "accept_sender p t addr m = Some d"
    using assms(4) by (auto simp: handle_packet_def bind_Some_conv)
  with assms(2) obtain sp where sp: "conn_pipeline d = SecurePipeline sp"
    using accept_sender_pipeline by blast
  have "receive_unreliable L \<lparr>gh_packet_type = packet_type_code Input\<rparr> data d = Some r"
    using assms(4) d by (auto simp: handle_packet_def data input_message_type bind_Some_conv)
  then show ?thesis
    by (rule short_unreliable_dropped [OF assms(1) sp, rotated]) (simp add: data input_message_length)
qed

theorem swarm_is_never_heard_witness:
  "\<exists>c m'. swarm_client_new = Some c \<and>
    handle_packet Release plain_libs
      \<lparr>cr_new_state = 0, cr_new_seen = 0, cr_last_seen = 0, cr_elapsed = 5, cr_incoming = 0\<rparr>
      \<lparr>sa_ip = [49], sa_port = 80\<rparr> (swarm_prepare_packet c) manager_new = Some (m', None)"
proof -
  let ?t = "\<lparr>cr_new_state = 0, cr_new_seen = 0, cr_last_seen = 0, cr_elapsed = 5, cr_incoming = 0\<rparr>"
  let ?a = "\<lparr>sa_ip = [49], sa_port = 80\<rparr>"
  obtain c where c: "swarm_client_new = Some c" using swarm_client_new_ok by blast
  obtain m' r where h: "handle_packet Release plain_libs ?t ?a (swarm_prepare_packet c) manager_new =
      Some (m', r)"
    using handle_packet_total [OF manager_ok_new] by fast
  with c swarm_is_never_heard [OF plain_libs_ok _ _ h, of c] show ?thesis by (auto simp: manager_new_def)
qed

text \<open>
  The tick that a swarm client takes from an unreliable datagram of an encrypted connection, a
  snapshot in particular, is the nonce of that datagram, whatever tick the snapshot is of.
\<close>

theorem swarm_reads_nonce:
  assumes "libs_ok L" "conn_pipeline c = SecurePipeline sp" "swarm_client_ok cl"
    and "send_unreliable p L data c = Some (c', Some w)"
  shows "\<exists>cl'. swarm_process_packet Release now w cl = Some cl' \<and> sc_last_server_tick cl' = tx_nonce c"
proof -
  obtain g sealed where w: "w = g @ to_le_bytes 8 (tx_nonce c) @ sealed" "length g = 1"
    "secure_process L sp (drop 1 data) (tx_nonce c) = Inr sealed"
    using assms(2,4)
    by (cases "secure_process L sp (drop 1 data) (tx_nonce c)")
      (auto simp: send_unreliable_def get_tx_nonce_def slice_def bind_Some_conv split: if_splits)
  have "25 \<le> length w" using secure_lengths(2) [OF assms(1) w(3)] w(1,2) by simp
  moreover have "take 8 (drop 1 w) = to_le_bytes 8 (tx_nonce c)" by (simp add: w(1,2))
  ultimately show ?thesis
    using swarm_process_packet_total [OF assms(3), of now w] by auto
qed

theorem swarm_reads_nonce_witness:
  "\<exists>c1 w cl cl'. swarm_client_new = Some cl \<and>
    send_unreliable Debug plain_libs
      (snapshot_packet 900 77 session_new \<lparr>positions = [\<lparr>vx = 5, vy = 6, vz = 7\<rparr>]\<rparr>)
      (connection_new \<lparr>sa_ip = [49], sa_port = 80\<rparr> True static_pipeline 0 0) = Some (c1, Some w) \<and>
    swarm_process_packet Release 0 w cl = Some cl' \<and> sc_last_server_tick cl' = 1"
proof -
  let ?a = "\<lparr>sa_ip = [49], sa_port = 80\<rparr>" and ?w = "\<lparr>positions = [\<lparr>vx = 5, vy = 6, vz = 7\<rparr>]\<rparr>"
  let ?c = "connection_new ?a True static_pipeline 0 0"
  let ?d = "snapshot_packet 900 77 session_new ?w"
  obtain cl where cl: "swarm_client_new = Some cl" "swarm_client_ok cl"
    using swarm_client_new_ok by blast
  have len: "length ?d = 37" by (simp add: snapshot_packet_length)
  then obtain b payload where d: "?d = b # payload" by (cases ?d) auto
  have pl: "pipeline_ok (conn_pipeline ?c)" by (simp add: pipeline_ok_def static_poc_key_def)
  have nonce: "add_u Debug (tx_nonce ?c) 2 = Some 3" by (simp add: connection_new_def add_u_def)
  have "length payload < 2 ^ 32" using len d by simp
  from send_unreliable_spec [OF plain_libs_ok pl this nonce, of b]
  obtain c1 w where sent: "send_unreliable Debug plain_libs ?d ?c = Some (c1, Some w)"
    unfolding d by blast
  have "conn_pipeline ?c = static_pipeline" by simp
  from swarm_reads_nonce [OF plain_libs_ok this cl(2) sent] cl(1) sent
  show ?thesis by (fastforce simp: connection_new_def)
qed

end
