(* ===== verification/Spec2Isabelle.thy ===== *)
theory Spec2Isabelle
  imports Authority Recovery Wire_Types Forgery Pool_Shutdown Swarm_Wire
begin

text \<open>
  A verification development for riftnet, a UDP game-networking stack in Rust: a reliability layer
  over datagrams, encrypted and compressed connections, an authoritative server that simulates a
  deterministic world, and clients that predict it and roll back.

  \<^bold>\<open>Parts and theories.\<close> Every theory names the source files it models.

  \<^item> \<open>Rust_Prelude\<close>: machine words, the overflow-checked operators with the build profile as an
    argument (\<open>Debug\<close> panics, \<open>Release\<close> wraps), little-endian bytes, slices, maps, loops that may
    panic. \<open>Float32\<close>: the operations of \<open>f32\<close> the program uses, as exact rationals rounded to
    nearest even, with NaN and infinities; instants and durations in nanoseconds.
  \<^item> \<open>Packet\<close> (\<open>protocol/src/packet.rs\<close>): the headers and their bytes, with the locale
    \<open>wire_format\<close> that all of them interpret. \<open>History\<close> (\<open>protocol/src/history.rs\<close>): the ring
    buffer of frames, with the locale \<open>frame_store\<close>.
  \<^item> \<open>Replay_Window\<close>: the contract of a sliding duplicate filter, the locale that \<open>Rx_Window\<close> (the
    receive window of \<open>protocol/src/protocol.rs\<close>) and \<open>Anti_Replay\<close> (\<open>AntiReplayWindow\<close> of
    \<open>connection/src/connection.rs\<close>) refine.
  \<^item> \<open>Protocol\<close> and \<open>Reliability\<close> (\<open>protocol/src/protocol.rs\<close>): acknowledgements, the round-trip
    estimator, retransmission.
  \<^item> \<open>Rift_Core\<close> (\<open>core/src/core.rs\<close>, \<open>core/src/fixed_vec3.rs\<close>): errors and fixed-point vectors.
    \<open>Codec\<close> (\<open>compression\<close>, \<open>encryption\<close>, \<open>connection/src/pipeline.rs\<close>): pipelines, with the locale
    \<open>network_pipeline\<close> for the trait \<open>NetworkPipeline\<close>.
  \<^item> \<open>Connection\<close> and \<open>Flush\<close> (\<open>connection/src/connection.rs\<close>): one connection, its queue, and what
    a flush puts on the wire. \<open>Manager\<close> and \<open>Sessions\<close> (\<open>connection/src/manager.rs\<close>): all
    connections of a peer and the states that can be reached. \<open>Conn_Invariant\<close>: the locale
    \<open>connection_invariant\<close>, which lifts an invariant of one connection to the manager. \<open>Delivery\<close>,
    \<open>Recovery\<close> and \<open>Establish\<close>: two peers. \<open>Forgery\<close>: datagrams made without a key.
  \<^item> \<open>Interpolator\<close>, \<open>World\<close>, \<open>Transport\<close> (\<open>transport/src\<close> and the \<open>WorldState\<close> of the server):
    the snapshot buffer, the simulated world, the socket, with the locale \<open>network_reactor\<close> for the
    trait \<open>NetworkReactor\<close>. \<open>Client_World\<close>: the client's own copy of the \<open>WorldState\<close>.
  \<^item> \<open>Server\<close> and \<open>Server_Tick\<close> (\<open>bin/server.rs\<close>); \<open>Client\<close>, \<open>Client_Sync\<close> and \<open>Client_Loop\<close>
    (\<open>bin/client.rs\<close>); \<open>Swarm\<close> (\<open>bin/client_swarm.rs\<close>) and \<open>Swarm_Wire\<close>, the swarm against the server;
    \<open>Thread_Pool\<close> and \<open>Pool_Shutdown\<close> (\<open>core/src/threading.rs\<close>). \<open>Server_Run\<close> and \<open>Client_Run\<close>:
    the two programs as they run, iteration after iteration. \<open>Lockstep\<close> and \<open>Authority\<close>: the server
    and a client side by side. \<open>Wire_Types\<close>: the types of the datagrams they send.

  \<^bold>\<open>How the code is modelled.\<close> A struct is a record with the fields of the source, an operation a
  function on it; a function that may panic returns an option, \<open>None\<close> being the panic; a fallible
  function returns its \<open>RiftError\<close> on the left of a sum. Clock readings are arguments. A hash map is
  a map, and an operation that iterates one takes the order of the iteration as an argument, so that
  what is proved holds for every order (\<open>iter_order\<close>). One iteration of a main loop is one function
  (\<open>server_tick\<close>, \<open>sync_step\<close>, \<open>client_tick\<close>, \<open>swarm_iteration\<close>): what it reads from outside is a
  record, what it sends is a result. The thread pool is a step relation over the interleavings of its
  workers and callers.

  \<^bold>\<open>What is proved.\<close> The server runs on whatever arrives, when overflow is not checked, with an
  invariant of its whole state (\<open>Server_Run\<close>); what an iteration does does not depend on hash map
  orders (\<open>Server_Tick\<close>); a client fails only on a snapshot that is too short (\<open>Client_Run\<close>).
  Both send only datagrams of the types that the other expects (\<open>Wire_Types\<close>). A session is established with a common key
  (\<open>Establish\<close>), queued data is delivered in order (\<open>Delivery\<close>), reliable data and the handshake
  survive the loss of any number of flushes (\<open>Recovery\<close>), every reachable manager satisfies the
  invariant of its connections (\<open>Sessions\<close>). Snapshots and
  inputs cross the network unchanged, the first snapshot synchronises the client, a later one
  confirms its prediction or corrects it (\<open>Client_Sync\<close>), and the client's tick control settles
  (\<open>Client_Loop\<close>). While the server's inputs are the ones a client predicts, the client never rolls
  back, however late its snapshots are within the history (\<open>Lockstep\<close>), and both the
  server's first snapshot and the correction of a client that has mispredicted bring the two there,
  if the server will move in the three ticks ahead as the client assumes (\<open>Authority\<close>). The swarm
  survives what it receives. The duplicate filters refine the unbounded one; a retransmission pass
  resends exactly what is due under its backed-off timeout; the estimator stays within its bounds;
  the ring buffer and the interpolator keep the newest entries; the jobs of the pool run exactly
  once, and \<open>stop\<close> comes to rest unless its wakeup is lost. Some theorems state what the code does
  where it differs from what it means to do: \<open>acks_describe_successor\<close>, \<open>swarm_is_never_heard\<close>,
  \<open>swarm_reads_nonce\<close>, \<open>receive_window_panics_at_32\<close>, \<open>duplicate_is_delivered_again\<close>,
  \<open>first_flush_reuses_nonce\<close>, \<open>flush_panics_iff_empty_unreliable\<close>, \<open>short_snapshot_panics\<close>,
  \<open>paused_pool_never_joins\<close>, \<open>stop_can_lose_wakeup\<close>, \<open>failed_poll_loses_packets\<close>,
  \<open>plain_headers_are_obeyed\<close>, \<open>last_ticks_overflow\<close>.

  \<^bold>\<open>Parameters and bounds.\<close> \<open>lz4_flex\<close> and \<open>ring\<close> are the record \<open>libs\<close>; \<open>libs_ok\<close> is their
  documented behaviour, and \<open>plain_libs\<close> an instance of it. The hash function of the standard
  library is the argument \<open>hasher\<close>. No definition uses fuel: the loops are structural, but for
  \<open>replay\<close>, which terminates because it counts up to its limit, and \<open>poll_loop\<close>, which ends with the
  list of the results of its receive calls and returns \<open>None\<close> when that list does not end it. A
  packet is shorter than \<open>2 ^ 63\<close> bytes (the bound of a slice), a queued one than \<open>2 ^ 20\<close>.
  The statements about the running programs count fewer than \<open>2 ^ 64\<close> iterations.

  \<^bold>\<open>Not modelled.\<close> Logging and its set-up (the values of the server's telemetry are modelled), what
  the operating system does to bind a socket and to send on it (both are parameters), the tickers
  and sleeps that decide when an iteration of a main loop runs, the tests, and the module
  declarations of the crates; the poisoning of a mutex by a task whose drop
  panics; the text of \<open>Display\<close> for the error, which is that of its derived \<open>Debug\<close>. A socket
  address is the text of its IP address with its port, so the scope and the flow label of an IPv6
  address are left out; the two zeros of \<open>f32\<close> are one value. Overflow checks are modelled in every
  operation; the theorems about running programs are about a build without them, and those about
  panics name the profile.
\<close>

end
